(* ===== verification/Prelude.thy ===== *)
theory Prelude
  imports Main "HOL-Library.Word" "HOL-Library.Multiset"
begin

text \<open>
  Shared vocabulary of the development: the machine integer types of the kernel, the
  outcome of Rust code that can panic, the \<open>Vec\<close> operations the kernel uses
  (\<open>iter().position\<close>, \<open>remove\<close>, \<open>swap_remove\<close>, \<open>insert\<close>), saturating and wrapping
  \<open>usize\<close> arithmetic, and the invariant interface \<open>state_machine\<close> that every
  component with mutable global state is an instance of.

  The kernel is built with the release profile (\<open>src/Cargo.toml\<close>), in which integer
  overflow wraps; indexing out of bounds and division by zero still panic.
\<close>

unbundle bit_operations_syntax

section \<open>Machine integers and results\<close>

type_synonym u8 = "8 word"
type_synonym u16 = "16 word"
type_synonym u32 = "32 word"
type_synonym u64 = "64 word"

text \<open>An \<open>i32\<close> error number, always written with its sign as in the source: \<open>-22\<close>.\<close>

type_synonym errno = int

abbreviation EPERM :: errno where "EPERM \<equiv> - 1"
abbreviation ENOENT :: errno where "ENOENT \<equiv> - 2"
abbreviation ESRCH :: errno where "ESRCH \<equiv> - 3"
abbreviation EBADF :: errno where "EBADF \<equiv> - 9"
abbreviation EAGAIN :: errno where "EAGAIN \<equiv> - 11"
abbreviation ENOMEM :: errno where "ENOMEM \<equiv> - 12"
abbreviation EACCES :: errno where "EACCES \<equiv> - 13"
abbreviation EEXIST :: errno where "EEXIST \<equiv> - 17"
abbreviation EINVAL :: errno where "EINVAL \<equiv> - 22"
abbreviation ENOSYS :: errno where "ENOSYS \<equiv> - 38"
abbreviation EMSGSIZE :: errno where "EMSGSIZE \<equiv> - 90"

text \<open>Code that indexes a slice either returns or panics.\<close>

datatype 'a exec = Panic | Done 'a

fun exec_bind :: "'a exec \<Rightarrow> ('a \<Rightarrow> 'b exec) \<Rightarrow> 'b exec" where
  "exec_bind Panic f = Panic"
| "exec_bind (Done x) f = f x"

lemma exec_bind_Done_iff [simp]:
  "exec_bind m f = Done y \<longleftrightarrow> (\<exists>x. m = Done x \<and> f x = Done y)"
  by (cases m) auto

text \<open>Bit tests as the source writes them: \<open>flags & MASK != 0\<close>.\<close>

abbreviation has_bits :: "'a::len word \<Rightarrow> 'a word \<Rightarrow> bool" where
  "has_bits w m \<equiv> w AND m \<noteq> 0"

text \<open>\<open>usize\<close> values are \<open>nat\<close>; a subtraction that can underflow wraps at 64 bits.\<close>

definition usub :: "nat \<Rightarrow> nat \<Rightarrow> nat" where
  "usub a b = (if b \<le> a then a - b else a + 2 ^ 64 - b)"

lemma usub_le [simp]: "b \<le> a \<Longrightarrow> usub a b = a - b"
  by (simp add: usub_def)

text \<open>An \<open>i32\<close> or \<open>i64\<close> value is an \<open>int\<close> in its range; the source's arithmetic on it wraps.\<close>

type_synonym i32 = int
type_synonym i64 = int

definition wrap_i32 :: "int \<Rightarrow> i32" where
  "wrap_i32 x = (x + 2 ^ 31) mod 2 ^ 32 - 2 ^ 31"

definition wrap_i64 :: "int \<Rightarrow> i64" where
  "wrap_i64 x = (x + 2 ^ 63) mod 2 ^ 64 - 2 ^ 63"

lemma wrap_i32_id [simp]: "- (2 ^ 31) \<le> x \<Longrightarrow> x < 2 ^ 31 \<Longrightarrow> wrap_i32 x = x"
  by (simp add: wrap_i32_def)

lemma wrap_i64_id [simp]: "- (2 ^ 63) \<le> x \<Longrightarrow> x < 2 ^ 63 \<Longrightarrow> wrap_i64 x = x"
  by (simp add: wrap_i64_def)

text \<open>\<open>checked_add\<close> and \<open>saturating_sub\<close> on unsigned words.\<close>

definition checked_add :: "'a::len word \<Rightarrow> 'a word \<Rightarrow> 'a word option" where
  "checked_add a b = (if unat a + unat b < 2 ^ LENGTH('a) then Some (a + b) else None)"

lemma checked_add_Some:
  "checked_add a b = Some c \<longleftrightarrow> unat a + unat b < 2 ^ LENGTH('a) \<and> c = a + b"
  for a b c :: "'a::len word"
  by (auto simp: checked_add_def)

lemma unat_checked_add: "checked_add a b = Some c \<Longrightarrow> unat c = unat a + unat b"
  by (simp add: checked_add_Some unat_word_ariths)

definition sat_sub :: "'a::len word \<Rightarrow> 'a word \<Rightarrow> 'a word" where
  "sat_sub a b = (if b \<le> a then a - b else 0)"

lemma unat_sat_sub: "unat (sat_sub a b) = unat a - unat b"
  by (simp add: sat_sub_def unat_sub word_le_nat_alt)

text \<open>\<open>u64::MAX\<close>.\<close>

lemma unat_u64_max [simp]: "unat (- 1 :: u64) = 18446744073709551615"
  by (simp add: unsigned_minus_1_eq_mask mask_eq_exp_minus_1)

lemma unat_u32_max [simp]: "unat (- 1 :: u32) = 4294967295"
  by (simp add: unsigned_minus_1_eq_mask mask_eq_exp_minus_1)

lemma unat_of_nat_small: "n < 2 ^ LENGTH('a) \<Longrightarrow> unat (of_nat n :: 'a::len word) = n"
  by (simp add: unsigned_of_nat take_bit_nat_eq_self)

text \<open>An increment that does not wrap.\<close>

lemma unat_plus_1: "n \<noteq> - 1 \<Longrightarrow> unat (n + 1) = Suc (unat n)"
  for n :: "'a::len word"
  by (metis add.commute add.inverse_inverse add_eq_0_iff unatSuc)

lemma less_plus_1: "i < n \<Longrightarrow> n \<noteq> - 1 \<Longrightarrow> i < n + 1"
  for i n :: "'a::len word"
  by (simp add: word_less_nat_alt unat_plus_1)

lemma self_less_plus_1: "n \<noteq> - 1 \<Longrightarrow> n < n + 1"
  for n :: "'a::len word"
  by (simp add: word_less_nat_alt unat_plus_1)

section \<open>The \<open>Vec\<close> operations of the source\<close>

text \<open>\<open>iter().position(p)\<close>: the index of the first element that satisfies \<open>p\<close>.\<close>

fun position :: "('a \<Rightarrow> bool) \<Rightarrow> 'a list \<Rightarrow> nat option" where
  "position p [] = None"
| "position p (x # xs) = (if p x then Some 0 else map_option Suc (position p xs))"

lemma position_None [simp]: "position p xs = None \<longleftrightarrow> (\<forall>x \<in> set xs. \<not> p x)"
  by (induction xs) auto

lemma position_SomeD:
  "position p xs = Some i \<Longrightarrow> i < length xs \<and> p (xs ! i) \<and> (\<forall>j < i. \<not> p (xs ! j))"
proof (induction xs arbitrary: i)
  case Nil
  then show ?case by simp
next
  case (Cons x xs)
  show ?case
  proof (cases "p x")
    case True
    with Cons.prems show ?thesis by simp
  next
    case False
    with Cons.prems obtain j where j: "position p xs = Some j" "i = Suc j" by auto
    from Cons.IH [OF j(1)] have IH: "j < length xs \<and> p (xs ! j) \<and> (\<forall>k < j. \<not> p (xs ! k))" .
    with j False show ?thesis by (auto simp: less_Suc_eq_0_disj)
  qed
qed

lemmas position_lt = position_SomeD [THEN conjunct1]
lemmas position_holds = position_SomeD [THEN conjunct2, THEN conjunct1]
lemmas position_first = position_SomeD [THEN conjunct2, THEN conjunct2]

lemma position_ex: "(\<exists>i. position p xs = Some i) \<longleftrightarrow> (\<exists>x \<in> set xs. p x)"
  using position_None [of p xs] by (cases "position p xs") auto

text \<open>\<open>Vec::remove\<close>, \<open>Vec::insert\<close> and \<open>Vec::swap_remove\<close>.\<close>

definition remove_at :: "nat \<Rightarrow> 'a list \<Rightarrow> 'a list" where
  "remove_at i xs = take i xs @ drop (Suc i) xs"

definition insert_at :: "nat \<Rightarrow> 'a \<Rightarrow> 'a list \<Rightarrow> 'a list" where
  "insert_at i x xs = take i xs @ x # drop i xs"

definition swap_remove :: "nat \<Rightarrow> 'a list \<Rightarrow> 'a list" where
  "swap_remove i xs = butlast (xs[i := last xs])"

lemma remove_at_simps [simp]:
  "remove_at i [] = []"
  "remove_at 0 (x # xs) = xs"
  "remove_at (Suc i) (x # xs) = x # remove_at i xs"
  by (simp_all add: remove_at_def)

lemma insert_at_simps [simp]:
  "insert_at 0 x xs = x # xs"
  "insert_at (Suc i) x (y # ys) = y # insert_at i x ys"
  by (simp_all add: insert_at_def)

lemma length_remove_at [simp]: "i < length xs \<Longrightarrow> length (remove_at i xs) = length xs - 1"
  by (simp add: remove_at_def)

lemma mset_remove_at: "i < length xs \<Longrightarrow> mset (remove_at i xs) = mset xs - {# xs ! i #}"
proof (induction xs arbitrary: i)
  case (Cons x xs)
  then show ?case
  proof (cases i)
    case (Suc j)
    with Cons.prems have "j < length xs" by simp
    with Cons.IH [of j] Suc show ?thesis
      by (simp add: multiset_eq_iff)
  qed simp
qed simp

lemma mset_remove_at_add:
  "i < length xs \<Longrightarrow> add_mset (xs ! i) (mset (remove_at i xs)) = mset xs"
  by (simp add: mset_remove_at)

lemma set_remove_at_subset: "set (remove_at i xs) \<subseteq> set xs"
  by (auto simp: remove_at_def dest: in_set_takeD in_set_dropD)

lemma mset_insert_at [simp]: "mset (insert_at i x xs) = add_mset x (mset xs)"
proof -
  have "mset (insert_at i x xs) = add_mset x (mset (take i xs) + mset (drop i xs))"
    by (simp add: insert_at_def)
  also have "mset (take i xs) + mset (drop i xs) = mset xs"
    by (metis append_take_drop_id mset_append)
  finally show ?thesis .
qed

lemma length_insert_at [simp]: "length (insert_at i x xs) = Suc (length xs)"
  by (simp add: insert_at_def)

lemma mset_swap_remove: "i < length xs \<Longrightarrow> mset (swap_remove i xs) = mset xs - {# xs ! i #}"
proof (induction xs rule: rev_induct)
  case (snoc y ys)
  show ?case
  proof (cases "i < length ys")
    case True
    then have "mset (ys[i := y]) = add_mset y (mset ys - {# ys ! i #})"
      by (simp add: mset_update)
    with True show ?thesis
      by (simp add: swap_remove_def list_update_append nth_append)
  next
    case False
    with snoc.prems have "i = length ys" by simp
    then show ?thesis
      by (simp add: swap_remove_def)
  qed
qed simp

text \<open>Replacing the bytes \<open>off .. off + length ds\<close> of a buffer (\<open>copy_from_slice\<close>).\<close>

definition splice_at :: "nat \<Rightarrow> 'a list \<Rightarrow> 'a list \<Rightarrow> 'a list" where
  "splice_at off ds xs = take off xs @ ds @ drop (off + length ds) xs"

lemma length_splice_at [simp]:
  "off + length ds \<le> length xs \<Longrightarrow> length (splice_at off ds xs) = length xs"
  by (simp add: splice_at_def)

lemma take_drop_splice_at [simp]:
  "off + length ds \<le> length xs \<Longrightarrow> take (length ds) (drop off (splice_at off ds xs)) = ds"
  by (simp add: splice_at_def)

lemma nth_splice_at:
  assumes "off + length ds \<le> length xs" and "i < length xs"
  shows "splice_at off ds xs ! i
    = (if off \<le> i \<and> i < off + length ds then ds ! (i - off) else xs ! i)"
  using assms by (auto simp: splice_at_def nth_append min_def)

text \<open>\<open>iter().min_by_key(key)\<close>: the first element whose key is least.\<close>

fun min_by_key :: "('a \<Rightarrow> 'k::linorder) \<Rightarrow> 'a list \<Rightarrow> 'a option" where
  "min_by_key key [] = None"
| "min_by_key key (x # xs) =
     (case min_by_key key xs of None \<Rightarrow> Some x | Some y \<Rightarrow> if key y < key x then Some y else Some x)"

lemma min_by_key_None [simp]: "min_by_key key xs = None \<longleftrightarrow> xs = []"
  by (cases xs) (auto split: option.splits)

lemma min_by_key_Some:
  "min_by_key key xs = Some x \<Longrightarrow> x \<in> set xs \<and> (\<forall>y \<in> set xs. key x \<le> key y)"
proof (induction xs arbitrary: x)
  case (Cons a xs)
  show ?case
  proof (cases "min_by_key key xs")
    case None
    with Cons.prems show ?thesis by simp
  next
    case (Some y)
    with Cons.IH [OF Some] Cons.prems show ?thesis by (auto split: if_splits)
  qed
qed simp

text \<open>\<open>iter().flatten()\<close> over options.\<close>

definition flatten :: "'a option list \<Rightarrow> 'a list" where
  "flatten os = concat (map (\<lambda>x. case x of None \<Rightarrow> [] | Some y \<Rightarrow> [y]) os)"

lemma flatten_simps [simp]:
  "flatten [] = []" "flatten (None # os) = flatten os" "flatten (Some x # os) = x # flatten os"
  "flatten (os @ os') = flatten os @ flatten os'"
  by (simp_all add: flatten_def)

lemma set_flatten: "x \<in> set (flatten os) \<longleftrightarrow> Some x \<in> set os"
  by (induction os) (auto simp: flatten_def split: option.splits)

lemma mset_flatten_update:
  "i < length os \<Longrightarrow> mset (flatten (os[i := v])) + mset (flatten [os ! i]) = mset (flatten os) + mset (flatten [v])"
proof (induction os arbitrary: i)
  case (Cons a os)
  show ?case
  proof (cases i)
    case 0
    then show ?thesis by (cases a; cases v) simp_all
  next
    case (Suc j)
    with Cons show ?thesis by (cases a) simp_all
  qed
qed simp

section \<open>Little-endian bytes\<close>

text \<open>\<open>to_le_bytes\<close> and \<open>from_le_bytes\<close>.\<close>

definition to_le :: "nat \<Rightarrow> 'a::len word \<Rightarrow> u8 list" where
  "to_le k w = map (\<lambda>i. ucast (drop_bit (8 * i) w)) [0..<k]"

definition of_le :: "u8 list \<Rightarrow> 'a::len word" where
  "of_le bs = foldr (\<lambda>b acc. ucast b OR push_bit 8 acc) bs 0"

abbreviation u64_to_le :: "u64 \<Rightarrow> u8 list" where "u64_to_le \<equiv> to_le 8"
abbreviation u64_of_le :: "u8 list \<Rightarrow> u64" where "u64_of_le \<equiv> of_le"
abbreviation u32_to_le :: "u32 \<Rightarrow> u8 list" where "u32_to_le \<equiv> to_le 4"
abbreviation u32_of_le :: "u8 list \<Rightarrow> u32" where "u32_of_le \<equiv> of_le"

lemma length_to_le [simp]: "length (to_le k w) = k"
  by (simp add: to_le_def)

lemma low_byte_join:
  "ucast (ucast x :: u8) OR push_bit 8 (drop_bit 8 x) = (x :: 'a::len word)"
proof (rule bit_word_eqI)
  fix n assume "n < LENGTH('a)"
  then show "bit (ucast (ucast x :: u8) OR push_bit 8 (drop_bit 8 x)) n = bit x n"
    by (cases "n < 8") (simp_all add: bit_simps)
qed

lemma of_le_suffix:
  assumes "LENGTH('a) \<le> 8 * m"
  shows "k \<le> m \<Longrightarrow> foldr (\<lambda>b acc. ucast b OR push_bit 8 acc)
     (map (\<lambda>i. ucast (drop_bit (8 * i) w) :: u8) [k..<m]) 0 = drop_bit (8 * k) (w :: 'a::len word)"
proof (induction k rule: inc_induct)
  case base
  have "drop_bit (8 * m) w = 0" using assms by (intro bit_word_eqI) (simp add: bit_simps)
  then show ?case by simp
next
  case (step k)
  then show ?case
    using low_byte_join [of "drop_bit (8 * k) w"] by (simp add: upt_conv_Cons)
qed

lemma le_roundtrip: "LENGTH('a) \<le> 8 * k \<Longrightarrow> of_le (to_le k w) = (w :: 'a::len word)"
  using of_le_suffix [of k 0 w] by (simp add: of_le_def to_le_def)

lemma u64_le_roundtrip [simp]: "u64_of_le (u64_to_le w) = w"
  by (rule le_roundtrip) simp

lemma u32_le_roundtrip [simp]: "u32_of_le (u32_to_le w) = w"
  by (rule le_roundtrip) simp

section \<open>Components with global state\<close>

text \<open>
  Every component keeps its state in a table behind one lock, so its behaviour is a
  sequence of operations applied one after the other. \<open>state_machine\<close> is the contract
  of such a component: an initial state, a step per operation and an invariant both keep.
  The lemma of the interface is that every sequence of operations keeps it.
\<close>

locale state_machine =
  fixes init :: "'s"
    and step :: "'op \<Rightarrow> 's \<Rightarrow> 's"
    and inv :: "'s \<Rightarrow> bool"
  assumes init_inv: "inv init"
    and step_inv: "inv s \<Longrightarrow> inv (step op s)"
begin

lemma fold_inv: "inv s \<Longrightarrow> inv (fold step ops s)"
  by (induction ops arbitrary: s) (auto intro: step_inv)

lemma reachable_inv: "inv (fold step ops init)"
  by (rule fold_inv [OF init_inv])

end

text \<open>
  The same for a machine whose counters have room for a bounded number of operations: the
  invariant is indexed by the number of operations performed.
\<close>

locale counted_machine =
  fixes init :: "'s"
    and step :: "'op \<Rightarrow> 's \<Rightarrow> 's"
    and ok :: "'op \<Rightarrow> bool"
    and inv :: "nat \<Rightarrow> 's \<Rightarrow> bool"
    and limit :: nat
  assumes init_counted: "inv 0 init"
    and step_counted: "n < limit \<Longrightarrow> inv n s \<Longrightarrow> ok op \<Longrightarrow> inv (Suc n) (step op s)"
begin

lemma fold_counted:
  "inv n s \<Longrightarrow> n + length ops \<le> limit \<Longrightarrow> list_all ok ops \<Longrightarrow> inv (n + length ops) (fold step ops s)"
proof (induction ops arbitrary: n s)
  case (Cons op ops)
  then have "inv (Suc n) (step op s)" by (auto intro: step_counted)
  from Cons.IH [OF this] Cons.prems show ?case by simp
qed simp

lemma reachable_counted:
  "length ops \<le> limit \<Longrightarrow> list_all ok ops \<Longrightarrow> inv (length ops) (fold step ops init)"
  using fold_counted [OF init_counted] by simp

end

text \<open>
  A component that answers its caller refines a specification: \<open>spec op out v\<close> is the abstract
  state after the operation \<open>op\<close> answered \<open>out\<close> in the abstract state \<open>v\<close>, and \<open>None\<close> when the
  specification does not allow that answer.
\<close>

fun run :: "('op \<Rightarrow> 's \<Rightarrow> 's \<times> 'out) \<Rightarrow> 'op list \<Rightarrow> 's \<Rightarrow> 's \<times> 'out list" where
  "run step [] s = (s, [])"
| "run step (op # ops) s =
     (case step op s of (s', out) \<Rightarrow> case run step ops s' of (s'', outs) \<Rightarrow> (s'', out # outs))"

fun spec_run :: "('op \<Rightarrow> 'out \<Rightarrow> 'v \<Rightarrow> 'v option) \<Rightarrow> 'op list \<Rightarrow> 'out list \<Rightarrow> 'v \<Rightarrow> 'v option" where
  "spec_run spec (op # ops) (out # outs) v = Option.bind (spec op out v) (spec_run spec ops outs)"
| "spec_run spec [] [] v = Some v"
| "spec_run spec _ _ v = None"

locale simulation =
  fixes step :: "'op \<Rightarrow> 's \<Rightarrow> 's \<times> 'out"
    and spec :: "'op \<Rightarrow> 'out \<Rightarrow> 'v \<Rightarrow> 'v option"
    and view :: "'s \<Rightarrow> 'v"
    and inv :: "'s \<Rightarrow> bool"
    and ok :: "'op \<Rightarrow> bool"
  assumes step_simulates:
    "inv s \<Longrightarrow> ok op \<Longrightarrow> step op s = (s', out) \<Longrightarrow> inv s' \<and> spec op out (view s) = Some (view s')"
begin

lemma run_simulates:
  "inv s \<Longrightarrow> list_all ok ops \<Longrightarrow> run step ops s = (s', outs) \<Longrightarrow>
     inv s' \<and> spec_run spec ops outs (view s) = Some (view s')"
proof (induction ops arbitrary: s outs)
  case (Cons op ops)
  obtain s1 out where 1: "step op s = (s1, out)" by fastforce
  obtain s2 outs2 where 2: "run step ops s1 = (s2, outs2)" by fastforce
  from Cons.prems 1 2 have o: "outs = out # outs2" "s' = s2" by simp_all
  from step_simulates [OF Cons.prems(1) _ 1] Cons.prems(2)
  have "inv s1" "spec op out (view s) = Some (view s1)" by simp_all
  with Cons.IH [of s1 outs2] 2 Cons.prems(2) o show ?case by simp
qed simp

end

end
