(* ===== verification/Btree.thy ===== *)
theory Btree
  imports Prelude
begin

text \<open>
  \<open>alloc::collections::BTreeMap\<close>: the table type of every component. A map is the list of
  its entries in ascending key order, which is the order the source iterates in
  (\<open>iter\<close>, \<open>values\<close>, \<open>range(..=k).next_back()\<close>).
\<close>

type_synonym ('k, 'v) btree = "('k \<times> 'v) list"

section \<open>Operations\<close>

abbreviation bt_get :: "('k, 'v) btree \<Rightarrow> 'k \<Rightarrow> 'v option" where
  "bt_get \<equiv> map_of"

fun bt_insert :: "'k::linorder \<Rightarrow> 'v \<Rightarrow> ('k, 'v) btree \<Rightarrow> ('k, 'v) btree" where
  "bt_insert k v [] = [(k, v)]"
| "bt_insert k v (e # m) =
     (if k = fst e then (k, v) # m
      else if k < fst e then (k, v) # e # m
      else e # bt_insert k v m)"

definition bt_remove :: "'k \<Rightarrow> ('k, 'v) btree \<Rightarrow> ('k, 'v) btree" where
  "bt_remove k m = filter (\<lambda>e. fst e \<noteq> k) m"

text \<open>\<open>get_mut\<close> followed by an in-place change of the value.\<close>

definition bt_modify :: "'k \<Rightarrow> ('v \<Rightarrow> 'v) \<Rightarrow> ('k, 'v) btree \<Rightarrow> ('k, 'v) btree" where
  "bt_modify k f m = map (\<lambda>e. if fst e = k then (fst e, f (snd e)) else e) m"

text \<open>\<open>values_mut\<close> or \<open>iter_mut\<close>: a change of every value.\<close>

definition bt_map :: "('k \<Rightarrow> 'v \<Rightarrow> 'v) \<Rightarrow> ('k, 'v) btree \<Rightarrow> ('k, 'v) btree" where
  "bt_map f m = map (\<lambda>e. (fst e, f (fst e) (snd e))) m"

definition bt_values :: "('k, 'v) btree \<Rightarrow> 'v list" where
  "bt_values m = map snd m"

text \<open>\<open>range(..=k).next_back()\<close>: the entry with the greatest key that is at most \<open>k\<close>.\<close>

definition bt_le_back :: "('k::linorder, 'v) btree \<Rightarrow> 'k \<Rightarrow> ('k \<times> 'v) option" where
  "bt_le_back m k = (let es = filter (\<lambda>e. fst e \<le> k) m in if es = [] then None else Some (last es))"

definition bt_wf :: "('k::linorder, 'v) btree \<Rightarrow> bool" where
  "bt_wf m \<longleftrightarrow> sorted_wrt (<) (map fst m)"

section \<open>Lookup laws\<close>

lemma bt_get_insert [simp]: "bt_get (bt_insert k v m) = (bt_get m)(k \<mapsto> v)"
  by (induction m) auto

lemma bt_get_remove [simp]: "bt_get (bt_remove k m) = (bt_get m)(k := None)"
  by (induction m) (auto simp: bt_remove_def)

lemma bt_get_modify [simp]:
  "bt_get (bt_modify k f m) = (bt_get m)(k := map_option f (bt_get m k))"
  by (induction m) (auto simp: bt_modify_def)

lemma bt_get_map [simp]: "bt_get (bt_map f m) k = map_option (f k) (bt_get m k)"
  by (induction m) (auto simp: bt_map_def)

lemma fst_set_bt_insert: "fst ` set (bt_insert k v m) = insert k (fst ` set m)"
  by (induction m) auto

lemma set_bt_insert_subset: "set (bt_insert k v m) \<subseteq> insert (k, v) (set m)"
  by (induction m) auto

section \<open>The order is kept\<close>

lemma bt_wf_empty [simp, intro]: "bt_wf []"
  by (simp add: bt_wf_def)

lemma bt_wf_insert [simp, intro]: "bt_wf m \<Longrightarrow> bt_wf (bt_insert k v m)"
proof (induction m)
  case (Cons e m)
  then have IH: "bt_wf (bt_insert k v m)" by (simp add: bt_wf_def)
  have keys: "fst ` set (bt_insert k v m) = insert k (fst ` set m)"
    by (rule fst_set_bt_insert)
  from Cons.prems have lt: "\<forall>x \<in> fst ` set m. fst e < x" by (auto simp: bt_wf_def)
  show ?case
  proof (cases "k \<le> fst e")
    case True
    with Cons.prems lt show ?thesis by (auto simp: bt_wf_def)
  next
    case False
    then have "\<forall>x \<in> fst ` set (bt_insert k v m). fst e < x"
      using lt keys by auto
    with IH False show ?thesis by (auto simp: bt_wf_def)
  qed
qed (simp add: bt_wf_def)

lemma bt_wf_remove [simp, intro]: "bt_wf m \<Longrightarrow> bt_wf (bt_remove k m)"
  by (induction m) (auto simp: bt_wf_def bt_remove_def)

lemma map_fst_bt_modify [simp]: "map fst (bt_modify k f m) = map fst m"
  by (simp add: bt_modify_def comp_def if_distrib)

lemma map_fst_bt_map [simp]: "map fst (bt_map f m) = map fst m"
  by (simp add: bt_map_def comp_def)

lemma bt_wf_modify [simp]: "bt_wf (bt_modify k f m) \<longleftrightarrow> bt_wf m"
  by (simp add: bt_wf_def)

lemma bt_wf_map [simp]: "bt_wf (bt_map f m) \<longleftrightarrow> bt_wf m"
  by (simp add: bt_wf_def)

lemma bt_wf_distinct: "bt_wf m \<Longrightarrow> distinct (map fst m)"
  by (simp add: bt_wf_def strict_sorted_iff)

lemma bt_get_iff: "bt_wf m \<Longrightarrow> bt_get m k = Some v \<longleftrightarrow> (k, v) \<in> set m"
  by (simp add: bt_wf_distinct)

lemma bt_values_iff: "bt_wf m \<Longrightarrow> v \<in> set (bt_values m) \<longleftrightarrow> (\<exists>k. bt_get m k = Some v)"
  by (force simp: bt_values_def bt_get_iff)

text \<open>Dropping entries, as \<open>retain\<close> does.\<close>

lemma bt_wf_filter [simp, intro]: "bt_wf m \<Longrightarrow> bt_wf (filter P m)"
  by (induction m) (auto simp: bt_wf_def)

lemma bt_get_filter:
  "bt_wf m \<Longrightarrow> bt_get (filter P m) k = Some v \<longleftrightarrow> bt_get m k = Some v \<and> P (k, v)"
  by (simp add: bt_get_iff conj_commute)

text \<open>Counting the values with a property.\<close>

definition bt_count :: "('v \<Rightarrow> bool) \<Rightarrow> ('k, 'v) btree \<Rightarrow> nat" where
  "bt_count P m = length (filter (\<lambda>e. P (snd e)) m)"

lemma bt_count_Nil [simp]: "bt_count P [] = 0"
  by (simp add: bt_count_def)

lemma bt_count_insert:
  "bt_get m k = None \<Longrightarrow> bt_count P (bt_insert k v m) = bt_count P m + (if P v then 1 else 0)"
  by (induction m) (auto simp: bt_count_def split: if_splits)

lemma bt_count_remove:
  assumes "bt_wf m" and "bt_get m k = Some v"
  shows "bt_count P (bt_remove k m) + (if P v then 1 else 0) = bt_count P m"
  using assms
proof (induction m)
  case (Cons e m)
  show ?case
  proof (cases "fst e = k")
    case True
    with Cons.prems have "bt_get m k = None" "snd e = v"
      using bt_wf_distinct [OF Cons.prems(1)] by (auto simp: map_of_eq_None_iff)
    then have "bt_remove k m = m"
      by (auto simp: bt_remove_def filter_id_conv map_of_eq_None_iff)
    with True \<open>snd e = v\<close> show ?thesis by (auto simp: bt_count_def bt_remove_def)
  next
    case False
    with Cons.prems have "bt_wf m" "bt_get m k = Some v"
      by (auto simp: bt_wf_def split: if_splits)
    with Cons.IH False show ?thesis by (auto simp: bt_count_def bt_remove_def)
  qed
qed simp

lemma bt_count_pos: "bt_get m k = Some v \<Longrightarrow> P v \<Longrightarrow> 0 < bt_count P m"
  by (force simp: bt_count_def filter_empty_conv dest: map_of_SomeD)

lemma bt_count_le: "bt_count P m \<le> length m"
  by (simp add: bt_count_def)

lemma length_bt_insert: "length (bt_insert k v m) \<le> Suc (length m)"
  by (induction m) auto

text \<open>Summing a measure of the values.\<close>

definition bt_sum :: "('v \<Rightarrow> 'm::comm_monoid_add) \<Rightarrow> ('k, 'v) btree \<Rightarrow> 'm" where
  "bt_sum f m = (\<Sum>e\<leftarrow>m. f (snd e))"

lemma bt_sum_Nil [simp]: "bt_sum f [] = 0"
  by (simp add: bt_sum_def)

lemma bt_remove_absent: "bt_get m k = None \<Longrightarrow> bt_remove k m = m"
  by (auto simp: bt_remove_def filter_id_conv map_of_eq_None_iff)

lemma bt_wf_Cons_absent: "bt_wf (e # m) \<Longrightarrow> bt_get m (fst e) = None"
  by (auto simp: bt_wf_def map_of_eq_None_iff)

lemma bt_sum_remove:
  assumes "bt_wf m" and "bt_get m k = Some v"
  shows "bt_sum f m = f v + bt_sum f (bt_remove k m)"
  using assms
proof (induction m)
  case (Cons e m)
  show ?case
  proof (cases "fst e = k")
    case True
    with bt_wf_Cons_absent [OF Cons.prems(1)] have "bt_remove k m = m" by (simp add: bt_remove_absent)
    with True Cons.prems(2) show ?thesis by (auto simp: bt_sum_def bt_remove_def)
  next
    case False
    with Cons.prems have "bt_wf m" "bt_get m k = Some v" by (auto simp: bt_wf_def split: if_splits)
    from Cons.IH [OF this] False show ?thesis by (simp add: bt_sum_def bt_remove_def ac_simps)
  qed
qed simp

lemma bt_sum_insert: "bt_wf m \<Longrightarrow> bt_sum f (bt_insert k v m) = f v + bt_sum f (bt_remove k m)"
proof (induction m)
  case (Cons e m)
  then have wf: "bt_wf m" by (simp add: bt_wf_def)
  note absent = bt_wf_Cons_absent [OF Cons.prems]
  have "bt_remove k m = m" if "k \<le> fst e"
  proof -
    from Cons.prems have "\<forall>x \<in> set m. fst e < fst x" by (auto simp: bt_wf_def)
    with that show ?thesis by (auto simp: bt_remove_def filter_id_conv)
  qed
  with Cons.IH [OF wf] show ?case
    by (cases e) (auto simp: bt_sum_def bt_remove_def ac_simps)
qed (simp add: bt_sum_def bt_remove_def)

section \<open>The greatest key below a bound\<close>

lemma bt_le_back_None: "bt_le_back m k = None \<longleftrightarrow> (\<forall>e \<in> set m. k < fst e)"
  by (auto simp: bt_le_back_def Let_def filter_empty_conv not_le)

lemma bt_le_back_Some:
  assumes "bt_wf m" and "bt_le_back m k = Some (j, v)"
  shows "bt_get m j = Some v \<and> j \<le> k \<and> (\<forall>e \<in> set m. fst e \<le> k \<longrightarrow> fst e \<le> j)"
proof -
  let ?es = "filter (\<lambda>e. fst e \<le> k) m"
  from assms(2) have ne: "?es \<noteq> []" and l: "last ?es = (j, v)"
    by (auto simp: bt_le_back_def Let_def split: if_splits)
  from ne l have mem: "(j, v) \<in> set ?es" by (metis last_in_set)
  have srt: "sorted_wrt (<) (map fst ?es)"
    using assms(1) by (induction m) (auto simp: bt_wf_def)
  have "fst e \<le> j" if "e \<in> set ?es" for e
  proof -
    from ne l have "?es = butlast ?es @ [(j, v)]" by (metis append_butlast_last_id)
    then obtain zs where zs: "?es = zs @ [(j, v)]" by blast
    with that srt show ?thesis by (auto simp: sorted_wrt_append intro: less_imp_le)
  qed
  with mem assms(1) show ?thesis by (auto simp: bt_get_iff)
qed

text \<open>
  The contract the components rely on: a keyed table with lookup, insertion, removal and
  in-place update. Its lemmas are the frame rules of the component proofs.
\<close>

locale keyed_table =
  fixes get :: "'t \<Rightarrow> 'k \<Rightarrow> 'v option"
    and put :: "'k \<Rightarrow> 'v \<Rightarrow> 't \<Rightarrow> 't"
    and del :: "'k \<Rightarrow> 't \<Rightarrow> 't"
    and upd :: "'k \<Rightarrow> ('v \<Rightarrow> 'v) \<Rightarrow> 't \<Rightarrow> 't"
  assumes get_put: "get (put k v t) = (get t)(k \<mapsto> v)"
    and get_del: "get (del k t) = (get t)(k := None)"
    and get_upd: "get (upd k f t) = (get t)(k := map_option f (get t k))"
begin

lemma all_put:
  "(\<forall>j w. get t j = Some w \<longrightarrow> P j w) \<Longrightarrow> P k v \<Longrightarrow> get (put k v t) j = Some w \<Longrightarrow> P j w"
  by (auto simp: get_put split: if_splits)

lemma all_del:
  "(\<forall>j w. get t j = Some w \<longrightarrow> P j w) \<Longrightarrow> get (del k t) j = Some w \<Longrightarrow> P j w"
  by (auto simp: get_del split: if_splits)

lemma all_upd:
  "(\<forall>j w. get t j = Some w \<longrightarrow> P j w) \<Longrightarrow> (\<And>w. get t k = Some w \<Longrightarrow> P k w \<Longrightarrow> P k (f w))
    \<Longrightarrow> get (upd k f t) j = Some w \<Longrightarrow> P j w"
  by (auto simp: get_upd split: if_splits)

end

interpretation bt: keyed_table bt_get "bt_insert :: 'k::linorder \<Rightarrow> 'v \<Rightarrow> ('k, 'v) btree \<Rightarrow> _"
  bt_remove bt_modify
  by unfold_locales simp_all

end
