(* ===== verification/Channel.thy ===== *)
theory Channel
  imports Prelude
begin

text \<open>
  The contract of a byte channel and of a wait channel. A byte channel (a pipe's ring
  buffer) accepts bytes at one end and delivers them at the other; its law is conservation:
  what was buffered followed by what is accepted is what is delivered followed by what is
  buffered afterwards. The lemma of the interface is that any run of operations returns
  without a panic and delivers exactly the accepted stream, in order.
\<close>

section \<open>Byte channels\<close>

fun chan_run ::
  "('c \<Rightarrow> 'op \<Rightarrow> ('c \<times> 'b list \<times> 'b list) exec) \<Rightarrow> 'c \<Rightarrow> 'op list
    \<Rightarrow> ('c \<times> 'b list \<times> 'b list) exec" where
  "chan_run step c [] = Done (c, [], [])"
| "chan_run step c (op # ops) =
     exec_bind (step c op) (\<lambda>(c1, a1, d1).
       exec_bind (chan_run step c1 ops) (\<lambda>(c2, a2, d2). Done (c2, a1 @ a2, d1 @ d2)))"

locale byte_channel =
  fixes contents :: "'c \<Rightarrow> 'b list"
    and inv :: "'c \<Rightarrow> bool"
    and step :: "'c \<Rightarrow> 'op \<Rightarrow> ('c \<times> 'b list \<times> 'b list) exec"
  assumes flow: "inv c \<Longrightarrow>
      \<exists>c' a d. step c op = Done (c', a, d) \<and> inv c' \<and> contents c @ a = d @ contents c'"
begin

lemma run_flow:
  "inv c \<Longrightarrow> \<exists>c' a d. chan_run step c ops = Done (c', a, d) \<and> inv c'
      \<and> contents c @ a = d @ contents c'"
proof (induction ops arbitrary: c)
  case Nil
  then show ?case by simp
next
  case (Cons op ops)
  from flow [OF Cons.prems] obtain c1 a1 d1 where
    1: "step c op = Done (c1, a1, d1)" "inv c1" "contents c @ a1 = d1 @ contents c1" by blast
  from Cons.IH [OF 1(2)] obtain c2 a2 d2 where
    2: "chan_run step c1 ops = Done (c2, a2, d2)" "inv c2"
       "contents c1 @ a2 = d2 @ contents c2" by blast
  have "contents c @ (a1 @ a2) = d1 @ contents c1 @ a2"
    using 1(3) by (metis append_assoc)
  also have "\<dots> = (d1 @ d2) @ contents c2" using 2(3) by simp
  finally show ?case using 1 2 by simp
qed

lemma run_stream:
  assumes "inv c" and "contents c = []" and "chan_run step c ops = Done (c', a, d)"
  shows "a = d @ contents c'"
  using run_flow [OF assms(1), of ops] assms(2,3) by auto

lemma run_no_panic: "inv c \<Longrightarrow> chan_run step c ops \<noteq> Panic"
  using run_flow [of c ops] by auto

end

section \<open>Counted tokens\<close>

text \<open>
  A component that stores tokens (the events of a counter, the frames of a pool), measured in
  a commutative monoid (numbers, multisets): every operation moves some tokens in and some
  out, and none appear or vanish.
\<close>

fun token_run ::
  "('c \<Rightarrow> 'op \<Rightarrow> 'c \<times> 'm \<times> 'm) \<Rightarrow> 'c \<Rightarrow> 'op list \<Rightarrow> 'c \<times> 'm \<times> ('m::comm_monoid_add)" where
  "token_run step c [] = (c, 0, 0)"
| "token_run step c (op # ops) =
     (let (c1, i1, o1) = step c op; (c2, i2, o2) = token_run step c1 ops
      in (c2, i1 + i2, o1 + o2))"

locale token_account =
  fixes stored :: "'c \<Rightarrow> 'm::comm_monoid_add"
    and inv :: "'c \<Rightarrow> bool"
    and step :: "'c \<Rightarrow> 'op \<Rightarrow> 'c \<times> 'm \<times> 'm"
  assumes balance: "inv c \<Longrightarrow> step c op = (c', i, out) \<Longrightarrow> inv c' \<and> stored c + i = out + stored c'"
begin

lemma run_balance:
  "inv c \<Longrightarrow> token_run step c ops = (c', i, out) \<Longrightarrow> inv c' \<and> stored c + i = out + stored c'"
proof (induction ops arbitrary: c c' i out)
  case (Cons op ops)
  obtain c1 i1 o1 where 1: "step c op = (c1, i1, o1)" by (cases "step c op")
  obtain c2 i2 o2 where 2: "token_run step c1 ops = (c2, i2, o2)"
    by (cases "token_run step c1 ops")
  from balance [OF Cons.prems(1) 1] have b1: "inv c1" "stored c + i1 = o1 + stored c1" by auto
  from Cons.IH [OF b1(1) 2] have b2: "inv c2" "stored c1 + i2 = o2 + stored c2" by auto
  have "stored c + (i1 + i2) = o1 + (stored c1 + i2)"
    using b1(2) by (metis add.assoc)
  also have "\<dots> = o1 + o2 + stored c2" using b2(2) by (simp add: add.assoc)
  finally show ?case using 1 2 b2(1) Cons.prems(2) by auto
qed simp

end

end
