(* ===== verification/Pipe.thy ===== *)
theory Pipe
  imports Btree Channel
begin

text \<open>
  \<open>src/kernel/src/ipc/pipe.rs\<close>: the kernel pipe, a ring buffer with reader and writer
  counts, and the global pipe table. The ring buffer implements a bounded byte channel
  (locale \<open>byte_channel\<close>): a write appends, a read takes a prefix, no byte is lost,
  reordered or invented. \<open>F_SETPIPE_SZ\<close> keeps the contents but, when the new size is
  exactly the number of buffered bytes, leaves the write index one past the buffer.
\<close>

section \<open>Data\<close>

definition PIPE_BUF_SIZE :: nat where "PIPE_BUF_SIZE = 65536"
definition PIPE_BUF :: nat where "PIPE_BUF = 4096"
definition PIPE_MAX_PAGES :: nat where "PIPE_MAX_PAGES = 16"

datatype PipeState = Open | ReadClosed | WriteClosed | FullyClosed

datatype PipeError = BrokenPipe | WouldBlock | InvalidFd | TooSmall | NotFound

record Pipe =
  pipe_id :: u64
  buffer :: "u8 list"
  read_pos :: nat
  write_pos :: nat
  data_len :: nat
  capacity :: nat
  pipe_flags :: u32
  readers :: u32
  writers :: u32
  pipe_state :: PipeState
  bytes_read :: u64
  bytes_written :: u64
  read_waiters :: "u64 list"
  write_waiters :: "u64 list"

definition Pipe_new :: "u64 \<Rightarrow> u32 \<Rightarrow> Pipe" where
  "Pipe_new i fl =
     \<lparr>pipe_id = i, buffer = replicate PIPE_BUF_SIZE 0, read_pos = 0, write_pos = 0,
      data_len = 0, capacity = PIPE_BUF_SIZE, pipe_flags = fl, readers = 1, writers = 1,
      pipe_state = Open, bytes_read = 0, bytes_written = 0, read_waiters = [],
      write_waiters = []\<rparr>"

section \<open>Operations on one pipe\<close>

text \<open>The copy-in loop of \<open>write\<close>: \<open>buffer[write_pos] = *item\<close> panics out of range.\<close>

fun Pipe_copy_in :: "Pipe \<Rightarrow> u8 list \<Rightarrow> Pipe exec" where
  "Pipe_copy_in p [] = Done p"
| "Pipe_copy_in p (b # bs) =
     (if write_pos p < length (buffer p) \<and> capacity p \<noteq> 0
      then Pipe_copy_in (p\<lparr>buffer := (buffer p)[write_pos p := b],
                           write_pos := (write_pos p + 1) mod capacity p\<rparr>) bs
      else Panic)"

definition Pipe_write :: "Pipe \<Rightarrow> u8 list \<Rightarrow> (Pipe \<times> (PipeError + nat)) exec" where
  "Pipe_write p data =
     (if readers p = 0 then Done (p, Inl BrokenPipe)
      else if data = [] then Done (p, Inr 0)
      else let available = usub (capacity p) (data_len p) in
        if available = 0 then Done (p, Inl WouldBlock)
        else if length data \<le> PIPE_BUF \<and> available < length data then Done (p, Inl WouldBlock)
        else let to_write = (if length data \<le> PIPE_BUF then length data
                             else min (length data) available) in
          exec_bind (Pipe_copy_in p (take to_write data))
            (\<lambda>p'. Done (p'\<lparr>data_len := data_len p' + to_write,
                           bytes_written := bytes_written p' + of_nat to_write,
                           read_waiters := []\<rparr>, Inr to_write)))"

text \<open>The copy-out loop of \<open>read\<close>, and the one of \<open>peek\<close> and \<open>set_size\<close>, which moves a
  local index only.\<close>

fun Pipe_copy_out :: "Pipe \<Rightarrow> nat \<Rightarrow> (Pipe \<times> u8 list) exec" where
  "Pipe_copy_out p 0 = Done (p, [])"
| "Pipe_copy_out p (Suc n) =
     (if read_pos p < length (buffer p) \<and> capacity p \<noteq> 0
      then exec_bind (Pipe_copy_out (p\<lparr>read_pos := (read_pos p + 1) mod capacity p\<rparr>) n)
             (\<lambda>(p', bs). Done (p', buffer p ! read_pos p # bs))
      else Panic)"

fun Pipe_copy_from :: "Pipe \<Rightarrow> nat \<Rightarrow> nat \<Rightarrow> u8 list exec" where
  "Pipe_copy_from p pos 0 = Done []"
| "Pipe_copy_from p pos (Suc n) =
     (if pos < length (buffer p) \<and> capacity p \<noteq> 0
      then exec_bind (Pipe_copy_from p ((pos + 1) mod capacity p) n)
             (\<lambda>bs. Done (buffer p ! pos # bs))
      else Panic)"

text \<open>\<open>read\<close> fills a prefix of the caller's buffer; the updated buffer is part of the result.\<close>

definition Pipe_read :: "Pipe \<Rightarrow> u8 list \<Rightarrow> (Pipe \<times> u8 list \<times> (PipeError + nat)) exec" where
  "Pipe_read p buf =
     (if data_len p = 0 then
        if writers p = 0 then Done (p, buf, Inr 0) else Done (p, buf, Inl WouldBlock)
      else let to_read = min (length buf) (data_len p) in
        exec_bind (Pipe_copy_out p to_read)
          (\<lambda>(p', bs). Done (p'\<lparr>data_len := data_len p' - to_read,
                               bytes_read := bytes_read p' + of_nat to_read,
                               write_waiters := []\<rparr>, splice_at 0 bs buf, Inr to_read)))"

definition Pipe_peek :: "Pipe \<Rightarrow> u8 list \<Rightarrow> (u8 list \<times> nat) exec" where
  "Pipe_peek p buf =
     (let to_peek = min (length buf) (data_len p) in
        exec_bind (Pipe_copy_from p (read_pos p) to_peek)
          (\<lambda>bs. Done (splice_at 0 bs buf, to_peek)))"

text \<open>\<open>usize::next_power_of_two\<close>.\<close>

function pow2_from :: "nat \<Rightarrow> nat \<Rightarrow> nat" where
  "pow2_from p n = (if p < n \<and> p \<noteq> 0 then pow2_from (2 * p) n else p)"
  by pat_completeness auto
termination
  by (relation "measure (\<lambda>(p, n). n - p)") auto

declare pow2_from.simps [simp del]

definition next_power_of_two :: "nat \<Rightarrow> nat" where
  "next_power_of_two n = pow2_from 1 n"

definition set_size_target :: "nat \<Rightarrow> nat" where
  "set_size_target n = next_power_of_two (min (max n 4096) (PIPE_MAX_PAGES * 4096))"

definition Pipe_set_size :: "Pipe \<Rightarrow> nat \<Rightarrow> (Pipe \<times> (PipeError + nat)) exec" where
  "Pipe_set_size p n =
     (let new_size = set_size_target n in
      if new_size < data_len p then Done (p, Inl TooSmall)
      else exec_bind (Pipe_copy_from p (read_pos p) (data_len p))
        (\<lambda>bs. Done (p\<lparr>buffer := bs @ replicate (new_size - data_len p) 0, capacity := new_size,
                       read_pos := 0, write_pos := data_len p\<rparr>, Inr new_size)))"

definition Pipe_write_space :: "Pipe \<Rightarrow> nat" where
  "Pipe_write_space p = usub (capacity p) (data_len p)"

definition Pipe_read_available :: "Pipe \<Rightarrow> nat" where
  "Pipe_read_available p = data_len p"

definition Pipe_close_read :: "Pipe \<Rightarrow> Pipe" where
  "Pipe_close_read p =
     (let p' = (if 0 < readers p then p\<lparr>readers := readers p - 1\<rparr> else p) in
      if readers p' = 0
      then p'\<lparr>pipe_state := if writers p' = 0 then FullyClosed else ReadClosed\<rparr> else p')"

definition Pipe_close_write :: "Pipe \<Rightarrow> Pipe" where
  "Pipe_close_write p =
     (let p' = (if 0 < writers p then p\<lparr>writers := writers p - 1\<rparr> else p) in
      if writers p' = 0
      then p'\<lparr>pipe_state := if readers p' = 0 then FullyClosed else WriteClosed\<rparr> else p')"

definition Pipe_is_broken :: "Pipe \<Rightarrow> bool" where
  "Pipe_is_broken p \<longleftrightarrow> pipe_state p = ReadClosed \<or> pipe_state p = FullyClosed"

section \<open>The pipe table\<close>

record PipeTable =
  pipes :: "(u64, Pipe) btree"
  next_id :: u64

definition PipeTable_new :: PipeTable where
  "PipeTable_new = \<lparr>pipes = [], next_id = 1\<rparr>"

definition sys_pipe :: "PipeTable \<Rightarrow> u32 \<Rightarrow> PipeTable \<times> (u64 \<times> u64)" where
  "sys_pipe t fl =
     (let i = next_id t in
      (t\<lparr>next_id := i + 1, pipes := bt_insert i (Pipe_new i fl) (pipes t)\<rparr>,
       (i * 2, i * 2 + 1)))"

definition pipe_write :: "PipeTable \<Rightarrow> u64 \<Rightarrow> u8 list \<Rightarrow> (PipeTable \<times> (PipeError + nat)) exec" where
  "pipe_write t i data =
     (case bt_get (pipes t) i of
        None \<Rightarrow> Done (t, Inl NotFound)
      | Some p \<Rightarrow> exec_bind (Pipe_write p data)
          (\<lambda>(p', r). Done (t\<lparr>pipes := bt_insert i p' (pipes t)\<rparr>, r)))"

definition pipe_read ::
  "PipeTable \<Rightarrow> u64 \<Rightarrow> u8 list \<Rightarrow> (PipeTable \<times> u8 list \<times> (PipeError + nat)) exec" where
  "pipe_read t i buf =
     (case bt_get (pipes t) i of
        None \<Rightarrow> Done (t, buf, Inl NotFound)
      | Some p \<Rightarrow> exec_bind (Pipe_read p buf)
          (\<lambda>(p', buf', r). Done (t\<lparr>pipes := bt_insert i p' (pipes t)\<rparr>, buf', r)))"

definition pipe_close :: "PipeTable \<Rightarrow> u64 \<Rightarrow> bool \<Rightarrow> PipeTable" where
  "pipe_close t i is_read_end =
     (case bt_get (pipes t) i of
        None \<Rightarrow> t
      | Some p \<Rightarrow>
          let p' = (if is_read_end then Pipe_close_read p else Pipe_close_write p) in
          if pipe_state p' = FullyClosed then t\<lparr>pipes := bt_remove i (pipes t)\<rparr>
          else t\<lparr>pipes := bt_insert i p' (pipes t)\<rparr>)"

definition pipe_get_size :: "PipeTable \<Rightarrow> u64 \<Rightarrow> PipeError + nat" where
  "pipe_get_size t i =
     (case bt_get (pipes t) i of None \<Rightarrow> Inl NotFound | Some p \<Rightarrow> Inr (capacity p))"

definition pipe_set_size :: "PipeTable \<Rightarrow> u64 \<Rightarrow> nat \<Rightarrow> (PipeTable \<times> (PipeError + nat)) exec" where
  "pipe_set_size t i n =
     (case bt_get (pipes t) i of
        None \<Rightarrow> Done (t, Inl NotFound)
      | Some p \<Rightarrow> exec_bind (Pipe_set_size p n)
          (\<lambda>(p', r). Done (t\<lparr>pipes := bt_insert i p' (pipes t)\<rparr>, r)))"

text \<open>\<open>pipe_splice\<close>: the bytes leave the source before the destination is looked up.\<close>

definition pipe_splice :: "PipeTable \<Rightarrow> u64 \<Rightarrow> u64 \<Rightarrow> nat \<Rightarrow> (PipeTable \<times> (PipeError + nat)) exec" where
  "pipe_splice t src dst len =
     exec_bind (pipe_read t src (replicate len 0))
       (\<lambda>(t1, tmp, r). case r of
          Inl e \<Rightarrow> Done (t1, Inl e)
        | Inr n \<Rightarrow> pipe_write t1 dst (take n tmp))"

definition pipe_tee :: "PipeTable \<Rightarrow> u64 \<Rightarrow> u64 \<Rightarrow> nat \<Rightarrow> (PipeTable \<times> (PipeError + nat)) exec" where
  "pipe_tee t src dst len =
     (case bt_get (pipes t) src of
        None \<Rightarrow> Done (t, Inl NotFound)
      | Some s \<Rightarrow> exec_bind (Pipe_peek s (replicate len 0))
          (\<lambda>(tmp, n). pipe_write t dst (take n tmp)))"

record PipeInfo =
  pi_id :: u64
  pi_capacity :: nat
  pi_data_len :: nat
  pi_readers :: u32
  pi_writers :: u32
  pi_bytes_read :: u64
  pi_bytes_written :: u64
  pi_flags :: u32

definition pipe_info :: "PipeTable \<Rightarrow> u64 \<Rightarrow> PipeInfo option" where
  "pipe_info t i =
     map_option (\<lambda>p. \<lparr>pi_id = pipe_id p, pi_capacity = capacity p, pi_data_len = data_len p,
       pi_readers = readers p, pi_writers = writers p, pi_bytes_read = bytes_read p,
       pi_bytes_written = bytes_written p, pi_flags = pipe_flags p\<rparr>) (bt_get (pipes t) i)"

text \<open>\<open>create_pipe\<close> truncates both identifiers to \<open>i32\<close>; \<open>sys_pipe\<close> never fails.\<close>

definition create_pipe :: "PipeTable \<Rightarrow> PipeTable \<times> (u32 \<times> u32)" where
  "create_pipe t = (let (t', r, w) = sys_pipe t 0 in (t', (ucast r, ucast w)))"

section \<open>Invariant and abstraction\<close>

text \<open>The \<open>n\<close> bytes of the ring that start at the read index, and the buffered bytes.\<close>

definition window :: "Pipe \<Rightarrow> nat \<Rightarrow> u8 list" where
  "window p n = map (\<lambda>i. buffer p ! ((read_pos p + i) mod capacity p)) [0..<n]"

definition pipe_contents :: "Pipe \<Rightarrow> u8 list" where
  "pipe_contents p = window p (data_len p)"

definition state_of :: "u32 \<Rightarrow> u32 \<Rightarrow> PipeState" where
  "state_of r w = (if r = 0 then if w = 0 then FullyClosed else ReadClosed
                   else if w = 0 then WriteClosed else Open)"

text \<open>The geometry of the ring without its write index, which \<open>set_size\<close> can break.\<close>

definition ring_inv :: "Pipe \<Rightarrow> bool" where
  "ring_inv p \<longleftrightarrow> 0 < capacity p \<and> length (buffer p) = capacity p \<and> data_len p \<le> capacity p
     \<and> read_pos p < capacity p"

definition pipe_inv :: "Pipe \<Rightarrow> bool" where
  "pipe_inv p \<longleftrightarrow> ring_inv p \<and> write_pos p = (read_pos p + data_len p) mod capacity p
     \<and> pipe_state p = state_of (readers p) (writers p)"

lemma length_window [simp]: "length (window p n) = n"
  by (simp add: window_def)

lemma length_contents [simp]: "length (pipe_contents p) = data_len p"
  by (simp add: pipe_contents_def)

lemma nth_contents:
  "i < data_len p \<Longrightarrow> pipe_contents p ! i = buffer p ! ((read_pos p + i) mod capacity p)"
  by (simp add: pipe_contents_def window_def)

lemma window_cong:
  "buffer p = buffer q \<Longrightarrow> read_pos p = read_pos q \<Longrightarrow> capacity p = capacity q
    \<Longrightarrow> window p n = window q n"
  by (simp add: window_def)

lemma window_0 [simp]: "window p 0 = []"
  by (simp add: window_def)

lemma mod_offset_inj:
  fixes r i j c :: nat
  assumes "(r + i) mod c = (r + j) mod c" and "i < c" and "j < c"
  shows "i = j"
proof -
  have "i = j" if "i \<le> j" "j < c" "(r + i) mod c = (r + j) mod c" for i j
  proof -
    from that have "c dvd (r + j) - (r + i)"
      using mod_eq_dvd_iff_nat [of "r + i" "r + j" c] by simp
    then have "c dvd j - i" by simp
    with that show ?thesis
      using nat_dvd_not_less [of "j - i" c] by (cases "j = i") auto
  qed
  then show ?thesis using assms by (metis le_cases)
qed

text \<open>Writing one byte at the end of a window extends the window by that byte.\<close>

lemma window_push:
  assumes "ring_inv p" and "n < capacity p" and "w = (read_pos p + n) mod capacity p"
  shows "window (p\<lparr>buffer := (buffer p)[w := b], write_pos := w'\<rparr>) (Suc n) = window p n @ [b]"
proof (rule nth_equalityI)
  fix i assume i: "i < length (window (p\<lparr>buffer := (buffer p)[w := b], write_pos := w'\<rparr>) (Suc n))"
  have w: "w < length (buffer p)" using assms by (simp add: ring_inv_def)
  have neq: "i < n \<Longrightarrow> (read_pos p + i) mod capacity p \<noteq> w"
    using assms(2,3) mod_offset_inj [of "read_pos p" i "capacity p" n] by auto
  from i neq w assms(3) show "window (p\<lparr>buffer := (buffer p)[w := b], write_pos := w'\<rparr>) (Suc n) ! i
      = (window p n @ [b]) ! i"
    by (auto simp: window_def nth_append less_Suc_eq nth_list_update simp del: upt_Suc)
qed simp

lemma Pipe_copy_in_window:
  assumes "ring_inv p" and "n + length bs \<le> capacity p"
    and "write_pos p = (read_pos p + n) mod capacity p"
  shows "\<exists>buf. Pipe_copy_in p bs = Done (p\<lparr>buffer := buf,
             write_pos := (read_pos p + n + length bs) mod capacity p\<rparr>)
           \<and> length buf = length (buffer p)
           \<and> window (p\<lparr>buffer := buf\<rparr>) (n + length bs) = window p n @ bs"
  using assms
proof (induction bs arbitrary: p n)
  case Nil
  then show ?case by (intro exI [of _ "buffer p"]) simp
next
  case (Cons b bs)
  let ?q = "p\<lparr>buffer := (buffer p)[write_pos p := b],
              write_pos := (write_pos p + 1) mod capacity p\<rparr>"
  have n: "n < capacity p" using Cons.prems(2) by simp
  have ok: "write_pos p < length (buffer p) \<and> capacity p \<noteq> 0"
    using Cons.prems by (auto simp: ring_inv_def)
  have q: "ring_inv ?q" "Suc n + length bs \<le> capacity ?q"
      "write_pos ?q = (read_pos ?q + Suc n) mod capacity ?q"
    using Cons.prems by (auto simp: ring_inv_def mod_Suc_eq)
  have win: "window ?q (Suc n) = window p n @ [b]"
    using window_push [OF Cons.prems(1) n Cons.prems(3)] .
  from Cons.IH [OF q] obtain buf where
    buf: "Pipe_copy_in ?q bs = Done (?q\<lparr>buffer := buf,
            write_pos := (read_pos ?q + Suc n + length bs) mod capacity ?q\<rparr>)"
      "length buf = length (buffer ?q)"
      "window (?q\<lparr>buffer := buf\<rparr>) (Suc n + length bs) = window ?q (Suc n) @ bs" by blast
  have "window (p\<lparr>buffer := buf\<rparr>) (n + length (b # bs)) = window p n @ b # bs"
    using buf(3) win window_cong [of "?q\<lparr>buffer := buf\<rparr>" "p\<lparr>buffer := buf\<rparr>"] by simp
  with buf ok show ?case by (intro exI [of _ buf]) simp
qed

lemma window_Suc:
  "ring_inv p \<Longrightarrow> window p (Suc n)
     = buffer p ! read_pos p # window (p\<lparr>read_pos := (read_pos p + 1) mod capacity p\<rparr>) n"
  by (auto simp: window_def map_upt_Suc ring_inv_def mod_add_left_eq simp del: upt_Suc)

lemma ring_inv_advance:
  "ring_inv p \<Longrightarrow> ring_inv (p\<lparr>read_pos := (read_pos p + k) mod capacity p\<rparr>)"
  by (simp add: ring_inv_def)

lemma Pipe_copy_out_window:
  "ring_inv p \<Longrightarrow> Pipe_copy_out p n
     = Done (p\<lparr>read_pos := (read_pos p + n) mod capacity p\<rparr>, window p n)"
proof (induction n arbitrary: p)
  case 0
  then show ?case by (simp add: ring_inv_def)
next
  case (Suc n)
  let ?q = "p\<lparr>read_pos := (read_pos p + 1) mod capacity p\<rparr>"
  have ok: "read_pos p < length (buffer p) \<and> capacity p \<noteq> 0"
    using Suc.prems by (auto simp: ring_inv_def)
  have "Pipe_copy_out ?q n
      = Done (?q\<lparr>read_pos := (read_pos ?q + n) mod capacity ?q\<rparr>, window ?q n)"
    by (rule Suc.IH [OF ring_inv_advance [OF Suc.prems]])
  with ok window_Suc [OF Suc.prems, of n] show ?case
    by (simp add: mod_add_left_eq)
qed

lemma Pipe_copy_from_window:
  "ring_inv p \<Longrightarrow> Pipe_copy_from p (read_pos p) n = Done (window p n)"
proof -
  have "ring_inv p \<Longrightarrow> pos = read_pos q \<Longrightarrow> q = p\<lparr>read_pos := pos\<rparr> \<Longrightarrow> pos < capacity p
      \<Longrightarrow> Pipe_copy_from p pos n = Done (window q n)" for q pos
  proof (induction n arbitrary: q pos)
    case (Suc n)
    let ?pos = "(pos + 1) mod capacity p"
    have q: "ring_inv q" using Suc.prems by (simp add: ring_inv_def)
    have "Pipe_copy_from p ?pos n = Done (window (p\<lparr>read_pos := ?pos\<rparr>) n)"
      by (rule Suc.IH) (use Suc.prems in \<open>auto simp: ring_inv_def\<close>)
    with Suc.prems window_Suc [OF q, of n] show ?case
      by (simp add: ring_inv_def)
  qed simp
  then show "ring_inv p \<Longrightarrow> Pipe_copy_from p (read_pos p) n = Done (window p n)"
    by (auto simp: ring_inv_def)
qed

lemma window_advance:
  "0 < capacity p \<Longrightarrow> n \<le> m \<Longrightarrow> window (p\<lparr>read_pos := (read_pos p + n) mod capacity p\<rparr>) (m - n)
     = drop n (window p m)"
  by (rule nth_equalityI) (auto simp: window_def mod_add_left_eq add.assoc)

lemma mod_advance:
  fixes n l r c :: nat
  assumes "n \<le> l"
  shows "((r + n) mod c + l - n) mod c = (r + l) mod c"
proof -
  have "((r + n) mod c + l - n) mod c = ((r + n) mod c + (l - n)) mod c"
    using assms by simp
  also have "\<dots> = (r + n + (l - n)) mod c" by (rule mod_add_left_eq)
  finally show ?thesis using assms by simp
qed

lemma window_take: "n \<le> m \<Longrightarrow> take n (window p m) = window p n"
  by (simp add: window_def take_map)

section \<open>Abstract specification of the operations\<close>

text \<open>What a write returns, as a function of the channel's abstract state only.\<close>

definition write_spec :: "bool \<Rightarrow> nat \<Rightarrow> nat \<Rightarrow> PipeError + nat" where
  "write_spec has_reader room n =
     (if \<not> has_reader then Inl BrokenPipe else if n = 0 then Inr 0
      else if room = 0 then Inl WouldBlock
      else if n \<le> PIPE_BUF \<and> room < n then Inl WouldBlock else Inr (min n room))"

definition read_spec :: "bool \<Rightarrow> nat \<Rightarrow> nat \<Rightarrow> PipeError + nat" where
  "read_spec has_writer avail n =
     (if avail = 0 then if has_writer then Inl WouldBlock else Inr 0 else Inr (min n avail))"

fun count_of :: "PipeError + nat \<Rightarrow> nat" where
  "count_of (Inl e) = 0"
| "count_of (Inr n) = n"

lemma pipe_inv_ring: "pipe_inv p \<Longrightarrow> ring_inv p"
  by (simp add: pipe_inv_def)

lemma write_spec_bound:
  "write_spec r room n = Inr k \<Longrightarrow> k \<le> n \<and> k \<le> room"
  by (auto simp: write_spec_def split: if_splits)

lemma write_spec_atomic:
  "n \<le> PIPE_BUF \<Longrightarrow> write_spec r room n = Inr k \<Longrightarrow> k = n"
  by (auto simp: write_spec_def split: if_splits)

lemma Pipe_write_spec:
  assumes "pipe_inv p"
  shows "\<exists>p'. Pipe_write p data
             = Done (p', write_spec (readers p \<noteq> 0) (capacity p - data_len p) (length data))
           \<and> pipe_inv p'
           \<and> pipe_contents p' = pipe_contents p @ take (count_of (write_spec (readers p \<noteq> 0)
                (capacity p - data_len p) (length data))) data
           \<and> readers p' = readers p \<and> writers p' = writers p \<and> capacity p' = capacity p"
proof -
  let ?r = "write_spec (readers p \<noteq> 0) (capacity p - data_len p) (length data)"
  have le: "data_len p \<le> capacity p" using assms by (simp add: pipe_inv_def ring_inv_def)
  show ?thesis
  proof (cases "\<exists>k. ?r = Inr k \<and> 0 < k")
    case False
    then have "Pipe_write p data = Done (p, ?r)" "count_of ?r = 0"
      using le by (auto simp: Pipe_write_def write_spec_def)
    with assms show ?thesis by simp
  next
    case True
    then obtain k where k: "?r = Inr k" "0 < k" by blast
    let ?bs = "take k data"
    have len: "length ?bs = k" "data_len p + k \<le> capacity p"
      using write_spec_bound [OF k(1)] le by auto
    from assms have "ring_inv p" "write_pos p = (read_pos p + data_len p) mod capacity p"
      by (simp_all add: pipe_inv_def)
    then obtain buf where buf: "Pipe_copy_in p ?bs = Done (p\<lparr>buffer := buf,
           write_pos := (read_pos p + data_len p + k) mod capacity p\<rparr>)"
        "length buf = length (buffer p)"
        "window (p\<lparr>buffer := buf\<rparr>) (data_len p + k) = window p (data_len p) @ ?bs"
      using Pipe_copy_in_window [of p "data_len p" ?bs] len by auto
    let ?p = "p\<lparr>buffer := buf, write_pos := (read_pos p + data_len p + k) mod capacity p,
        data_len := data_len p + k, bytes_written := bytes_written p + of_nat k,
        read_waiters := []\<rparr>"
    have "Pipe_write p data = Done (?p, ?r)"
      using k le buf(1) by (auto simp: Pipe_write_def write_spec_def Let_def split: if_splits)
    moreover have "pipe_inv ?p"
      using assms buf(2) len by (auto simp: pipe_inv_def ring_inv_def add.assoc)
    moreover have "pipe_contents ?p = pipe_contents p @ ?bs"
      using buf(3) window_cong [of ?p "p\<lparr>buffer := buf\<rparr>"] by (simp add: pipe_contents_def)
    ultimately show ?thesis using k by (intro exI [of _ ?p]) simp
  qed
qed

lemma Pipe_read_spec:
  assumes "pipe_inv p"
  shows "\<exists>p'. Pipe_read p buf
             = Done (p', splice_at 0 (take (length buf) (pipe_contents p)) buf,
                     read_spec (writers p \<noteq> 0) (data_len p) (length buf))
           \<and> pipe_inv p' \<and> pipe_contents p' = drop (length buf) (pipe_contents p)
           \<and> readers p' = readers p \<and> writers p' = writers p \<and> capacity p' = capacity p"
proof (cases "data_len p = 0")
  case True
  then have "pipe_contents p = []" by (simp add: pipe_contents_def)
  with True assms show ?thesis
    by (intro exI [of _ p]) (simp add: Pipe_read_def read_spec_def splice_at_def)
next
  case False
  let ?n = "min (length buf) (data_len p)"
  let ?p = "p\<lparr>read_pos := (read_pos p + ?n) mod capacity p, data_len := data_len p - ?n,
      bytes_read := bytes_read p + of_nat ?n, write_waiters := []\<rparr>"
  have r: "ring_inv p" using assms by (rule pipe_inv_ring)
  have w: "window p ?n = take (length buf) (pipe_contents p)"
  proof -
    have "window p ?n = take ?n (pipe_contents p)"
      by (simp add: pipe_contents_def window_take)
    also have "\<dots> = take (length buf) (pipe_contents p)"
      by (cases "length buf \<le> data_len p") auto
    finally show ?thesis .
  qed
  have "Pipe_read p buf = Done (?p, splice_at 0 (window p ?n) buf, Inr ?n)"
    using False Pipe_copy_out_window [OF r, of ?n] by (simp add: Pipe_read_def Let_def)
  moreover have "pipe_inv ?p"
    using assms mod_advance [of ?n "data_len p" "read_pos p" "capacity p"]
    by (auto simp: pipe_inv_def ring_inv_def)
  moreover have "pipe_contents ?p = drop (length buf) (pipe_contents p)"
  proof -
    have "pipe_contents ?p = window (p\<lparr>read_pos := (read_pos p + ?n) mod capacity p\<rparr>) (data_len p - ?n)"
      unfolding pipe_contents_def by (simp add: window_def)
    also have "\<dots> = drop ?n (pipe_contents p)"
      using r by (subst window_advance) (auto simp: ring_inv_def pipe_contents_def)
    also have "\<dots> = drop (length buf) (pipe_contents p)"
      by (cases "length buf \<le> data_len p") auto
    finally show ?thesis .
  qed
  ultimately show ?thesis using False w
    by (intro exI [of _ ?p]) (simp add: read_spec_def)
qed

lemma Pipe_new_inv: "pipe_inv (Pipe_new i fl)" and Pipe_new_contents: "pipe_contents (Pipe_new i fl) = []"
  by (simp_all add: pipe_inv_def ring_inv_def Pipe_new_def state_of_def pipe_contents_def
      PIPE_BUF_SIZE_def)

lemma Pipe_new_state [simp]: "pipe_state (Pipe_new i fl) = Open"
  by (simp add: Pipe_new_def)

lemma Pipe_close_inv:
  "pipe_inv p \<Longrightarrow> pipe_inv (Pipe_close_read p)" "pipe_inv p \<Longrightarrow> pipe_inv (Pipe_close_write p)"
  by (auto simp: pipe_inv_def ring_inv_def Pipe_close_read_def Pipe_close_write_def Let_def
      state_of_def word_gt_0)

lemma Pipe_close_contents:
  "pipe_contents (Pipe_close_read p) = pipe_contents p"
  "pipe_contents (Pipe_close_write p) = pipe_contents p"
  by (auto simp: Pipe_close_read_def Pipe_close_write_def pipe_contents_def window_def Let_def)

section \<open>The pipe is a byte channel\<close>

datatype pipe_op = PWrite "u8 list" | PRead "u8 list" | PCloseRead | PCloseWrite

text \<open>One operation, with the bytes it accepted and the bytes it delivered.\<close>

fun pipe_step :: "Pipe \<Rightarrow> pipe_op \<Rightarrow> (Pipe \<times> u8 list \<times> u8 list) exec" where
  "pipe_step p (PWrite data) =
     exec_bind (Pipe_write p data) (\<lambda>(p', r). Done (p', take (count_of r) data, []))"
| "pipe_step p (PRead buf) =
     exec_bind (Pipe_read p buf) (\<lambda>(p', buf', r). Done (p', [], take (count_of r) buf'))"
| "pipe_step p PCloseRead = Done (Pipe_close_read p, [], [])"
| "pipe_step p PCloseWrite = Done (Pipe_close_write p, [], [])"

lemma take_splice_at_0: "length bs \<le> length buf \<Longrightarrow> take (length bs) (splice_at 0 bs buf) = bs"
  by (simp add: splice_at_def)

lemma count_read_spec:
  "count_of (read_spec w (data_len p) n) = length (take n (pipe_contents p))"
  by (simp add: read_spec_def min.commute)

interpretation pc: byte_channel pipe_contents pipe_inv pipe_step
proof
  fix p op assume inv: "pipe_inv p"
  show "\<exists>p' a d. pipe_step p op = Done (p', a, d) \<and> pipe_inv p'
          \<and> pipe_contents p @ a = d @ pipe_contents p'"
  proof (cases op)
    case (PWrite data)
    with Pipe_write_spec [OF inv, of data] show ?thesis by auto
  next
    case (PRead buf)
    let ?bs = "take (length buf) (pipe_contents p)"
    have "take (length ?bs) (splice_at 0 ?bs buf) = ?bs" by (rule take_splice_at_0) simp
    with PRead Pipe_read_spec [OF inv, of buf] show ?thesis
      by (auto simp: count_read_spec)
  next
    case PCloseRead
    with inv show ?thesis by (simp add: Pipe_close_inv Pipe_close_contents)
  next
    case PCloseWrite
    with inv show ?thesis by (simp add: Pipe_close_inv Pipe_close_contents)
  qed
qed

section \<open>Resizing\<close>

lemma pow2_from_pow:
  "n \<le> 2 ^ m \<Longrightarrow> k \<le> m \<Longrightarrow> \<exists>j. k \<le> j \<and> j \<le> m \<and> pow2_from (2 ^ k) n = 2 ^ j \<and> n \<le> 2 ^ j"
proof (induction "m - k" arbitrary: k)
  case 0
  then have "n \<le> 2 ^ k" by simp
  then have "pow2_from (2 ^ k) n = 2 ^ k" by (subst pow2_from.simps) simp
  with 0 show ?case by auto
next
  case (Suc d)
  show ?case
  proof (cases "n \<le> 2 ^ k")
    case True
    then have "pow2_from (2 ^ k) n = 2 ^ k" by (subst pow2_from.simps) simp
    with True Suc.prems show ?thesis by auto
  next
    case False
    then have "pow2_from (2 ^ k) n = pow2_from (2 ^ Suc k) n" by (subst pow2_from.simps) simp
    moreover have "\<exists>j. Suc k \<le> j \<and> j \<le> m \<and> pow2_from (2 ^ Suc k) n = 2 ^ j \<and> n \<le> 2 ^ j"
      using Suc by (intro Suc.hyps(1)) auto
    ultimately show ?thesis by (metis Suc_leD)
  qed
qed

lemma set_size_target_bounds: "4096 \<le> set_size_target n" "set_size_target n \<le> 65536"
proof -
  let ?m = "min (max n 4096) (PIPE_MAX_PAGES * 4096)"
  have m: "4096 \<le> ?m" "?m \<le> 2 ^ 16" by (simp_all add: PIPE_MAX_PAGES_def)
  from pow2_from_pow [of ?m 16 0] m(2) obtain j where
    j: "j \<le> 16" "pow2_from 1 ?m = 2 ^ j" "?m \<le> 2 ^ j" by auto
  then have eq: "set_size_target n = 2 ^ j"
    by (simp add: set_size_target_def next_power_of_two_def)
  show "4096 \<le> set_size_target n" using m(1) j(3) eq by linarith
  have "(2::nat) ^ j \<le> 2 ^ 16" using j(1) by (rule power_increasing) simp
  then show "set_size_target n \<le> 65536" using eq by simp
qed

lemma Pipe_set_size_spec:
  assumes "pipe_inv p" and "data_len p \<le> set_size_target n"
  defines "q \<equiv> p\<lparr>buffer := pipe_contents p @ replicate (set_size_target n - data_len p) 0,
       capacity := set_size_target n, read_pos := 0, write_pos := data_len p\<rparr>"
  shows "Pipe_set_size p n = Done (q, Inr (set_size_target n))"
    and "ring_inv q" and "pipe_contents q = pipe_contents p"
    and "pipe_inv q \<longleftrightarrow> data_len p < set_size_target n"
proof -
  have "Pipe_copy_from p (read_pos p) (data_len p) = Done (pipe_contents p)"
    using Pipe_copy_from_window [OF pipe_inv_ring [OF assms(1)]] by (simp add: pipe_contents_def)
  then show "Pipe_set_size p n = Done (q, Inr (set_size_target n))"
    using assms(2) by (simp add: Pipe_set_size_def Let_def q_def)
  have pos: "0 < set_size_target n"
    using set_size_target_bounds(1) [of n] by linarith
  then show ring: "ring_inv q" using assms(2) by (simp add: ring_inv_def q_def)
  show "pipe_contents q = pipe_contents p"
  proof (rule nth_equalityI)
    fix i assume "i < length (pipe_contents q)"
    then have i: "i < data_len p" "i < set_size_target n" using assms(2) by (simp_all add: q_def)
    have "pipe_contents q ! i = buffer q ! ((read_pos q + i) mod capacity q)"
      using i by (intro nth_contents) (simp add: q_def)
    also have "\<dots> = (pipe_contents p @ replicate (set_size_target n - data_len p) 0) ! i"
      using i by (simp add: q_def)
    finally have "pipe_contents q ! i
        = (pipe_contents p @ replicate (set_size_target n - data_len p) 0) ! i" .
    with i show "pipe_contents q ! i = pipe_contents p ! i" by (simp add: nth_append)
  qed (simp add: q_def)
  have "pipe_state q = state_of (readers q) (writers q)"
    using assms(1) by (simp add: pipe_inv_def q_def)
  moreover have "data_len p = data_len p mod set_size_target n \<longleftrightarrow> data_len p < set_size_target n"
    using pos assms(2) by (metis mod_less mod_less_divisor)
  ultimately show "pipe_inv q \<longleftrightarrow> data_len p < set_size_target n"
    using ring by (simp add: pipe_inv_def q_def)
qed

text \<open>The state an exact-fit resize leaves panics on the next write that has room.\<close>

lemma exact_fit_write_panics:
  assumes "pipe_inv p" and "data_len p = set_size_target n" and "readers p \<noteq> 0"
    and "buf \<noteq> []" and "data \<noteq> []" and "length data \<le> length buf" and "length data \<le> PIPE_BUF"
    and "length buf \<le> data_len p"
  shows "\<exists>p1 p2 buf'. Pipe_set_size p n = Done (p1, Inr (data_len p))
      \<and> Pipe_read p1 buf = Done (p2, buf', Inr (length buf)) \<and> Pipe_write p2 data = Panic"
proof -
  let ?q = "p\<lparr>buffer := pipe_contents p @ replicate (set_size_target n - data_len p) 0,
       capacity := set_size_target n, read_pos := 0, write_pos := data_len p\<rparr>"
  from assms(2) have le: "data_len p \<le> set_size_target n" by simp
  note q = Pipe_set_size_spec [OF assms(1) le]
  let ?k = "length buf"
  let ?r = "?q\<lparr>read_pos := (0 + ?k) mod set_size_target n, data_len := data_len p - ?k,
       bytes_read := bytes_read p + of_nat ?k, write_waiters := []\<rparr>"
  have k: "0 < ?k" "min ?k (data_len p) = ?k" "data_len p \<noteq> 0"
    using assms(4,8) by (cases buf; simp)+
  have "Pipe_read ?q buf = Done (?r, splice_at 0 (window ?q ?k) buf, Inr ?k)"
    using k Pipe_copy_out_window [OF q(2), of ?k]
    by (simp add: Pipe_read_def Let_def)
  moreover have "Pipe_write ?r data = Panic"
  proof -
    obtain b bs where data: "data = b # bs" using assms(5) by (cases data) auto
    have "length data \<le> usub (capacity ?r) (data_len ?r)"
      using assms(2,6,8) by simp
    then show ?thesis
      using assms(2,3,7) k data by (auto simp: Pipe_write_def Let_def)
  qed
  ultimately show ?thesis using q(1) assms(2) by auto
qed

section \<open>The table\<close>

definition table_inv :: "PipeTable \<Rightarrow> bool" where
  "table_inv t \<longleftrightarrow> (\<forall>i p. bt_get (pipes t) i = Some p \<longrightarrow> pipe_inv p \<and> pipe_state p \<noteq> FullyClosed)"

datatype table_op = TPipe u32 | TWrite u64 "u8 list" | TRead u64 "u8 list" | TClose u64 bool
  | TSplice u64 u64 nat | TTee u64 u64 nat

text \<open>The system calls on the table; a panic would halt the kernel and leaves no state.\<close>

fun table_step :: "table_op \<Rightarrow> PipeTable exec \<Rightarrow> PipeTable exec" where
  "table_step op Panic = Panic"
| "table_step (TPipe fl) (Done t) = Done (fst (sys_pipe t fl))"
| "table_step (TWrite i data) (Done t) = exec_bind (pipe_write t i data) (\<lambda>(t', r). Done t')"
| "table_step (TRead i buf) (Done t) = exec_bind (pipe_read t i buf) (\<lambda>(t', b, r). Done t')"
| "table_step (TClose i e) (Done t) = Done (pipe_close t i e)"
| "table_step (TSplice i j n) (Done t) = exec_bind (pipe_splice t i j n) (\<lambda>(t', r). Done t')"
| "table_step (TTee i j n) (Done t) = exec_bind (pipe_tee t i j n) (\<lambda>(t', r). Done t')"

lemma state_of_cong:
  "pipe_inv p \<Longrightarrow> pipe_inv p' \<Longrightarrow> readers p' = readers p \<Longrightarrow> writers p' = writers p
    \<Longrightarrow> pipe_state p' = pipe_state p"
  by (simp add: pipe_inv_def)

lemma table_invD: "table_inv t \<Longrightarrow> bt_get (pipes t) i = Some p \<Longrightarrow> pipe_inv p"
  by (simp add: table_inv_def)

lemma table_inv_replace:
  assumes "table_inv t" and "bt_get (pipes t) i = Some p" and "pipe_inv p'"
    and "readers p' = readers p" and "writers p' = writers p"
  shows "table_inv (t\<lparr>pipes := bt_insert i p' (pipes t)\<rparr>)"
proof -
  have "pipe_state p' \<noteq> FullyClosed"
    using assms state_of_cong [of p p'] by (auto simp: table_inv_def)
  with assms(1,3) show ?thesis by (auto simp: table_inv_def)
qed

lemma pipe_write_table:
  assumes "table_inv t"
  shows "\<exists>t' r. pipe_write t i data = Done (t', r) \<and> table_inv t'"
proof (cases "bt_get (pipes t) i")
  case None
  with assms show ?thesis by (simp add: pipe_write_def)
next
  case (Some p)
  from table_invD [OF assms Some] have inv: "pipe_inv p" .
  from Pipe_write_spec [OF inv, of data] obtain p' r where
    "Pipe_write p data = Done (p', r)" "pipe_inv p'" "readers p' = readers p" "writers p' = writers p"
    by blast
  with Some assms show ?thesis
    by (auto simp: pipe_write_def intro: table_inv_replace)
qed

lemma pipe_read_table:
  assumes "table_inv t"
  shows "\<exists>t' b r. pipe_read t i buf = Done (t', b, r) \<and> table_inv t'"
proof (cases "bt_get (pipes t) i")
  case None
  with assms show ?thesis by (simp add: pipe_read_def)
next
  case (Some p)
  from table_invD [OF assms Some] have inv: "pipe_inv p" .
  from Pipe_read_spec [OF inv, of buf] obtain p' b r where
    "Pipe_read p buf = Done (p', b, r)" "pipe_inv p'" "readers p' = readers p" "writers p' = writers p"
    by blast
  with Some assms show ?thesis
    by (auto simp: pipe_read_def intro: table_inv_replace)
qed

lemma pipe_peek_spec:
  "pipe_inv p \<Longrightarrow> Pipe_peek p buf
     = Done (splice_at 0 (take (length buf) (pipe_contents p)) buf, min (length buf) (data_len p))"
proof -
  assume inv: "pipe_inv p"
  let ?n = "min (length buf) (data_len p)"
  have "window p ?n = take ?n (pipe_contents p)"
    by (simp add: pipe_contents_def window_take)
  also have "\<dots> = take (length buf) (pipe_contents p)"
    by (cases "length buf \<le> data_len p") auto
  finally show ?thesis
    using Pipe_copy_from_window [OF pipe_inv_ring [OF inv], of ?n]
    by (simp add: Pipe_peek_def Let_def)
qed

lemma pipe_close_table: "table_inv t \<Longrightarrow> table_inv (pipe_close t i e)"
  by (auto simp: pipe_close_def table_inv_def Let_def Pipe_close_inv split: option.splits if_splits)

lemma table_step_inv:
  "(\<exists>t. m = Done t \<and> table_inv t) \<Longrightarrow> (\<exists>t. table_step op m = Done t \<and> table_inv t)"
proof -
  assume "\<exists>t. m = Done t \<and> table_inv t"
  then obtain t where m: "m = Done t" and inv: "table_inv t" by blast
  show ?thesis
  proof (cases op)
    case (TPipe fl)
    with m inv show ?thesis
      by (auto simp: sys_pipe_def Let_def table_inv_def Pipe_new_inv)
  next
    case (TWrite i data)
    with m pipe_write_table [OF inv, of i data] show ?thesis by auto
  next
    case (TRead i buf)
    with m pipe_read_table [OF inv, of i buf] show ?thesis by auto
  next
    case (TClose i e)
    with m inv show ?thesis by (simp add: pipe_close_table)
  next
    case (TSplice i j n)
    from pipe_read_table [OF inv, of i "replicate n 0"] obtain t1 b r where
      1: "pipe_read t i (replicate n 0) = Done (t1, b, r)" "table_inv t1" by blast
    from pipe_write_table [OF 1(2)] 1 TSplice m show ?thesis
      by (cases r) (fastforce simp: pipe_splice_def)+
  next
    case (TTee i j n)
    show ?thesis
    proof (cases "bt_get (pipes t) i")
      case None
      with TTee m inv show ?thesis by (simp add: pipe_tee_def)
    next
      case (Some p)
      from pipe_write_table [OF inv] pipe_peek_spec [OF table_invD [OF inv Some]] Some TTee m
      show ?thesis by (fastforce simp: pipe_tee_def)
    qed
  qed
qed

interpretation pt: state_machine "Done PipeTable_new" table_step
  "\<lambda>m. \<exists>t. m = Done t \<and> table_inv t"
proof
  show "\<exists>t. Done PipeTable_new = Done t \<and> table_inv t"
    by (simp add: table_inv_def PipeTable_new_def)
qed (rule table_step_inv)

text \<open>Splicing between two pipes: the source loses what the destination may not take.\<close>

lemma pipe_splice_spec:
  fixes len :: nat
  assumes "table_inv t" and "bt_get (pipes t) src = Some s" and "bt_get (pipes t) dst = Some d"
    and "src \<noteq> dst" and "data_len s \<noteq> 0"
  defines "r \<equiv> write_spec (readers d \<noteq> 0) (capacity d - data_len d) (min len (data_len s))"
  shows "\<exists>t' s' d'. pipe_splice t src dst len = Done (t', r)
      \<and> bt_get (pipes t') src = Some s' \<and> pipe_contents s' = drop len (pipe_contents s)
      \<and> bt_get (pipes t') dst = Some d'
      \<and> pipe_contents d' = pipe_contents d @ take (count_of r) (take len (pipe_contents s))"
proof -
  let ?bs = "take len (pipe_contents s)"
  from Pipe_read_spec [OF table_invD [OF assms(1,2)], of "replicate len 0"] assms(5)
  obtain s' where s': "Pipe_read s (replicate len 0)
        = Done (s', splice_at 0 ?bs (replicate len 0), Inr (min len (data_len s)))"
      "pipe_contents s' = drop len (pipe_contents s)"
    by (auto simp: read_spec_def)
  have bs: "take (min len (data_len s)) (splice_at 0 ?bs (replicate len 0)) = ?bs"
    using take_splice_at_0 [of ?bs "replicate len 0"] by (simp add: min.commute)
  from Pipe_write_spec [OF table_invD [OF assms(1,3)], of ?bs]
  obtain d' where d': "Pipe_write d ?bs = Done (d', r)"
      "pipe_contents d' = pipe_contents d @ take (count_of r) ?bs"
    by (auto simp: r_def min.commute)
  show ?thesis
    using assms(2-4) s' bs d'
    by (auto simp: pipe_splice_def pipe_read_def pipe_write_def)
qed

section \<open>Properties\<close>

text \<open>
  a write to a well-formed pipe returns without a panic; it answers \<open>EPIPE\<close>, \<open>EAGAIN\<close>
  or a count exactly as the specification says, appends exactly the counted prefix of the
  data to the buffered bytes, and a write of at most \<open>PIPE_BUF\<close> bytes is all or nothing.
\<close>

lemma pipe_write_appends:
  assumes "pipe_inv p"
  shows "\<exists>p' r. Pipe_write p data = Done (p', r) \<and> pipe_inv p'
    \<and> r = write_spec (readers p \<noteq> 0) (capacity p - data_len p) (length data)
    \<and> pipe_contents p' = pipe_contents p @ take (count_of r) data
    \<and> (length data \<le> PIPE_BUF \<longrightarrow> count_of r = 0 \<or> count_of r = length data)"
proof -
  let ?r = "write_spec (readers p \<noteq> 0) (capacity p - data_len p) (length data)"
  have "length data \<le> PIPE_BUF \<longrightarrow> count_of ?r = 0 \<or> count_of ?r = length data"
    using write_spec_atomic [of "length data" "readers p \<noteq> 0"] by (cases ?r) auto
  with Pipe_write_spec [OF assms, of data] show ?thesis by blast
qed

lemma pipe_write_appends_example:
  "\<exists>p' r. Pipe_write (Pipe_new 1 0) [7, 8] = Done (p', r) \<and> r = Inr 2 \<and> pipe_contents p' = [7, 8]"
  using pipe_write_appends [OF Pipe_new_inv, of 1 0 "[7, 8]"]
  by (auto simp: write_spec_def Pipe_new_def PIPE_BUF_SIZE_def PIPE_BUF_def Pipe_new_contents
      pipe_contents_def window_def)

text \<open>
  a read from a well-formed pipe returns without a panic; it reports end of file only when
  no byte is buffered and no writer is left, and otherwise moves the first bytes of the pipe
  into the caller's buffer: delivered bytes followed by what stays buffered is what was
  buffered, and the rest of the caller's buffer is untouched.
\<close>

lemma pipe_read_takes_prefix:
  assumes "pipe_inv p"
  shows "\<exists>p' buf' r. Pipe_read p buf = Done (p', buf', r) \<and> pipe_inv p'
    \<and> r = read_spec (writers p \<noteq> 0) (data_len p) (length buf)
    \<and> take (count_of r) buf' @ pipe_contents p' = pipe_contents p
    \<and> drop (count_of r) buf' = drop (count_of r) buf \<and> length buf' = length buf"
proof -
  let ?bs = "take (length buf) (pipe_contents p)"
  have "take (length ?bs) (splice_at 0 ?bs buf) = ?bs" by (rule take_splice_at_0) simp
  moreover have "drop (length ?bs) (splice_at 0 ?bs buf) = drop (length ?bs) buf"
    by (simp add: splice_at_def)
  moreover have "length (splice_at 0 ?bs buf) = length buf" by simp
  ultimately show ?thesis
    using Pipe_read_spec [OF assms, of buf]
    by (metis append_take_drop_id count_read_spec)
qed

lemma pipe_read_takes_prefix_example:
  "\<exists>p' buf' r. Pipe_read (Pipe_new 1 0) [9] = Done (p', buf', r) \<and> r = Inl WouldBlock \<and> buf' = [9]"
  using pipe_read_takes_prefix [OF Pipe_new_inv, of 1 0 "[9]"]
  by (auto simp: read_spec_def Pipe_new_def)




text \<open>
  C32: \<open>pipe_splice\<close> between two pipes removes \<open>min len data_len\<close> bytes from the source and
  appends to the destination only as many of them as the destination's write accepts: the
  bytes in between are in neither pipe afterwards.
\<close>

theorem pipe_splice_moves_or_drops:
  fixes len :: nat
  assumes "table_inv t" and "bt_get (pipes t) src = Some s" and "bt_get (pipes t) dst = Some d"
    and "src \<noteq> dst" and "data_len s \<noteq> 0"
  shows "\<exists>t' s' d' r. pipe_splice t src dst len = Done (t', r)
    \<and> r = write_spec (readers d \<noteq> 0) (capacity d - data_len d) (min len (data_len s))
    \<and> bt_get (pipes t') src = Some s' \<and> pipe_contents s' = drop len (pipe_contents s)
    \<and> bt_get (pipes t') dst = Some d'
    \<and> pipe_contents d' = pipe_contents d @ take (count_of r) (take len (pipe_contents s))"
  using pipe_splice_spec [OF assms, of len] by blast

text \<open>A two-pipe table: the source holds one byte, the destination is full.\<close>

definition splice_src :: Pipe where
  "splice_src = (Pipe_new 1 0)\<lparr>data_len := 1, write_pos := 1\<rparr>"

definition splice_dst :: Pipe where
  "splice_dst = (Pipe_new 2 0)\<lparr>data_len := 65536\<rparr>"

lemma splice_pipes_inv: "pipe_inv splice_src" "pipe_inv splice_dst"
  by (simp_all add: pipe_inv_def ring_inv_def splice_src_def splice_dst_def Pipe_new_def
      state_of_def PIPE_BUF_SIZE_def)

theorem pipe_splice_moves_or_drops_witness:
  "\<exists>t' s'. pipe_splice \<lparr>pipes = [(1, splice_src), (2, splice_dst)], next_id = 3\<rparr> 1 2 1
       = Done (t', Inl WouldBlock)
     \<and> bt_get (pipes t') 1 = Some s' \<and> pipe_contents s' = [] \<and> pipe_contents splice_src = [0]"
proof -
  let ?t = "\<lparr>pipes = [(1, splice_src), (2, splice_dst)], next_id = 3\<rparr>"
  have inv: "table_inv ?t"
    using splice_pipes_inv
    by (auto simp: table_inv_def splice_src_def splice_dst_def Pipe_new_def split: if_splits)
  have c: "pipe_contents splice_src = [0]"
    by (simp add: pipe_contents_def window_def splice_src_def Pipe_new_def PIPE_BUF_SIZE_def)
  have "bt_get (pipes ?t) 1 = Some splice_src" "bt_get (pipes ?t) 2 = Some splice_dst"
    by simp_all
  from pipe_splice_moves_or_drops [OF inv this, of 1] c show ?thesis
    by (auto simp: write_spec_def splice_src_def splice_dst_def Pipe_new_def PIPE_BUF_SIZE_def)
qed

end
