(* ===== verification/Eventfd.thy ===== *)
theory Eventfd
  imports Btree Channel
begin

text \<open>
  \<open>src/kernel/src/ipc/eventfd.rs\<close>: the event counter behind \<open>eventfd(2)\<close> and its global
  table. The counter is a token account: what was written is what was read plus what is
  stored, in counter mode and in semaphore mode, and no addition ever wraps.
\<close>

section \<open>One event counter\<close>

definition EFD_SEMAPHORE :: i32 where "EFD_SEMAPHORE = 0x1"
definition EFD_CLOEXEC :: i32 where "EFD_CLOEXEC = 0x80000"
definition EFD_NONBLOCK :: i32 where "EFD_NONBLOCK = 0x800"

record EventFd =
  counter :: u64
  efd_flags :: i32
  semaphore :: bool

definition EventFd_new :: "u64 \<Rightarrow> i32 \<Rightarrow> EventFd" where
  "EventFd_new initval fl =
     \<lparr>counter = initval, efd_flags = fl, semaphore = (fl AND EFD_SEMAPHORE \<noteq> 0)\<rparr>"

definition EventFd_read :: "EventFd \<Rightarrow> EventFd \<times> (errno + u64)" where
  "EventFd_read e =
     (if counter e = 0 then (e, Inl EAGAIN)
      else if semaphore e then (e\<lparr>counter := counter e - 1\<rparr>, Inr 1)
      else (e\<lparr>counter := 0\<rparr>, Inr (counter e)))"

text \<open>\<open>u64::MAX\<close> is \<open>- 1\<close>.\<close>

definition EventFd_write :: "EventFd \<Rightarrow> u64 \<Rightarrow> EventFd \<times> (errno + unit)" where
  "EventFd_write e val =
     (if val = - 1 then (e, Inl EINVAL)
      else case checked_add (counter e) val of
        None \<Rightarrow> (e, Inl EINVAL)
      | Some new_val \<Rightarrow>
          if new_val > - 1 - 1 then (e, Inl EAGAIN)
          else (e\<lparr>counter := new_val\<rparr>, Inr ()))"

section \<open>The table\<close>

record EventTable =
  eventfds :: "(i32, EventFd) btree"
  next_eventfd :: i32

definition EventTable_init :: EventTable where
  "EventTable_init = \<lparr>eventfds = [], next_eventfd = 3000\<rparr>"

definition eventfd_create :: "EventTable \<Rightarrow> u64 \<Rightarrow> i32 \<Rightarrow> EventTable \<times> (errno + i32)" where
  "eventfd_create t initval fl =
     (let fd = next_eventfd t in
      (t\<lparr>next_eventfd := wrap_i32 (fd + 1),
         eventfds := bt_insert fd (EventFd_new initval fl) (eventfds t)\<rparr>, Inr fd))"

definition eventfd_read :: "EventTable \<Rightarrow> i32 \<Rightarrow> EventTable \<times> (errno + u64)" where
  "eventfd_read t fd =
     (case bt_get (eventfds t) fd of
        None \<Rightarrow> (t, Inl EBADF)
      | Some e \<Rightarrow> let (e', r) = EventFd_read e in
          (t\<lparr>eventfds := bt_insert fd e' (eventfds t)\<rparr>, r))"

definition eventfd_write :: "EventTable \<Rightarrow> i32 \<Rightarrow> u64 \<Rightarrow> EventTable \<times> (errno + unit)" where
  "eventfd_write t fd val =
     (case bt_get (eventfds t) fd of
        None \<Rightarrow> (t, Inl EBADF)
      | Some e \<Rightarrow> let (e', r) = EventFd_write e val in
          (t\<lparr>eventfds := bt_insert fd e' (eventfds t)\<rparr>, r))"

definition eventfd_read_bytes ::
  "EventTable \<Rightarrow> i32 \<Rightarrow> u8 list \<Rightarrow> EventTable \<times> u8 list \<times> (errno + nat)" where
  "eventfd_read_bytes t fd buf =
     (if length buf < 8 then (t, buf, Inl EINVAL)
      else case eventfd_read t fd of
        (t', Inl e) \<Rightarrow> (t', buf, Inl e)
      | (t', Inr val) \<Rightarrow> (t', splice_at 0 (u64_to_le val) buf, Inr 8))"

definition eventfd_write_bytes :: "EventTable \<Rightarrow> i32 \<Rightarrow> u8 list \<Rightarrow> EventTable \<times> (errno + nat)" where
  "eventfd_write_bytes t fd buf =
     (if length buf < 8 then (t, Inl EINVAL)
      else case eventfd_write t fd (u64_of_le (take 8 buf)) of
        (t', Inl e) \<Rightarrow> (t', Inl e)
      | (t', Inr _) \<Rightarrow> (t', Inr 8))"

definition eventfd_would_read :: "EventTable \<Rightarrow> i32 \<Rightarrow> bool" where
  "eventfd_would_read t fd =
     (case bt_get (eventfds t) fd of None \<Rightarrow> False | Some e \<Rightarrow> counter e > 0)"

definition eventfd_close :: "EventTable \<Rightarrow> i32 \<Rightarrow> EventTable" where
  "eventfd_close t fd = t\<lparr>eventfds := bt_remove fd (eventfds t)\<rparr>"

definition is_eventfd :: "EventTable \<Rightarrow> i32 \<Rightarrow> bool" where
  "is_eventfd t fd \<longleftrightarrow> bt_get (eventfds t) fd \<noteq> None"

section \<open>The counter is a token account\<close>

datatype eventfd_op = EWrite u64 | ERead

fun eventfd_step :: "EventFd \<Rightarrow> eventfd_op \<Rightarrow> EventFd \<times> nat \<times> nat" where
  "eventfd_step e (EWrite v) =
     (case EventFd_write e v of (e', Inl _) \<Rightarrow> (e', 0, 0) | (e', Inr _) \<Rightarrow> (e', unat v, 0))"
| "eventfd_step e ERead =
     (case EventFd_read e of (e', Inl _) \<Rightarrow> (e', 0, 0) | (e', Inr v) \<Rightarrow> (e', 0, unat v))"

lemma unat_pred: "(w::u64) \<noteq> 0 \<Longrightarrow> Suc (unat (w - 1)) = unat w"
  by (metis Suc_pred' unat_gt_0 unat_minus_one)

interpretation ec: token_account "\<lambda>e. unat (counter e)" "\<lambda>e. True" eventfd_step
proof
  fix e op e' i out assume "eventfd_step e op = (e', i, out)"
  then show "True \<and> unat (counter e) + i = out + unat (counter e')"
    by (cases op) (auto simp: EventFd_write_def EventFd_read_def unat_pred
        dest: unat_checked_add split: if_splits option.splits)
qed

lemma max_minus_1: "(x :: u64) \<le> - 2 \<longleftrightarrow> x \<noteq> - 1"
proof -
  have "(x :: u64) \<le> - 2 \<longleftrightarrow> unat x \<le> 2 ^ 64 - 2"
    by (simp add: word_le_nat_alt)
  moreover have "x \<noteq> - 1 \<longleftrightarrow> unat x \<noteq> 2 ^ 64 - 1"
    by (simp add: word_unat_eq_iff)
  moreover have "unat x < 2 ^ 64" using unsigned_less [where 'a = nat, of x] by simp
  ultimately show ?thesis by (simp add: less_eq_nat.simps) linarith
qed

lemma EventFd_write_cases:
  "EventFd_write e v =
     (if v \<noteq> - 1 \<and> unat (counter e) + unat v < 2 ^ 64 - 1
      then (e\<lparr>counter := counter e + v\<rparr>, Inr ())
      else (e, Inl (if v \<noteq> - 1 \<and> unat (counter e) + unat v = 2 ^ 64 - 1 then EAGAIN else EINVAL)))"
proof -
  have "unat (counter e) + unat v < 2 ^ 64 \<Longrightarrow>
      (counter e + v = - 1 \<longleftrightarrow> unat (counter e) + unat v = 2 ^ 64 - 1)"
    by (simp add: word_unat_eq_iff [of _ "- 1"] unat_word_ariths)
  then show ?thesis
    by (auto simp: EventFd_write_def checked_add_def not_le [symmetric] max_minus_1)
qed

section \<open>Properties\<close>

text \<open>
  C36: the event counter neither loses nor invents events: over any sequence of writes and
  reads, in counter or semaphore mode, the initial value plus the sum of the accepted writes
  is the sum of the values read plus the stored counter (as numbers: nothing wraps); a write
  is accepted exactly when the sum stays below \<open>u64::MAX\<close>.
\<close>

theorem eventfd_conserves_events:
  assumes "token_run eventfd_step (EventFd_new initval fl) ops = (e, written, got)"
  shows "unat initval + written = got + unat (counter e)
    \<and> (snd (EventFd_write e v) = Inr ()
        \<longleftrightarrow> v \<noteq> - 1 \<and> unat (counter e) + unat v < 2 ^ 64 - 1)"
  using ec.run_balance [OF TrueI assms] by (simp add: EventFd_new_def EventFd_write_cases)

theorem eventfd_conserves_events_witness:
  "snd (EventFd_write (fst (token_run eventfd_step (EventFd_new 5 1) [EWrite 2, ERead])) 7) = Inr ()"
proof -
  have run: "token_run eventfd_step (EventFd_new 5 1) [EWrite 2, ERead]
      = (\<lparr>counter = 6, efd_flags = 1, semaphore = True\<rparr>, 2, 1)"
    by (simp add: EventFd_write_def EventFd_read_def EventFd_new_def EFD_SEMAPHORE_def
        checked_add_def)
  show ?thesis
    unfolding run using eventfd_conserves_events [OF run, of 7] by simp
qed

end
