(* ===== verification/Flock.thy ===== *)
theory Flock
  imports Btree
begin

text \<open>
  \<open>src/kernel/src/ipc/flock.rs\<close>: whole-file \<open>flock(2)\<close> locks and POSIX record locks in one
  table of lock lists per inode. Both families share the contract \<open>lock_family\<close>: a lock is
  granted only when it clashes with no lock of its family, so the granted locks never clash.
\<close>

section \<open>Data\<close>

datatype LockType = ReadLock | WriteLock | Unlock

definition LOCK_SH :: i32 where "LOCK_SH = 1"
definition LOCK_EX :: i32 where "LOCK_EX = 2"
definition LOCK_UN :: i32 where "LOCK_UN = 8"
definition LOCK_NB :: i32 where "LOCK_NB = 4"

definition F_GETLK :: i32 where "F_GETLK = 5"
definition F_SETLK :: i32 where "F_SETLK = 6"
definition F_SETLKW :: i32 where "F_SETLKW = 7"
definition F_OFD_GETLK :: i32 where "F_OFD_GETLK = 36"
definition F_OFD_SETLK :: i32 where "F_OFD_SETLK = 37"
definition F_OFD_SETLKW :: i32 where "F_OFD_SETLKW = 38"

record Flock =
  l_type :: int
  l_whence :: int
  l_start :: i64
  l_len :: i64
  l_pid :: i32

definition F_RDLCK :: int where "F_RDLCK = 0"
definition F_WRLCK :: int where "F_WRLCK = 1"
definition F_UNLCK :: int where "F_UNLCK = 2"

lemmas flock_consts = LOCK_SH_def LOCK_EX_def LOCK_UN_def LOCK_NB_def F_GETLK_def F_SETLK_def
  F_SETLKW_def F_OFD_GETLK_def F_OFD_SETLK_def F_OFD_SETLKW_def F_RDLCK_def F_WRLCK_def F_UNLCK_def

record FileLock =
  lock_type :: LockType
  lock_pid :: u32
  lock_start :: i64
  lock_len :: i64
  is_flock :: bool

type_synonym lock_table = "(u64, FileLock list) btree"

section \<open>Operations\<close>

text \<open>The exclusive end of a range; length 0 is \<open>i64::MAX\<close>, and the sum wraps.\<close>

definition range_end :: "i64 \<Rightarrow> i64 \<Rightarrow> i64" where
  "range_end start len = (if len = 0 then 2 ^ 63 - 1 else wrap_i64 (start + len))"

definition FileLock_overlaps :: "FileLock \<Rightarrow> i64 \<Rightarrow> i64 \<Rightarrow> bool" where
  "FileLock_overlaps l start len \<longleftrightarrow>
     lock_start l < range_end start len \<and> start < range_end (lock_start l) (lock_len l)"

definition FileLock_conflicts_with :: "FileLock \<Rightarrow> LockType \<Rightarrow> u32 \<Rightarrow> bool" where
  "FileLock_conflicts_with l ty pid \<longleftrightarrow>
     lock_pid l \<noteq> pid \<and> \<not> (lock_type l = ReadLock \<and> ty = ReadLock)"

text \<open>\<open>entry(inode).or_default()\<close>.\<close>

definition locks_of :: "lock_table \<Rightarrow> u64 \<Rightarrow> FileLock list" where
  "locks_of t inode = (case bt_get t inode of None \<Rightarrow> [] | Some ls \<Rightarrow> ls)"

definition acquire_flock ::
  "lock_table \<Rightarrow> u64 \<Rightarrow> LockType \<Rightarrow> u32 \<Rightarrow> bool \<Rightarrow> lock_table \<times> (errno + unit)" where
  "acquire_flock t inode ty pid nonblock =
     (let ls = locks_of t inode in
      if \<exists>l \<in> set ls. is_flock l \<and> FileLock_conflicts_with l ty pid
      then (bt_insert inode ls t, Inl EAGAIN)
      else (bt_insert inode
              (filter (\<lambda>l. \<not> (is_flock l \<and> lock_pid l = pid)) ls
               @ [\<lparr>lock_type = ty, lock_pid = pid, lock_start = 0, lock_len = 0, is_flock = True\<rparr>]) t,
            Inr ()))"

definition release_flock :: "lock_table \<Rightarrow> u64 \<Rightarrow> u32 \<Rightarrow> lock_table \<times> (errno + unit)" where
  "release_flock t inode pid =
     (case bt_get t inode of
        None \<Rightarrow> (t, Inr ())
      | Some ls \<Rightarrow>
          let ls' = filter (\<lambda>l. \<not> (is_flock l \<and> lock_pid l = pid)) ls in
          (if ls' = [] then bt_remove inode t else bt_insert inode ls' t, Inr ()))"

definition flock :: "lock_table \<Rightarrow> u32 \<Rightarrow> u64 \<Rightarrow> i32 \<Rightarrow> lock_table \<times> (errno + unit)" where
  "flock t pid inode operation =
     (let nonblock = (operation AND LOCK_NB \<noteq> 0); op = operation AND NOT LOCK_NB in
      if op = LOCK_SH then acquire_flock t inode ReadLock pid nonblock
      else if op = LOCK_EX then acquire_flock t inode WriteLock pid nonblock
      else if op = LOCK_UN then release_flock t inode pid
      else (t, Inl EINVAL))"

fun type_code :: "LockType \<Rightarrow> int" where
  "type_code ReadLock = F_RDLCK"
| "type_code WriteLock = F_WRLCK"
| "type_code Unlock = F_UNLCK"

definition getlk :: "lock_table \<Rightarrow> u64 \<Rightarrow> Flock \<Rightarrow> u32 \<Rightarrow> Flock \<times> (errno + unit)" where
  "getlk t inode fi pid =
     (if l_type fi \<noteq> F_RDLCK \<and> l_type fi \<noteq> F_WRLCK then (fi, Inl EINVAL)
      else let ty = (if l_type fi = F_RDLCK then ReadLock else WriteLock) in
        case find (\<lambda>l. \<not> is_flock l \<and> FileLock_overlaps l (l_start fi) (l_len fi)
                        \<and> FileLock_conflicts_with l ty pid) (locks_of t inode) of
          Some l \<Rightarrow> (fi\<lparr>l_type := type_code (lock_type l), l_start := lock_start l,
                        l_len := lock_len l, l_pid := wrap_i32 (uint (lock_pid l))\<rparr>, Inr ())
        | None \<Rightarrow> (fi\<lparr>l_type := F_UNLCK\<rparr>, Inr ()))"

definition setlk :: "lock_table \<Rightarrow> u64 \<Rightarrow> Flock \<Rightarrow> u32 \<Rightarrow> bool \<Rightarrow> lock_table \<times> (errno + unit)" where
  "setlk t inode fi pid blocking =
     (let ls = locks_of t inode;
          mine = (\<lambda>l. lock_pid l = pid \<and> \<not> is_flock l \<and> FileLock_overlaps l (l_start fi) (l_len fi)) in
      if l_type fi = F_UNLCK then
        let ls' = filter (\<lambda>l. \<not> mine l) ls in
        (if ls' = [] then bt_remove inode t else bt_insert inode ls' t, Inr ())
      else if l_type fi \<noteq> F_RDLCK \<and> l_type fi \<noteq> F_WRLCK then (t, Inl EINVAL)
      else let ty = (if l_type fi = F_RDLCK then ReadLock else WriteLock) in
        if \<exists>l \<in> set ls. \<not> is_flock l \<and> FileLock_overlaps l (l_start fi) (l_len fi)
             \<and> FileLock_conflicts_with l ty pid
        then (bt_insert inode ls t, Inl EAGAIN)
        else (bt_insert inode
                (filter (\<lambda>l. \<not> mine l) ls
                 @ [\<lparr>lock_type = ty, lock_pid = pid, lock_start = l_start fi, lock_len = l_len fi,
                     is_flock = False\<rparr>]) t,
              Inr ()))"

definition posix_lock ::
  "lock_table \<Rightarrow> u32 \<Rightarrow> u64 \<Rightarrow> i32 \<Rightarrow> Flock \<Rightarrow> lock_table \<times> Flock \<times> (errno + unit)" where
  "posix_lock t pid inode cmd fi =
     (if cmd = F_GETLK \<or> cmd = F_OFD_GETLK then let (fi', r) = getlk t inode fi pid in (t, fi', r)
      else if cmd = F_SETLK \<or> cmd = F_OFD_SETLK then
        let (t', r) = setlk t inode fi pid False in (t', fi, r)
      else if cmd = F_SETLKW \<or> cmd = F_OFD_SETLKW then
        let (t', r) = setlk t inode fi pid True in (t', fi, r)
      else (t, fi, Inl EINVAL))"

definition release_all_locks :: "lock_table \<Rightarrow> u32 \<Rightarrow> lock_table" where
  "release_all_locks t pid =
     filter (\<lambda>e. snd e \<noteq> []) (bt_map (\<lambda>_ ls. filter (\<lambda>l. lock_pid l \<noteq> pid) ls) t)"

section \<open>The contract of a lock family\<close>

locale lock_family =
  fixes fam :: "'l \<Rightarrow> bool"
    and clash :: "'l \<Rightarrow> 'l \<Rightarrow> bool"
  assumes clash_sym: "clash a b \<Longrightarrow> clash b a"
    and clash_irrefl: "\<not> clash a a"
begin

lemma keep: "(\<forall>a \<in> set ls. \<forall>b \<in> set ls. fam a \<longrightarrow> fam b \<longrightarrow> \<not> clash a b)
    \<Longrightarrow> (\<forall>a \<in> set (filter P ls). \<forall>b \<in> set (filter P ls). fam a \<longrightarrow> fam b \<longrightarrow> \<not> clash a b)"
  by auto

lemma grant:
  assumes "\<forall>a \<in> set ls. \<forall>b \<in> set ls. fam a \<longrightarrow> fam b \<longrightarrow> \<not> clash a b"
    and "fam new \<Longrightarrow> \<forall>l \<in> set ls. fam l \<longrightarrow> \<not> clash l new"
  shows "\<forall>a \<in> set (filter P ls @ [new]). \<forall>b \<in> set (filter P ls @ [new]).
           fam a \<longrightarrow> fam b \<longrightarrow> \<not> clash a b"
  using assms clash_sym clash_irrefl by fastforce

end

text \<open>Two whole-file locks clash unless they have one owner or are both shared; two record
  locks clash when they also overlap.\<close>

definition flock_clash :: "FileLock \<Rightarrow> FileLock \<Rightarrow> bool" where
  "flock_clash a b \<longleftrightarrow> FileLock_conflicts_with a (lock_type b) (lock_pid b)"

definition record_clash :: "FileLock \<Rightarrow> FileLock \<Rightarrow> bool" where
  "record_clash a b \<longleftrightarrow> FileLock_conflicts_with a (lock_type b) (lock_pid b)
     \<and> FileLock_overlaps a (lock_start b) (lock_len b)"

interpretation ff: lock_family is_flock flock_clash
  by unfold_locales (auto simp: flock_clash_def FileLock_conflicts_with_def)

interpretation rf: lock_family "\<lambda>l. \<not> is_flock l" record_clash
  by unfold_locales (auto simp: record_clash_def FileLock_conflicts_with_def FileLock_overlaps_def)

section \<open>The table invariant\<close>

definition locks_ok :: "FileLock list \<Rightarrow> bool" where
  "locks_ok ls \<longleftrightarrow>
     (\<forall>a \<in> set ls. \<forall>b \<in> set ls. is_flock a \<longrightarrow> is_flock b \<longrightarrow> \<not> flock_clash a b)
     \<and> (\<forall>a \<in> set ls. \<forall>b \<in> set ls. \<not> is_flock a \<longrightarrow> \<not> is_flock b \<longrightarrow> \<not> record_clash a b)
     \<and> distinct (map lock_pid (filter is_flock ls))
     \<and> (\<forall>a \<in> set ls. lock_type a \<noteq> Unlock)"

definition lock_table_inv :: "lock_table \<Rightarrow> bool" where
  "lock_table_inv t \<longleftrightarrow> (\<forall>inode ls. bt_get t inode = Some ls \<longrightarrow> locks_ok ls)"

lemma locks_ok_Nil [simp]: "locks_ok []"
  by (simp add: locks_ok_def)

lemma locks_ok_filter: "locks_ok ls \<Longrightarrow> locks_ok (filter P ls)"
proof -
  assume ok: "locks_ok ls"
  have "distinct (map lock_pid (filter is_flock (filter P ls)))"
    using ok distinct_map_filter [of lock_pid "filter is_flock ls" P]
    by (simp add: locks_ok_def conj_commute)
  with ok show ?thesis by (auto simp: locks_ok_def)
qed

lemma locks_ok_grant_flock:
  assumes "locks_ok ls" and "\<not> (\<exists>l \<in> set ls. is_flock l \<and> FileLock_conflicts_with l ty pid)"
    and "ty \<noteq> Unlock"
  shows "locks_ok (filter (\<lambda>l. \<not> (is_flock l \<and> lock_pid l = pid)) ls
      @ [\<lparr>lock_type = ty, lock_pid = pid, lock_start = 0, lock_len = 0, is_flock = True\<rparr>])"
    (is "locks_ok (filter ?P ls @ [?new])")
proof -
  have "\<forall>l \<in> set ls. is_flock l \<longrightarrow> \<not> flock_clash l ?new"
    using assms(2) by (auto simp: flock_clash_def)
  then have f: "\<forall>a \<in> set (filter ?P ls @ [?new]). \<forall>b \<in> set (filter ?P ls @ [?new]).
      is_flock a \<longrightarrow> is_flock b \<longrightarrow> \<not> flock_clash a b"
    using assms(1) by (intro ff.grant) (auto simp: locks_ok_def)
  have "locks_ok (filter ?P ls)" using assms(1) by (rule locks_ok_filter)
  with f assms(3) show ?thesis by (auto simp: locks_ok_def)
qed

lemma locks_ok_grant_record:
  assumes "locks_ok ls" and "ty \<noteq> Unlock"
    and "\<not> (\<exists>l \<in> set ls. \<not> is_flock l \<and> FileLock_overlaps l st ln \<and> FileLock_conflicts_with l ty pid)"
  shows "locks_ok (filter P ls
      @ [\<lparr>lock_type = ty, lock_pid = pid, lock_start = st, lock_len = ln, is_flock = False\<rparr>])"
    (is "locks_ok (filter P ls @ [?new])")
proof -
  have "\<forall>l \<in> set ls. \<not> is_flock l \<longrightarrow> \<not> record_clash l ?new"
    using assms(3) by (auto simp: record_clash_def)
  then have r: "\<forall>a \<in> set (filter P ls @ [?new]). \<forall>b \<in> set (filter P ls @ [?new]).
      \<not> is_flock a \<longrightarrow> \<not> is_flock b \<longrightarrow> \<not> record_clash a b"
    using assms(1) by (intro rf.grant) (auto simp: locks_ok_def)
  have "locks_ok (filter P ls)" using assms(1) by (rule locks_ok_filter)
  with r assms(2) show ?thesis by (auto simp: locks_ok_def)
qed

lemma locks_of_ok: "lock_table_inv t \<Longrightarrow> locks_ok (locks_of t inode)"
  by (auto simp: locks_of_def lock_table_inv_def split: option.splits)

lemma lock_table_insert: "lock_table_inv t \<Longrightarrow> locks_ok ls \<Longrightarrow> lock_table_inv (bt_insert i ls t)"
  by (auto simp: lock_table_inv_def)

lemma lock_table_remove: "lock_table_inv t \<Longrightarrow> lock_table_inv (bt_remove i t)"
  by (auto simp: lock_table_inv_def)

lemmas lock_table_intros = lock_table_insert lock_table_remove locks_ok_filter locks_of_ok

lemma flock_inv: "lock_table_inv t \<Longrightarrow> lock_table_inv (fst (flock t pid inode op))"
proof -
  assume inv: "lock_table_inv t"
  have acq: "lock_table_inv (fst (acquire_flock t inode ty pid nb))" if "ty \<noteq> Unlock" for ty nb
    using that inv locks_ok_grant_flock [OF locks_of_ok [OF inv], of inode ty pid]
    by (auto simp: acquire_flock_def Let_def intro: lock_table_intros)
  have "lock_table_inv (fst (release_flock t inode pid))"
    using inv by (auto simp: release_flock_def Let_def lock_table_inv_def intro: locks_ok_filter
        split: option.splits if_splits)
  with inv acq show ?thesis by (simp add: flock_def Let_def)
qed

lemma setlk_inv:
  assumes "lock_table_inv t"
  shows "lock_table_inv (fst (setlk t inode fi pid b))"
proof (cases "l_type fi = F_UNLCK")
  case True
  with assms show ?thesis by (auto simp: setlk_def Let_def intro: lock_table_intros)
next
  case False
  let ?ty = "if l_type fi = F_RDLCK then ReadLock else WriteLock"
  have "?ty \<noteq> Unlock" by simp
  from locks_ok_grant_record [OF locks_of_ok [OF assms] this, of inode "l_start fi" "l_len fi" pid]
    False assms show ?thesis
    by (auto simp del: filter_append simp: setlk_def Let_def lock_table_insert locks_of_ok)
qed

lemma posix_lock_inv: "lock_table_inv t \<Longrightarrow> lock_table_inv (fst (posix_lock t pid inode cmd fi))"
  by (simp add: posix_lock_def split_beta setlk_inv)

lemma release_all_locks_inv:
  assumes "bt_wf t" and "lock_table_inv t"
  shows "lock_table_inv (release_all_locks t pid)"
  using assms
  by (auto simp: lock_table_inv_def release_all_locks_def bt_get_filter intro: locks_ok_filter)

lemma bt_wf_locks:
  assumes "bt_wf t"
  shows "bt_wf (fst (flock t pid inode op))" and "bt_wf (fst (posix_lock t pid inode cmd fi))"
    and "bt_wf (release_all_locks t pid)"
  using assms
  by (auto simp: flock_def acquire_flock_def release_flock_def posix_lock_def setlk_def Let_def
      split_beta release_all_locks_def split: option.splits)

datatype lock_op = LFlock u32 u64 i32 | LPosix u32 u64 i32 Flock | LExit u32

fun lock_step :: "lock_op \<Rightarrow> lock_table \<Rightarrow> lock_table" where
  "lock_step (LFlock pid inode op) t = fst (flock t pid inode op)"
| "lock_step (LPosix pid inode cmd fi) t = fst (posix_lock t pid inode cmd fi)"
| "lock_step (LExit pid) t = release_all_locks t pid"

interpretation lt: state_machine "[]" lock_step "\<lambda>t. bt_wf t \<and> lock_table_inv t"
proof
  show "bt_wf [] \<and> lock_table_inv []" by (simp add: lock_table_inv_def)
next
  fix s op assume "bt_wf s \<and> lock_table_inv s"
  then show "bt_wf (lock_step op s) \<and> lock_table_inv (lock_step op s)"
    by (cases op) (auto simp: bt_wf_locks flock_inv posix_lock_inv release_all_locks_inv)
qed

section \<open>Properties\<close>

text \<open>
  C15: mutual exclusion. After any sequence of \<open>flock\<close>, \<open>fcntl\<close> lock calls and process exits,
  two locks of one inode held by different processes are both shared, unless they are record
  locks on disjoint ranges (or one is a whole-file and the other a record lock); and a
  process has at most one whole-file lock on an inode.
\<close>

theorem locks_exclusive:
  assumes "bt_get (fold lock_step ops []) inode = Some ls" and "a \<in> set ls" and "b \<in> set ls"
    and "lock_pid a \<noteq> lock_pid b" and "is_flock a = is_flock b"
    and "\<not> is_flock a \<Longrightarrow> FileLock_overlaps a (lock_start b) (lock_len b)"
  shows "lock_type a = ReadLock \<and> lock_type b = ReadLock
    \<and> distinct (map lock_pid (filter is_flock ls))"
proof -
  have "lock_table_inv (fold lock_step ops [])" using lt.reachable_inv by blast
  with assms(1) have "locks_ok ls" by (auto simp: lock_table_inv_def)
  with assms(2-6) show ?thesis
    by (cases "is_flock a")
      (auto simp: locks_ok_def flock_clash_def record_clash_def FileLock_conflicts_with_def)
qed

text \<open>Two processes take shared whole-file locks on inode 9.\<close>

definition lock_demo :: "lock_op list" where
  "lock_demo = [LFlock 1 9 1, LFlock 2 9 1]"

theorem locks_exclusive_witness:
  "distinct (map lock_pid (filter is_flock (locks_of (fold lock_step lock_demo []) 9)))"
proof -
  let ?a = "\<lparr>lock_type = ReadLock, lock_pid = 1, lock_start = 0, lock_len = 0, is_flock = True\<rparr>"
  let ?b = "\<lparr>lock_type = ReadLock, lock_pid = 2, lock_start = 0, lock_len = 0, is_flock = True\<rparr>"
  have run: "fold lock_step lock_demo [] = [(9, [?a, ?b])]"
    by (simp add: lock_demo_def flock_def acquire_flock_def Let_def flock_consts locks_of_def
        FileLock_conflicts_with_def)
  then have "bt_get (fold lock_step lock_demo []) 9 = Some [?a, ?b]" by simp
  from locks_exclusive [OF this, of ?a ?b] show ?thesis
    unfolding run by (simp add: locks_of_def)
qed



text \<open>
  An unlock of any part of a record lock drops the whole lock: no remainder is kept on
  either side of the unlocked range.
\<close>

lemma unlock_drops_whole_lock:
  assumes "l_type fi = F_UNLCK" and "\<not> is_flock l" and "lock_pid l = pid"
    and "FileLock_overlaps l (l_start fi) (l_len fi)"
  shows "l \<notin> set (locks_of (fst (setlk t inode fi pid b)) inode)"
  using assms by (auto simp: setlk_def Let_def locks_of_def split: option.splits)

end
