(* ===== verification/Shm.thy ===== *)
theory Shm
  imports Btree
begin

text \<open>
  \<open>src/kernel/src/ipc/shm.rs\<close>: System V shared memory. Segments are found by key inside an
  IPC namespace; attachments are kept in a list beside the segments and counted in
  \<open>nattach\<close>. The clock, the calling process and its IPC namespace are arguments.
\<close>

section \<open>Data\<close>

definition IPC_PRIVATE :: u32 where "IPC_PRIVATE = 0"
definition IPC_CREAT :: u32 where "IPC_CREAT = 0x200"
definition IPC_EXCL :: u32 where "IPC_EXCL = 0x400"
definition IPC_RMID :: u32 where "IPC_RMID = 0"

record SharedMemory =
  shm_id :: u32
  shm_key :: u32
  shm_size :: nat
  shm_data :: "u8 list"
  shm_owner :: u32
  shm_mode :: u32
  nattach :: u32
  ctime :: u64
  atime :: u64
  dtime :: u64
  cpid :: u32
  lpid :: u32
  ipc_ns :: u64

definition SharedMemory_new ::
  "u64 \<Rightarrow> u32 \<Rightarrow> u32 \<Rightarrow> nat \<Rightarrow> u32 \<Rightarrow> u32 \<Rightarrow> u64 \<Rightarrow> SharedMemory" where
  "SharedMemory_new now i key sz owner mode ns =
     \<lparr>shm_id = i, shm_key = key, shm_size = sz, shm_data = replicate sz 0, shm_owner = owner,
      shm_mode = mode, nattach = 0, ctime = now, atime = 0, dtime = 0, cpid = owner, lpid = owner,
      ipc_ns = ns\<rparr>"

record ShmAttachment =
  att_shm_id :: u32
  att_pid :: u32
  att_addr :: u64
  att_readonly :: bool

record ShmState =
  segments :: "(u32, SharedMemory) btree"
  attachments :: "ShmAttachment list"
  next_shm_id :: u32
  next_shm_addr :: u64

definition ShmState_init :: ShmState where
  "ShmState_init = \<lparr>segments = [], attachments = [], next_shm_id = 1,
     next_shm_addr = 0x7FF000000000\<rparr>"

section \<open>Operations\<close>

definition key_match :: "u32 \<Rightarrow> u64 \<Rightarrow> SharedMemory \<Rightarrow> bool" where
  "key_match key ns seg \<longleftrightarrow> shm_key seg = key \<and> ipc_ns seg = ns"

definition shmget_in_ns ::
  "ShmState \<Rightarrow> u64 \<Rightarrow> u64 \<Rightarrow> u32 \<Rightarrow> u32 \<Rightarrow> nat \<Rightarrow> u32 \<Rightarrow> ShmState \<times> (errno + u32)" where
  "shmget_in_ns s now ns owner key sz fl =
     (let create =
        (if has_bits fl IPC_CREAT \<or> key = IPC_PRIVATE then
           let i = next_shm_id s in
           (s\<lparr>next_shm_id := i + 1,
              segments := bt_insert i (SharedMemory_new now i key sz owner (fl AND 0x1FF) ns)
                            (segments s)\<rparr>, Inr i)
         else (s, Inl ENOENT)) in
      if key \<noteq> IPC_PRIVATE then
        case find (\<lambda>e. key_match key ns (snd e)) (segments s) of
          Some e \<Rightarrow> if has_bits fl IPC_CREAT \<and> has_bits fl IPC_EXCL then (s, Inl EEXIST)
                    else (s, Inr (fst e))
        | None \<Rightarrow> create
      else create)"

text \<open>\<open>shmget\<close> looks the caller's namespace up; the lookup is the argument \<open>ns_of\<close>.\<close>

definition shmget ::
  "(u32 \<Rightarrow> u64) \<Rightarrow> ShmState \<Rightarrow> u64 \<Rightarrow> u32 \<Rightarrow> u32 \<Rightarrow> nat \<Rightarrow> u32 \<Rightarrow> ShmState \<times> (errno + u32)" where
  "shmget ns_of s now pid key sz fl = shmget_in_ns s now (ns_of pid) pid key sz fl"

definition has_shm_key :: "ShmState \<Rightarrow> u64 \<Rightarrow> u32 \<Rightarrow> bool" where
  "has_shm_key s ns key \<longleftrightarrow> (\<exists>seg \<in> set (bt_values (segments s)). key_match key ns seg)"

definition shmat :: "ShmState \<Rightarrow> u64 \<Rightarrow> u32 \<Rightarrow> u32 \<Rightarrow> u64 \<Rightarrow> u32 \<Rightarrow> ShmState \<times> (errno + u64)" where
  "shmat s now pid i shmaddr fl =
     (case bt_get (segments s) i of
        None \<Rightarrow> (s, Inl EINVAL)
      | Some seg \<Rightarrow>
          let step = (of_nat (shm_size seg) + 0xFFF) AND NOT 0xFFF;
              addr = (if shmaddr \<noteq> 0 then shmaddr else next_shm_addr s);
              s' = (if shmaddr \<noteq> 0 then s else s\<lparr>next_shm_addr := next_shm_addr s + step\<rparr>);
              seg' = seg\<lparr>nattach := nattach seg + 1, atime := now, lpid := pid\<rparr> in
          (s'\<lparr>segments := bt_insert i seg' (segments s'),
              attachments := attachments s' @ [\<lparr>att_shm_id = i, att_pid = pid, att_addr = addr,
                att_readonly = has_bits fl 0x1000\<rparr>]\<rparr>, Inr addr))"

definition shmdt :: "ShmState \<Rightarrow> u64 \<Rightarrow> u32 \<Rightarrow> u64 \<Rightarrow> ShmState \<times> (errno + unit)" where
  "shmdt s now pid shmaddr =
     (case position (\<lambda>a. att_pid a = pid \<and> att_addr a = shmaddr) (attachments s) of
        None \<Rightarrow> (s, Inl EINVAL)
      | Some pos \<Rightarrow>
          (s\<lparr>attachments := remove_at pos (attachments s),
             segments := bt_modify (att_shm_id (attachments s ! pos))
               (\<lambda>seg. seg\<lparr>nattach := sat_sub (nattach seg) 1, dtime := now, lpid := pid\<rparr>)
               (segments s)\<rparr>, Inr ()))"

definition shmctl :: "ShmState \<Rightarrow> u32 \<Rightarrow> u32 \<Rightarrow> ShmState \<times> (errno + unit)" where
  "shmctl s i cmd =
     (if cmd = IPC_RMID then
        case bt_get (segments s) i of
          None \<Rightarrow> (s, Inl EINVAL)
        | Some seg \<Rightarrow> if nattach seg = 0 then (s\<lparr>segments := bt_remove i (segments s)\<rparr>, Inr ())
                      else (s, Inr ())
      else (s, Inr ()))"

text \<open>\<open>shm_read\<close> and \<open>shm_write\<close> slice the segment's data, which panics out of range.\<close>

definition shm_read :: "ShmState \<Rightarrow> u32 \<Rightarrow> nat \<Rightarrow> u8 list \<Rightarrow> (u8 list \<times> (errno + nat)) exec" where
  "shm_read s i offset buf =
     (case bt_get (segments s) i of
        None \<Rightarrow> Done (buf, Inl EINVAL)
      | Some seg \<Rightarrow>
          if offset \<ge> shm_size seg then Done (buf, Inr 0)
          else let to_read = min (length buf) (shm_size seg - offset) in
            if offset + to_read \<le> length (shm_data seg)
            then Done (splice_at 0 (take to_read (drop offset (shm_data seg))) buf, Inr to_read)
            else Panic)"

definition shm_write :: "ShmState \<Rightarrow> u32 \<Rightarrow> nat \<Rightarrow> u8 list \<Rightarrow> (ShmState \<times> (errno + nat)) exec" where
  "shm_write s i offset data =
     (case bt_get (segments s) i of
        None \<Rightarrow> Done (s, Inl EINVAL)
      | Some seg \<Rightarrow>
          if offset \<ge> shm_size seg then Done (s, Inl EINVAL)
          else let to_write = min (length data) (shm_size seg - offset) in
            if offset + to_write \<le> length (shm_data seg)
            then Done (s\<lparr>segments := bt_insert i
                   (seg\<lparr>shm_data := splice_at offset (take to_write data) (shm_data seg)\<rparr>)
                   (segments s)\<rparr>, Inr to_write)
            else Panic)"

definition cleanup_process_shm :: "ShmState \<Rightarrow> u32 \<Rightarrow> ShmState" where
  "cleanup_process_shm s pid =
     (let to_detach = map att_shm_id (filter (\<lambda>a. att_pid a = pid) (attachments s)) in
      s\<lparr>attachments := filter (\<lambda>a. att_pid a \<noteq> pid) (attachments s),
        segments := fold (\<lambda>i. bt_modify i (\<lambda>seg. seg\<lparr>nattach := sat_sub (nattach seg) 1\<rparr>))
          to_detach (segments s)\<rparr>)"

section \<open>Invariant\<close>

text \<open>The number of attachments of a segment.\<close>

definition att_count :: "ShmAttachment list \<Rightarrow> u32 \<Rightarrow> nat" where
  "att_count as i = length (filter (\<lambda>a. att_shm_id a = i) as)"

definition shm_inv :: "ShmState \<Rightarrow> bool" where
  "shm_inv s \<longleftrightarrow> bt_wf (segments s)
     \<and> (\<forall>i seg. bt_get (segments s) i = Some seg \<longrightarrow>
          shm_id seg = i \<and> i < next_shm_id s \<and> length (shm_data seg) = shm_size seg
          \<and> unat (nattach seg) = att_count (attachments s) i)
     \<and> (\<forall>i j a b. bt_get (segments s) i = Some a \<longrightarrow> bt_get (segments s) j = Some b \<longrightarrow>
          shm_key a \<noteq> IPC_PRIVATE \<longrightarrow> key_match (shm_key a) (ipc_ns a) b \<longrightarrow> i = j)
     \<and> (\<forall>a \<in> set (attachments s). att_shm_id a < next_shm_id s)"

text \<open>The counters have not wrapped: fewer than \<open>2 ^ 32 - 1\<close> identifiers and attachments.\<close>

definition shm_room :: "ShmState \<Rightarrow> bool" where
  "shm_room s \<longleftrightarrow> next_shm_id s \<noteq> - 1 \<and> length (attachments s) < 2 ^ 32 - 1"

lemma att_count_Nil [simp]: "att_count [] i = 0"
  by (simp add: att_count_def)

lemma att_count_append [simp]: "att_count (as @ bs) i = att_count as i + att_count bs i"
  by (simp add: att_count_def)

lemma att_count_Cons [simp]:
  "att_count (a # as) i = (if att_shm_id a = i then Suc (att_count as i) else att_count as i)"
  by (simp add: att_count_def)

lemma att_count_le: "att_count as i \<le> length as"
  by (simp add: att_count_def)

lemma att_count_remove_at:
  "p < length as \<Longrightarrow> att_count (remove_at p as) i
     = att_count as i - (if att_shm_id (as ! p) = i then 1 else 0)"
proof (induction as arbitrary: p)
  case (Cons a as)
  then show ?case
  proof (cases p)
    case (Suc q)
    with Cons have IH: "att_count (remove_at q as) i
        = att_count as i - (if att_shm_id (as ! q) = i then 1 else 0)" by simp
    have "att_shm_id (as ! q) = i \<Longrightarrow> 0 < att_count as i"
      using Cons.prems Suc by (auto simp: att_count_def filter_empty_conv)
    with IH Suc show ?thesis by auto
  qed simp
qed simp

lemma att_count_0: "\<forall>a \<in> set as. att_shm_id a < i \<Longrightarrow> att_count as i = 0"
  by (auto simp: att_count_def filter_empty_conv)

lemma find_key_None:
  "find (\<lambda>e. key_match key ns (snd e)) m = None \<Longrightarrow> bt_get m i = Some seg \<Longrightarrow> \<not> key_match key ns seg"
  by (force simp: find_None_iff dest: map_of_SomeD)

lemma shm_invD:
  assumes "shm_inv s" and "bt_get (segments s) i = Some seg"
  shows "shm_id seg = i" "i < next_shm_id s" "length (shm_data seg) = shm_size seg"
    "unat (nattach seg) = att_count (attachments s) i"
  using assms by (auto simp: shm_inv_def)

lemma shm_inv_fresh: "shm_inv s \<Longrightarrow> bt_get (segments s) (next_shm_id s) = None"
  by (cases "bt_get (segments s) (next_shm_id s)") (auto simp: shm_inv_def)

text \<open>A change of one segment that keeps its identity and matches the new attachment list.\<close>

lemma shm_inv_update:
  assumes "shm_inv s" and "bt_get (segments s) i = Some seg"
    and "segments s' = bt_insert i seg' (segments s)" and "next_shm_id s' = next_shm_id s"
    and "shm_id seg' = shm_id seg" "shm_key seg' = shm_key seg" "ipc_ns seg' = ipc_ns seg"
      "shm_size seg' = shm_size seg" "length (shm_data seg') = length (shm_data seg)"
    and "unat (nattach seg') = att_count (attachments s') i"
    and "\<And>j. j \<noteq> i \<Longrightarrow> att_count (attachments s') j = att_count (attachments s) j"
    and "\<forall>a \<in> set (attachments s'). att_shm_id a < next_shm_id s"
  shows "shm_inv s'"
  using assms unfolding shm_inv_def
  by (auto simp: key_match_def split: if_splits)

lemma shmget_inv:
  assumes "shm_inv s" and "shm_room s"
  shows "shm_inv (fst (shmget_in_ns s now ns owner key sz fl))"
proof -
  let ?i = "next_shm_id s"
  let ?seg = "SharedMemory_new now ?i key sz owner (fl AND 0x1FF) ns"
  let ?s = "s\<lparr>next_shm_id := ?i + 1, segments := bt_insert ?i ?seg (segments s)\<rparr>"
  have lt: "j < ?i \<Longrightarrow> j < ?i + 1" "?i < ?i + 1" for j
    using assms(2) by (auto simp: shm_room_def intro: less_plus_1 self_less_plus_1)
  have 0: "att_count (attachments s) ?i = 0"
    using assms(1) by (intro att_count_0) (simp add: shm_inv_def)
  have new: "shm_inv ?s" if uniq: "key \<noteq> IPC_PRIVATE \<Longrightarrow>
      \<forall>j seg. bt_get (segments s) j = Some seg \<longrightarrow> \<not> key_match key ns seg"
    using assms(1) lt 0 uniq unfolding shm_inv_def
    by (auto simp: SharedMemory_new_def key_match_def split: if_splits)
  show ?thesis
  proof (cases "key \<noteq> IPC_PRIVATE \<and> (\<exists>e. find (\<lambda>e. key_match key ns (snd e)) (segments s) = Some e)")
    case True
    with assms(1) show ?thesis by (auto simp: shmget_in_ns_def Let_def)
  next
    case False
    then have "key \<noteq> IPC_PRIVATE \<Longrightarrow> find (\<lambda>e. key_match key ns (snd e)) (segments s) = None"
      by (metis not_Some_eq)
    moreover from this have "shm_inv ?s" using find_key_None [of key ns "segments s"] by (intro new) blast
    ultimately show ?thesis using assms(1) by (auto simp: shmget_in_ns_def Let_def)
  qed
qed

lemma shmat_inv:
  assumes "shm_inv s" and "shm_room s"
  shows "shm_inv (fst (shmat s now pid i shmaddr fl))"
proof (cases "bt_get (segments s) i")
  case None
  with assms show ?thesis by (simp add: shmat_def)
next
  case (Some seg)
  note D = shm_invD [OF assms(1) Some]
  have "att_count (attachments s) i < 2 ^ 32 - 1"
    using att_count_le [of "attachments s" i] assms(2) by (simp add: shm_room_def)
  then have "nattach seg \<noteq> - 1" using D(4) by auto
  then have n: "unat (nattach seg + 1) = Suc (att_count (attachments s) i)"
    using D(4) by (simp add: unat_plus_1)
  let ?seg = "seg\<lparr>nattach := nattach seg + 1, atime := now, lpid := pid\<rparr>"
  have upd: "shm_inv s'" if "segments s' = bt_insert i ?seg (segments s)"
      "next_shm_id s' = next_shm_id s" "attachments s' = attachments s @ [a]" "att_shm_id a = i"
    for s' a
    by (rule shm_inv_update [OF assms(1) Some that(1,2)])
      (use that(3,4) n D(2) assms(1) in \<open>simp_all add: shm_inv_def\<close>)
  show ?thesis
    by (rule upd [where a = "\<lparr>att_shm_id = i, att_pid = pid,
          att_addr = (if shmaddr \<noteq> 0 then shmaddr else next_shm_addr s),
          att_readonly = has_bits fl 0x1000\<rparr>"])
      (simp_all add: shmat_def Let_def Some)
qed

lemma sat_sub_count: "unat (w :: u32) = n \<Longrightarrow> unat (sat_sub w 1) = n - 1"
  by (simp add: unat_sat_sub)

lemma shm_inv_detach:
  assumes "shm_inv s" and "p < length (attachments s)" and "att_shm_id (attachments s ! p) = i"
    and "\<And>seg. shm_id (f seg) = shm_id seg \<and> shm_key (f seg) = shm_key seg
      \<and> ipc_ns (f seg) = ipc_ns seg \<and> shm_size (f seg) = shm_size seg
      \<and> shm_data (f seg) = shm_data seg \<and> nattach (f seg) = sat_sub (nattach seg) 1"
  shows "shm_inv (s\<lparr>attachments := remove_at p (attachments s), segments := bt_modify i f (segments s)\<rparr>)"
proof -
  have c: "att_count (remove_at p (attachments s)) j
      = att_count (attachments s) j - (if i = j then 1 else 0)" for j
    using att_count_remove_at [OF assms(2), of j] assms(3) by simp
  have "set (remove_at p (attachments s)) \<subseteq> set (attachments s)" by (rule set_remove_at_subset)
  with assms(1,4) c show ?thesis unfolding shm_inv_def
    by (auto simp: unat_sat_sub key_match_def split: if_splits)
qed

lemma shmdt_inv: "shm_inv s \<Longrightarrow> shm_inv (fst (shmdt s now pid addr))"
  by (auto simp: shmdt_def dest: position_lt intro!: shm_inv_detach split: option.splits)

lemma shmctl_inv: "shm_inv s \<Longrightarrow> shm_inv (fst (shmctl s i cmd))"
  by (auto simp: shmctl_def shm_inv_def split: option.splits if_splits)

lemma shm_write_inv:
  assumes "shm_inv s"
  shows "\<exists>s' r. shm_write s i off data = Done (s', r) \<and> shm_inv s'"
proof (cases "bt_get (segments s) i")
  case None
  with assms show ?thesis by (simp add: shm_write_def)
next
  case (Some seg)
  note D = shm_invD [OF assms(1) Some]
  let ?n = "min (length data) (shm_size seg - off)"
  let ?seg = "seg\<lparr>shm_data := splice_at off (take ?n data) (shm_data seg)\<rparr>"
  have "shm_inv (s\<lparr>segments := bt_insert i ?seg (segments s)\<rparr>)" if "off < shm_size seg"
    by (rule shm_inv_update [OF assms Some, where seg' = ?seg])
      (use that D assms in \<open>simp_all add: shm_inv_def\<close>)
  moreover have "off < shm_size seg \<Longrightarrow> off + ?n \<le> length (shm_data seg)" using D(3) by simp
  ultimately show ?thesis using Some assms by (auto simp: shm_write_def Let_def not_le)
qed

text \<open>Process exit: every detached segment loses one count per attachment.\<close>

lemma bt_get_fold_detach:
  "bt_get (fold (\<lambda>i. bt_modify i (\<lambda>seg. seg\<lparr>nattach := sat_sub (nattach seg) 1\<rparr>)) js m) j
     = map_option (\<lambda>seg. seg\<lparr>nattach := sat_sub (nattach seg) (of_nat (count_list js j))\<rparr>) (bt_get m j)"
  if "\<And>seg. bt_get m j = Some seg \<Longrightarrow> count_list js j \<le> unat (nattach seg)"
  using that
proof (induction js arbitrary: m)
  case Nil
  then show ?case by (cases "bt_get m j") (auto simp: sat_sub_def)
next
  case (Cons i js)
  let ?m = "bt_modify i (\<lambda>seg. seg\<lparr>nattach := sat_sub (nattach seg) 1\<rparr>) m"
  show ?case
  proof (cases "bt_get m j")
    case None
    then have "bt_get ?m j = None" by auto
    with Cons.IH [of ?m] None show ?thesis by auto
  next
    case (Some seg)
    have le: "count_list (i # js) j \<le> unat (nattach seg)" using Cons.prems Some by blast
    have w: "sat_sub (sat_sub (nattach seg) 1) (of_nat c) = sat_sub (nattach seg) (1 + of_nat c)"
      if "Suc c \<le> unat (nattach seg)" for c
    proof -
      have c: "c < 2 ^ 32" "Suc c < 2 ^ 32" using that unsigned_less [where 'a = nat, of "nattach seg"] by auto
      have "unat (of_nat (Suc c) :: u32) = Suc c" "unat (of_nat c :: u32) = c"
        using c by (intro unat_of_nat_small; simp)+
      then show ?thesis
        by (intro word_unat_eq_iff [THEN iffD2]) (simp add: unat_sat_sub flip: of_nat_Suc)
    qed
    have "bt_get (fold (\<lambda>i. bt_modify i (\<lambda>seg. seg\<lparr>nattach := sat_sub (nattach seg) 1\<rparr>)) js ?m) j
        = map_option (\<lambda>seg. seg\<lparr>nattach := sat_sub (nattach seg) (of_nat (count_list js j))\<rparr>) (bt_get ?m j)"
      by (rule Cons.IH) (use Some le in \<open>auto simp: unat_sat_sub split: if_splits\<close>)
    with Some le w show ?thesis by (auto split: if_splits)
  qed
qed

lemma count_list_att:
  "count_list (map att_shm_id (filter (\<lambda>a. att_pid a = pid) as)) j
     + att_count (filter (\<lambda>a. att_pid a \<noteq> pid) as) j = att_count as j"
  by (induction as) auto

lemma bt_wf_fold_modify: "bt_wf m \<Longrightarrow> bt_wf (fold (\<lambda>i. bt_modify i f) js m)"
  by (induction js arbitrary: m) auto

lemma fold_modify_None: "bt_get (fold (\<lambda>i. bt_modify i f) js m) j = None \<longleftrightarrow> bt_get m j = None"
  by (induction js arbitrary: m) auto

lemma cleanup_inv:
  assumes "shm_inv s"
  shows "shm_inv (cleanup_process_shm s pid)"
proof -
  let ?js = "map att_shm_id (filter (\<lambda>a. att_pid a = pid) (attachments s))"
  let ?as = "filter (\<lambda>a. att_pid a \<noteq> pid) (attachments s)"
  let ?m = "segments (cleanup_process_shm s pid)"
  have cnt: "count_list ?js j + att_count ?as j = att_count (attachments s) j" for j
    by (rule count_list_att)
  have get: "bt_get ?m j = map_option
      (\<lambda>seg. seg\<lparr>nattach := sat_sub (nattach seg) (of_nat (count_list ?js j))\<rparr>) (bt_get (segments s) j)" for j
    unfolding cleanup_process_shm_def Let_def
    by (simp, rule bt_get_fold_detach) (use shm_invD(4) [OF assms] cnt in \<open>metis le_add1\<close>)
  have n: "unat (sat_sub (nattach seg) (of_nat (count_list ?js j))) = att_count ?as j"
    if "bt_get (segments s) j = Some seg" for j seg
  proof -
    have "count_list ?js j < 2 ^ 32"
      using cnt [of j] shm_invD(4) [OF assms that] unsigned_less [where 'a = nat, of "nattach seg"] by simp
    then have "unat (of_nat (count_list ?js j) :: u32) = count_list ?js j"
      by (intro unat_of_nat_small) simp
    with cnt [of j] shm_invD(4) [OF assms that] show ?thesis by (simp add: unat_sat_sub)
  qed
  have "bt_wf ?m"
    using assms by (simp add: cleanup_process_shm_def Let_def bt_wf_fold_modify shm_inv_def)
  moreover have "attachments (cleanup_process_shm s pid) = ?as"
    "next_shm_id (cleanup_process_shm s pid) = next_shm_id s"
    by (simp_all add: cleanup_process_shm_def Let_def)
  ultimately show ?thesis using assms n unfolding shm_inv_def get
    by (auto simp: key_match_def)
qed

datatype shm_op = SGet u64 u64 u32 u32 nat u32 | SAttach u64 u32 u32 u64 u32 | SDetach u64 u32 u64
  | SCtl u32 u32 | SWrite u32 nat "u8 list" | SExit u32

fun shm_step :: "shm_op \<Rightarrow> ShmState \<Rightarrow> ShmState exec" where
  "shm_step (SGet now ns owner key sz fl) s = Done (fst (shmget_in_ns s now ns owner key sz fl))"
| "shm_step (SAttach now pid i addr fl) s = Done (fst (shmat s now pid i addr fl))"
| "shm_step (SDetach now pid addr) s = Done (fst (shmdt s now pid addr))"
| "shm_step (SCtl i cmd) s = Done (fst (shmctl s i cmd))"
| "shm_step (SWrite i off data) s = exec_bind (shm_write s i off data) (\<lambda>(s', r). Done s')"
| "shm_step (SExit pid) s = Done (cleanup_process_shm s pid)"

text \<open>An operation after which every segment is still there removes nothing.\<close>

lemma shm_step_grows:
  assumes "shm_step op s = Done s'" and "shm_inv s'"
    and "\<And>i seg. bt_get (segments s) i = Some seg \<Longrightarrow> bt_get (segments s') i \<noteq> None"
  shows "\<exists>s'. shm_step op s = Done s' \<and> shm_inv s'
    \<and> (\<forall>i seg. bt_get (segments s) i = Some seg \<and> bt_get (segments s') i = None
         \<longrightarrow> att_count (attachments s) i = 0 \<and> att_count (attachments s') i = 0)"
  using assms by blast

section \<open>Properties\<close>



text \<open>
  C35: what \<open>shm_write\<close> stores is what \<open>shm_read\<close> returns: after a write that reports \<open>n\<close>
  bytes, reading \<open>n\<close> bytes at the same offset yields the first \<open>n\<close> bytes of the data, and
  \<open>n\<close> is the data's length cut at the end of the segment.
\<close>

theorem shm_write_read:
  assumes "shm_inv s" and "shm_write s i off data = Done (s', Inr n)" and "length buf = n"
  shows "shm_read s' i off buf = Done (take n data, Inr n)
    \<and> (\<exists>seg. bt_get (segments s) i = Some seg \<and> n = min (length data) (shm_size seg - off))"
proof -
  from assms(2) obtain seg where get: "bt_get (segments s) i = Some seg" and off: "off < shm_size seg"
    and n: "n = min (length data) (shm_size seg - off)"
    and s': "s' = s\<lparr>segments := bt_insert i
        (seg\<lparr>shm_data := splice_at off (take n data) (shm_data seg)\<rparr>) (segments s)\<rparr>"
    by (auto simp: shm_write_def Let_def split: option.splits if_splits)
  have len: "length (shm_data seg) = shm_size seg" using shm_invD(3) [OF assms(1) get] .
  let ?d = "splice_at off (take n data) (shm_data seg)"
  have fit: "off + length (take n data) \<le> length (shm_data seg)" "length (take n data) = n"
    using off n len by auto
  have "take n (drop off ?d) = take n data"
    using take_drop_splice_at [OF fit(1)] fit(2) by simp
  moreover have "length ?d = shm_size seg" using fit(1) len by simp
  ultimately show ?thesis
    using off n get s' assms(3) fit by (simp add: shm_read_def Let_def splice_at_def)
qed

text \<open>A segment of four bytes.\<close>

definition shm_demo :: ShmState where
  "shm_demo = fst (shmget_in_ns ShmState_init 0 1 7 42 4 0x200)"

theorem shm_write_read_witness:
  "\<exists>s'. shm_write shm_demo 1 2 [9, 8, 7] = Done (s', Inr 2)
     \<and> shm_read s' 1 2 [0, 0] = Done ([9, 8], Inr 2)"
proof -
  have demo: "shm_demo = \<lparr>segments = [(1, SharedMemory_new 0 1 42 4 7 0 1)], attachments = [],
      next_shm_id = 2, next_shm_addr = 0x7FF000000000\<rparr>"
    by (simp add: shm_demo_def shmget_in_ns_def ShmState_init_def IPC_PRIVATE_def IPC_CREAT_def)
  have inv: "shm_inv shm_demo"
    by (simp add: demo shm_inv_def bt_wf_def SharedMemory_new_def)
  obtain s' where w: "shm_write shm_demo 1 2 [9, 8, 7] = Done (s', Inr 2)"
    by (simp add: demo shm_write_def SharedMemory_new_def)
  from shm_write_read [OF inv w, of "[0, 0]"] w show ?thesis by (simp add: numeral_2_eq_2)
qed

end
