(* ===== verification/Mqueue.thy ===== *)
theory Mqueue
  imports Btree Channel "HOL-Library.List_Lexorder" "HOL-Library.Char_ord"
begin

text \<open>
  \<open>src/kernel/src/ipc/mqueue.rs\<close>: POSIX message queues. Messages are kept in descending
  priority, in arrival order among equal priorities; every priority is a channel of its own
  (an instance of \<open>byte_channel\<close> with messages for bytes), and descriptors are counted in the
  queue they name.
\<close>

section \<open>Data\<close>

definition DEFAULT_MAX_MSGS :: i64 where "DEFAULT_MAX_MSGS = 10"
definition DEFAULT_MSG_SIZE :: i64 where "DEFAULT_MSG_SIZE = 8192"

definition O_CREAT :: i32 where "O_CREAT = 0x40"
definition O_EXCL :: i32 where "O_EXCL = 0x80"
definition O_NONBLOCK :: i32 where "O_NONBLOCK = 0x800"

record MqAttr =
  mq_flags :: i64
  mq_maxmsg :: i64
  mq_msgsize :: i64
  mq_curmsgs :: i64

definition MqAttr_default :: MqAttr where
  "MqAttr_default = \<lparr>mq_flags = 0, mq_maxmsg = DEFAULT_MAX_MSGS, mq_msgsize = DEFAULT_MSG_SIZE,
     mq_curmsgs = 0\<rparr>"

record Message =
  msg_data :: "u8 list"
  msg_priority :: u32

record MessageQueue =
  mq_name :: string
  mq_attr :: MqAttr
  messages :: "Message list"
  mq_mode :: u32
  owner_uid :: u32
  owner_gid :: u32
  unlink_pending :: bool
  open_count :: u32

record MqDescriptor =
  queue_name :: string
  desc_flags :: i32
  desc_pid :: u32

record MqState =
  mq_queues :: "(string, MessageQueue) btree"
  mq_descriptors :: "(i32, MqDescriptor) btree"
  next_mqfd :: i32

definition MqState_init :: MqState where
  "MqState_init = \<lparr>mq_queues = [], mq_descriptors = [], next_mqfd = 1000\<rparr>"

section \<open>Opening, closing, unlinking\<close>

definition mq_canonical :: "string \<Rightarrow> string" where
  "mq_canonical name = (case name of c # cs \<Rightarrow> if c = CHR ''/'' then name else CHR ''/'' # name
                                   | [] \<Rightarrow> ''/'')"

definition new_queue :: "string \<Rightarrow> u32 \<Rightarrow> MqAttr option \<Rightarrow> MessageQueue" where
  "new_queue name mode attr =
     (let qa = (case attr of None \<Rightarrow> MqAttr_default | Some a \<Rightarrow> a) in
      \<lparr>mq_name = name,
       mq_attr = \<lparr>mq_flags = 0,
                  mq_maxmsg = (if mq_maxmsg qa > 0 then mq_maxmsg qa else DEFAULT_MAX_MSGS),
                  mq_msgsize = (if mq_msgsize qa > 0 then mq_msgsize qa else DEFAULT_MSG_SIZE),
                  mq_curmsgs = 0\<rparr>,
       messages = [], mq_mode = mode, owner_uid = 0, owner_gid = 0, unlink_pending = False,
       open_count = 0\<rparr>)"

definition mq_open ::
  "MqState \<Rightarrow> u32 \<Rightarrow> string \<Rightarrow> i32 \<Rightarrow> u32 \<Rightarrow> MqAttr option \<Rightarrow> MqState \<times> (errno + i32)" where
  "mq_open s pid name0 oflag mode attr =
     (let name = mq_canonical name0; exists = (bt_get (mq_queues s) name \<noteq> None) in
      if oflag AND O_CREAT \<noteq> 0 \<and> oflag AND O_EXCL \<noteq> 0 \<and> exists then (s, Inl EEXIST)
      else if oflag AND O_CREAT = 0 \<and> \<not> exists then (s, Inl ENOENT)
      else let qs = (if exists then mq_queues s
                     else bt_insert name (new_queue name mode attr) (mq_queues s));
               qs' = bt_modify name (\<lambda>q. q\<lparr>open_count := open_count q + 1\<rparr>) qs;
               mqd = next_mqfd s in
        (\<lparr>mq_queues = qs',
          mq_descriptors = bt_insert mqd \<lparr>queue_name = name, desc_flags = oflag, desc_pid = pid\<rparr>
            (mq_descriptors s),
          next_mqfd = wrap_i32 (mqd + 1)\<rparr>, Inr mqd))"

definition mq_close :: "MqState \<Rightarrow> i32 \<Rightarrow> MqState \<times> (errno + unit)" where
  "mq_close s mqd =
     (case bt_get (mq_descriptors s) mqd of
        None \<Rightarrow> (s, Inl EBADF)
      | Some d \<Rightarrow>
          let s' = s\<lparr>mq_descriptors := bt_remove mqd (mq_descriptors s)\<rparr> in
          (case bt_get (mq_queues s) (queue_name d) of
             None \<Rightarrow> (s', Inr ())
           | Some q \<Rightarrow>
               let q' = q\<lparr>open_count := sat_sub (open_count q) 1\<rparr> in
               if open_count q' = 0 \<and> unlink_pending q'
               then (s'\<lparr>mq_queues := bt_remove (queue_name d) (mq_queues s)\<rparr>, Inr ())
               else (s'\<lparr>mq_queues := bt_insert (queue_name d) q' (mq_queues s)\<rparr>, Inr ())))"

definition mq_unlink :: "MqState \<Rightarrow> string \<Rightarrow> MqState \<times> (errno + unit)" where
  "mq_unlink s name0 =
     (let name = mq_canonical name0 in
      case bt_get (mq_queues s) name of
        None \<Rightarrow> (s, Inl ENOENT)
      | Some q \<Rightarrow>
          if open_count q > 0
          then (s\<lparr>mq_queues := bt_insert name (q\<lparr>unlink_pending := True\<rparr>) (mq_queues s)\<rparr>, Inr ())
          else (s\<lparr>mq_queues := bt_remove name (mq_queues s)\<rparr>, Inr ()))"

section \<open>Sending and receiving\<close>

text \<open>\<open>x as usize\<close> for an \<open>i64\<close>.\<close>

definition as_usize :: "i64 \<Rightarrow> nat" where
  "as_usize x = nat (x mod 2 ^ 64)"

text \<open>The insertion of \<open>mq_send\<close>: before the first message of lower priority.\<close>

definition insert_message :: "Message \<Rightarrow> Message list \<Rightarrow> Message list" where
  "insert_message msg ms =
     (case position (\<lambda>m. msg_priority m < msg_priority msg) ms of
        Some i \<Rightarrow> insert_at i msg ms
      | None \<Rightarrow> ms @ [msg])"

text \<open>What \<open>mq_send\<close> and \<open>mq_receive\<close> do to the queue the descriptor names.\<close>

definition queue_send :: "MessageQueue \<Rightarrow> u8 list \<Rightarrow> u32 \<Rightarrow> MessageQueue \<times> (errno + unit)" where
  "queue_send q data priority =
     (if length data > as_usize (mq_msgsize (mq_attr q)) then (q, Inl EMSGSIZE)
      else if length (messages q) \<ge> as_usize (mq_maxmsg (mq_attr q)) then (q, Inl EAGAIN)
      else (q\<lparr>messages := insert_message \<lparr>msg_data = data, msg_priority = priority\<rparr> (messages q),
              mq_attr := (mq_attr q)\<lparr>mq_curmsgs := mq_curmsgs (mq_attr q) + 1\<rparr>\<rparr>, Inr ()))"

definition queue_receive ::
  "MessageQueue \<Rightarrow> u8 list \<Rightarrow> MessageQueue \<times> u8 list \<times> (errno + nat \<times> u32)" where
  "queue_receive q buf =
     (if length buf < as_usize (mq_msgsize (mq_attr q)) then (q, buf, Inl EMSGSIZE)
      else case messages q of
        [] \<Rightarrow> (q, buf, Inl EAGAIN)
      | msg # rest \<Rightarrow>
          let copy_len = min (length (msg_data msg)) (length buf) in
          (q\<lparr>messages := rest, mq_attr := (mq_attr q)\<lparr>mq_curmsgs := mq_curmsgs (mq_attr q) - 1\<rparr>\<rparr>,
           splice_at 0 (take copy_len (msg_data msg)) buf, Inr (copy_len, msg_priority msg)))"

definition mq_send :: "MqState \<Rightarrow> i32 \<Rightarrow> u8 list \<Rightarrow> u32 \<Rightarrow> MqState \<times> (errno + unit)" where
  "mq_send s mqd data priority =
     (case bt_get (mq_descriptors s) mqd of
        None \<Rightarrow> (s, Inl EBADF)
      | Some d \<Rightarrow>
          (case bt_get (mq_queues s) (queue_name d) of
             None \<Rightarrow> (s, Inl EBADF)
           | Some q \<Rightarrow>
               let (q', r) = queue_send q data priority in
               (s\<lparr>mq_queues := bt_insert (queue_name d) q' (mq_queues s)\<rparr>, r)))"

definition mq_receive ::
  "MqState \<Rightarrow> i32 \<Rightarrow> u8 list \<Rightarrow> MqState \<times> u8 list \<times> (errno + nat \<times> u32)" where
  "mq_receive s mqd buf =
     (case bt_get (mq_descriptors s) mqd of
        None \<Rightarrow> (s, buf, Inl EBADF)
      | Some d \<Rightarrow>
          (case bt_get (mq_queues s) (queue_name d) of
             None \<Rightarrow> (s, buf, Inl EBADF)
           | Some q \<Rightarrow>
               let (q', buf', r) = queue_receive q buf in
               (s\<lparr>mq_queues := bt_insert (queue_name d) q' (mq_queues s)\<rparr>, buf', r)))"

definition mq_getattr :: "MqState \<Rightarrow> i32 \<Rightarrow> errno + MqAttr" where
  "mq_getattr s mqd =
     (case bt_get (mq_descriptors s) mqd of
        None \<Rightarrow> Inl EBADF
      | Some d \<Rightarrow> (case bt_get (mq_queues s) (queue_name d) of
                     None \<Rightarrow> Inl EBADF | Some q \<Rightarrow> Inr (mq_attr q)))"

definition mq_setattr :: "MqState \<Rightarrow> i32 \<Rightarrow> MqAttr \<Rightarrow> MqState \<times> (errno + MqAttr)" where
  "mq_setattr s mqd new_attr =
     (case bt_get (mq_descriptors s) mqd of
        None \<Rightarrow> (s, Inl EBADF)
      | Some d \<Rightarrow>
          (case bt_get (mq_queues s) (queue_name d) of
             None \<Rightarrow> (s, Inl EBADF)
           | Some q \<Rightarrow>
               (s\<lparr>mq_queues := bt_insert (queue_name d)
                    (q\<lparr>mq_attr := (mq_attr q)\<lparr>mq_flags := mq_flags new_attr\<rparr>\<rparr>) (mq_queues s)\<rparr>,
                Inr (mq_attr q))))"

definition list_queues :: "MqState \<Rightarrow> (string \<times> MqAttr) list" where
  "list_queues s = map (\<lambda>(name, q). (name, mq_attr q)) (mq_queues s)"

section \<open>One queue\<close>

abbreviation by_priority :: "Message list \<Rightarrow> bool" where
  "by_priority \<equiv> sorted_wrt (\<lambda>a b. msg_priority a \<ge> msg_priority b)"

text \<open>The messages of one priority.\<close>

definition lane :: "u32 \<Rightarrow> Message list \<Rightarrow> Message list" where
  "lane p ms = filter (\<lambda>m. msg_priority m = p) ms"

definition queue_inv :: "MessageQueue \<Rightarrow> bool" where
  "queue_inv q \<longleftrightarrow> by_priority (messages q)
     \<and> 0 < mq_maxmsg (mq_attr q) \<and> mq_maxmsg (mq_attr q) < 2 ^ 63
     \<and> 0 < mq_msgsize (mq_attr q) \<and> mq_msgsize (mq_attr q) < 2 ^ 63
     \<and> mq_curmsgs (mq_attr q) = int (length (messages q))
     \<and> int (length (messages q)) \<le> mq_maxmsg (mq_attr q)
     \<and> (\<forall>m \<in> set (messages q). int (length (msg_data m)) \<le> mq_msgsize (mq_attr q))"

lemma as_usize_id [simp]: "0 \<le> x \<Longrightarrow> x < 2 ^ 64 \<Longrightarrow> as_usize x = nat x"
  by (simp add: as_usize_def)

lemma insert_message_simps [simp]:
  "insert_message msg [] = [msg]"
  "insert_message msg (m # ms) =
     (if msg_priority m < msg_priority msg then msg # m # ms else m # insert_message msg ms)"
  by (auto simp: insert_message_def simp del: position_None split: option.splits)

lemma mset_insert_message: "mset (insert_message msg ms) = add_mset msg (mset ms)"
  by (induction ms) auto

lemma set_insert_message [simp]: "set (insert_message msg ms) = insert msg (set ms)"
  by (induction ms) auto

lemma length_insert_message [simp]: "length (insert_message msg ms) = Suc (length ms)"
  by (induction ms) auto

lemma by_priority_insert: "by_priority ms \<Longrightarrow> by_priority (insert_message msg ms)"
  by (induction ms) auto

lemma lane_simps [simp]:
  "lane p [] = []" "lane p (m # ms) = (if msg_priority m = p then m # lane p ms else lane p ms)"
  by (simp_all add: lane_def)

lemma lane_insert:
  "by_priority ms \<Longrightarrow> lane p (insert_message msg ms)
     = lane p ms @ (if msg_priority msg = p then [msg] else [])"
proof (induction ms)
  case (Cons m ms)
  have "msg_priority m < msg_priority msg \<Longrightarrow> lane (msg_priority msg) (m # ms) = []"
    using Cons.prems by (fastforce simp: lane_def filter_empty_conv)
  with Cons show ?case by auto
qed simp

lemma new_queue_inv:
  "(\<forall>a. attr = Some a \<longrightarrow> mq_maxmsg a < 2 ^ 63 \<and> mq_msgsize a < 2 ^ 63)
    \<Longrightarrow> queue_inv (new_queue name mode attr)"
  by (auto simp: queue_inv_def new_queue_def Let_def MqAttr_default_def DEFAULT_MAX_MSGS_def
      DEFAULT_MSG_SIZE_def split: option.splits)

lemma queue_send_inv: "queue_inv q \<Longrightarrow> queue_inv (fst (queue_send q data prio))"
  by (auto simp: queue_send_def queue_inv_def by_priority_insert)

lemma queue_receive_inv: "queue_inv q \<Longrightarrow> queue_inv (fst (queue_receive q buf))"
  by (auto simp: queue_receive_def queue_inv_def Let_def split: list.splits)

datatype queue_op = QSend "u8 list" u32 | QReceive "u8 list"

text \<open>One operation, with the messages it accepted and delivered on priority \<open>p\<close>.\<close>

fun lane_step :: "u32 \<Rightarrow> MessageQueue \<Rightarrow> queue_op \<Rightarrow> (MessageQueue \<times> Message list \<times> Message list) exec" where
  "lane_step p q (QSend data prio) =
     (case queue_send q data prio of
        (q', Inl _) \<Rightarrow> Done (q', [], [])
      | (q', Inr _) \<Rightarrow> Done (q', lane p [\<lparr>msg_data = data, msg_priority = prio\<rparr>], []))"
| "lane_step p q (QReceive buf) =
     (case queue_receive q buf of
        (q', buf', Inl _) \<Rightarrow> Done (q', [], [])
      | (q', buf', Inr (n, prio)) \<Rightarrow>
          Done (q', [], lane p [\<lparr>msg_data = take n buf', msg_priority = prio\<rparr>]))"

interpretation ml: byte_channel "\<lambda>q. lane p (messages q)" queue_inv "lane_step p" for p
proof
  fix q op assume inv: "queue_inv q"
  show "\<exists>q' a d. lane_step p q op = Done (q', a, d) \<and> queue_inv q'
      \<and> lane p (messages q) @ a = d @ lane p (messages q')"
  proof (cases op)
    case (QSend data prio)
    have "by_priority (messages q)" using inv by (simp add: queue_inv_def)
    with QSend inv queue_send_inv [OF inv, of data prio] show ?thesis
      by (auto simp: queue_send_def lane_insert split: if_splits)
  next
    case (QReceive buf)
    have fits: "length (msg_data m) \<le> length buf"
      if "m \<in> set (messages q)" "\<not> length buf < as_usize (mq_msgsize (mq_attr q))" for m
      using that inv by (fastforce simp: queue_inv_def)
    with QReceive inv queue_receive_inv [OF inv, of buf] show ?thesis
      by (cases "messages q") (simp_all add: queue_receive_def Let_def splice_at_def split: if_splits)
  qed
qed

section \<open>The table\<close>

definition desc_count :: "MqState \<Rightarrow> string \<Rightarrow> nat" where
  "desc_count s name = bt_count (\<lambda>d. queue_name d = name) (mq_descriptors s)"

definition mq_inv :: "MqState \<Rightarrow> bool" where
  "mq_inv s \<longleftrightarrow> bt_wf (mq_descriptors s)
     \<and> (\<forall>name q. bt_get (mq_queues s) name = Some q \<longrightarrow>
          queue_inv q \<and> unat (open_count q) = desc_count s name
          \<and> (unlink_pending q \<longrightarrow> open_count q \<noteq> 0))
     \<and> (\<forall>fd d. bt_get (mq_descriptors s) fd = Some d \<longrightarrow>
          fd < next_mqfd s \<and> bt_get (mq_queues s) (queue_name d) \<noteq> None)"

text \<open>The counters after \<open>n\<close> operations.\<close>

definition mq_counted :: "nat \<Rightarrow> MqState \<Rightarrow> bool" where
  "mq_counted n s \<longleftrightarrow> mq_inv s \<and> 0 \<le> next_mqfd s \<and> next_mqfd s \<le> 1000 + int n
     \<and> length (mq_descriptors s) \<le> n"

datatype mq_op = MOpen u32 string i32 u32 "MqAttr option" | MClose i32 | MUnlink string
  | MSend i32 "u8 list" u32 | MReceive i32 "u8 list" | MSetattr i32 MqAttr

fun mq_step :: "mq_op \<Rightarrow> MqState \<Rightarrow> MqState" where
  "mq_step (MOpen pid name fl mode attr) s = fst (mq_open s pid name fl mode attr)"
| "mq_step (MClose fd) s = fst (mq_close s fd)"
| "mq_step (MUnlink name) s = fst (mq_unlink s name)"
| "mq_step (MSend fd data prio) s = fst (mq_send s fd data prio)"
| "mq_step (MReceive fd buf) s = fst (mq_receive s fd buf)"
| "mq_step (MSetattr fd attr) s = fst (mq_setattr s fd attr)"

text \<open>The attribute limits are \<open>i64\<close> values.\<close>

fun mq_op_ok :: "mq_op \<Rightarrow> bool" where
  "mq_op_ok (MOpen pid name fl mode (Some a)) \<longleftrightarrow> mq_maxmsg a < 2 ^ 63 \<and> mq_msgsize a < 2 ^ 63"
| "mq_op_ok _ \<longleftrightarrow> True"

text \<open>Replacing a queue by one with the same accounting.\<close>

lemma mq_inv_replace:
  assumes "mq_inv s" and "bt_get (mq_queues s) name = Some q" and "queue_inv q'"
    and "open_count q' = open_count q" and "unlink_pending q' = unlink_pending q"
  shows "mq_inv (s\<lparr>mq_queues := bt_insert name q' (mq_queues s)\<rparr>)"
  using assms unfolding mq_inv_def by (auto simp: desc_count_def)

lemma queue_send_frame:
  "open_count (fst (queue_send q data prio)) = open_count q"
  "unlink_pending (fst (queue_send q data prio)) = unlink_pending q"
  by (simp_all add: queue_send_def)

lemma queue_receive_frame:
  "open_count (fst (queue_receive q buf)) = open_count q"
  "unlink_pending (fst (queue_receive q buf)) = unlink_pending q"
  by (simp_all add: queue_receive_def Let_def split: list.splits)

lemma mq_inv_queue: "mq_inv s \<Longrightarrow> bt_get (mq_queues s) name = Some q \<Longrightarrow> queue_inv q"
  by (simp add: mq_inv_def)

lemma mq_send_inv: "mq_inv s \<Longrightarrow> mq_inv (fst (mq_send s fd data prio))"
  by (auto simp: mq_send_def split_beta queue_send_frame
      intro!: mq_inv_replace queue_send_inv mq_inv_queue split: option.splits)

lemma mq_receive_inv: "mq_inv s \<Longrightarrow> mq_inv (fst (mq_receive s fd buf))"
  by (auto simp: mq_receive_def split_beta queue_receive_frame
      intro!: mq_inv_replace queue_receive_inv mq_inv_queue split: option.splits)

lemma mq_setattr_inv: "mq_inv s \<Longrightarrow> mq_inv (fst (mq_setattr s fd attr))"
  by (auto simp: mq_setattr_def queue_inv_def dest: mq_inv_queue
      intro!: mq_inv_replace split: option.splits)

lemma mq_unlink_inv: "mq_inv s \<Longrightarrow> mq_inv (fst (mq_unlink s name))"
proof -
  assume inv: "mq_inv s"
  have none: "\<not> (\<exists>fd d. bt_get (mq_descriptors s) fd = Some d \<and> queue_name d = n)"
    if "bt_get (mq_queues s) n = Some q" "open_count q = 0" for n q
    using that inv bt_count_pos [of "mq_descriptors s" _ _ "\<lambda>d. queue_name d = n"]
    by (fastforce simp: mq_inv_def desc_count_def)
  have q: "queue_inv (q\<lparr>unlink_pending := True\<rparr>) = queue_inv q" for q
    by (simp add: queue_inv_def)
  show ?thesis
  proof (cases "bt_get (mq_queues s) (mq_canonical name)")
    case None
    with inv show ?thesis by (simp add: mq_unlink_def)
  next
    case (Some q)
    show ?thesis
    proof (cases "open_count q = 0")
      case True
      with Some none [OF Some True] inv show ?thesis
        unfolding mq_inv_def by (auto simp: mq_unlink_def desc_count_def)
    next
      case False
      with Some inv q show ?thesis
        unfolding mq_inv_def by (auto simp: mq_unlink_def desc_count_def word_gt_0)
    qed
  qed
qed

lemma mq_close_inv:
  assumes "mq_inv s"
  shows "mq_inv (fst (mq_close s fd))"
proof (cases "bt_get (mq_descriptors s) fd")
  case None
  with assms show ?thesis by (simp add: mq_close_def)
next
  case (Some d)
  let ?n = "queue_name d"
  let ?s = "s\<lparr>mq_descriptors := bt_remove fd (mq_descriptors s)\<rparr>"
  from assms Some obtain q where q: "bt_get (mq_queues s) ?n = Some q"
    unfolding mq_inv_def by blast
  have wf: "bt_wf (mq_descriptors s)" using assms by (simp add: mq_inv_def)
  have cnt: "desc_count ?s name = desc_count s name - (if name = ?n then 1 else 0)" for name
    using bt_count_remove [OF wf Some, of "\<lambda>d. queue_name d = name"]
    by (auto simp: desc_count_def)
  have pos: "0 < desc_count s ?n"
    using bt_count_pos [OF Some, of "\<lambda>d'. queue_name d' = ?n"] by (simp add: desc_count_def)
  let ?q = "q\<lparr>open_count := sat_sub (open_count q) 1\<rparr>"
  have oc: "unat (open_count ?q) = desc_count ?s ?n" "queue_inv ?q"
    using assms q cnt by (auto simp: mq_inv_def unat_sat_sub queue_inv_def)
  have other: "queue_name d' \<noteq> ?n" if "open_count ?q = 0" "bt_get (mq_descriptors ?s) fd' = Some d'"
    for fd' d'
    using that oc(1) bt_count_pos [of "mq_descriptors ?s" fd' d' "\<lambda>d. queue_name d = ?n"]
    by (auto simp: desc_count_def)
  show ?thesis
  proof (cases "open_count ?q = 0 \<and> unlink_pending ?q")
    case True
    have "mq_inv (?s\<lparr>mq_queues := bt_remove ?n (mq_queues s)\<rparr>)"
      using assms wf cnt other True unfolding mq_inv_def by (auto simp: desc_count_def split: if_splits)
    with True Some q show ?thesis by (simp add: mq_close_def Let_def)
  next
    case False
    have "mq_inv (?s\<lparr>mq_queues := bt_insert ?n ?q (mq_queues s)\<rparr>)"
      using assms wf cnt oc False unfolding mq_inv_def by (auto simp: desc_count_def split: if_splits)
    with False Some q show ?thesis by (auto simp: mq_close_def Let_def)
  qed
qed

lemma desc_count_none:
  assumes "mq_inv s" and "bt_get (mq_queues s) name = None"
  shows "desc_count s name = 0"
proof -
  have "queue_name (snd e) \<noteq> name" if "e \<in> set (mq_descriptors s)" for e
  proof -
    have "bt_wf (mq_descriptors s)" using assms(1) by (simp add: mq_inv_def)
    then have "bt_get (mq_descriptors s) (fst e) = Some (snd e)"
      using that by (metis bt_wf_distinct map_of_is_SomeI prod.collapse)
    with assms show ?thesis unfolding mq_inv_def by blast
  qed
  then show ?thesis by (simp add: desc_count_def bt_count_def filter_empty_conv)
qed

lemma mq_open_inv:
  assumes "mq_counted n s" and "n < 2 ^ 31 - 1001"
    and attr: "\<forall>a. attr = Some a \<longrightarrow> mq_maxmsg a < 2 ^ 63 \<and> mq_msgsize a < 2 ^ 63"
  shows "mq_counted (Suc n) (fst (mq_open s pid name0 oflag mode attr))"
proof -
  let ?n = "mq_canonical name0"
  let ?fd = "next_mqfd s"
  let ?d = "\<lparr>queue_name = ?n, desc_flags = oflag, desc_pid = pid\<rparr>"
  let ?ds = "bt_insert ?fd ?d (mq_descriptors s)"
  define q where "q = (case bt_get (mq_queues s) ?n of None \<Rightarrow> new_queue ?n mode attr | Some q \<Rightarrow> q)"
  let ?q = "q\<lparr>open_count := open_count q + 1\<rparr>"
  have inv: "mq_inv s" and fd: "0 \<le> ?fd" "?fd \<le> 1000 + int n"
    and len: "length (mq_descriptors s) \<le> n"
    using assms(1) by (auto simp: mq_counted_def)
  have wf: "bt_wf (mq_descriptors s)" using inv by (simp add: mq_inv_def)
  have fresh: "bt_get (mq_descriptors s) ?fd = None"
    using inv unfolding mq_inv_def by (metis less_irrefl not_None_eq)
  have wrap: "wrap_i32 (?fd + 1) = ?fd + 1"
    using fd assms(2) by (simp add: wrap_i32_id)
  have oc: "unat (open_count q) = desc_count s ?n" "queue_inv q"
  proof -
    show "queue_inv q"
      using inv new_queue_inv [OF attr] by (auto simp: q_def mq_inv_def split: option.splits)
    show "unat (open_count q) = desc_count s ?n"
      using inv desc_count_none [OF inv, of ?n]
      by (auto simp: q_def mq_inv_def new_queue_def Let_def split: option.splits)
  qed
  have small: "desc_count s ?n \<le> n"
    unfolding desc_count_def using bt_count_le len by (rule le_trans)
  have oc': "unat (open_count ?q) = Suc (desc_count s ?n)" "queue_inv ?q"
  proof -
    have "unat (open_count q) < 2 ^ 32 - 1" using oc(1) small assms(2) by simp
    then have "open_count q \<noteq> - 1" by (auto simp: unat_u32_max)
    then show "unat (open_count ?q) = Suc (desc_count s ?n)" using oc(1) by (simp add: unat_plus_1)
    show "queue_inv ?q" using oc(2) by (simp add: queue_inv_def)
  qed
  have cnt: "bt_count (\<lambda>d. queue_name d = name) ?ds = desc_count s name + (if name = ?n then 1 else 0)"
    for name using bt_count_insert [OF fresh] by (auto simp: desc_count_def)
  have queues: "bt_get (mq_queues (fst (mq_open s pid name0 oflag mode attr)))
        = (bt_get (mq_queues s))(?n \<mapsto> ?q)"
    "mq_descriptors (fst (mq_open s pid name0 oflag mode attr)) = ?ds"
    "next_mqfd (fst (mq_open s pid name0 oflag mode attr)) = ?fd + 1"
    if "fst (mq_open s pid name0 oflag mode attr) \<noteq> s"
    using that wrap
    by (auto simp: mq_open_def Let_def q_def fun_eq_iff split: if_splits option.splits)
  show ?thesis
  proof (cases "fst (mq_open s pid name0 oflag mode attr) = s")
    case True
    then show ?thesis unfolding True using assms(1) by (simp add: mq_counted_def)
  next
    case False
    have "length ?ds \<le> Suc n" using length_bt_insert [of ?fd ?d "mq_descriptors s"] len by simp
    moreover have "fd' \<le> ?fd" if "bt_get (mq_descriptors s) fd' = Some d'" for fd' d'
      using inv that unfolding mq_inv_def by (meson less_imp_le)
    moreover have "open_count ?q \<noteq> 0" using oc'(1) by (metis nat.simps(3) unat_0)
    ultimately show ?thesis
      using inv wf fd cnt oc' unfolding mq_counted_def mq_inv_def desc_count_def queues [OF False]
      by (auto simp: desc_count_def split: if_splits)
  qed
qed

fun is_open :: "mq_op \<Rightarrow> bool" where
  "is_open (MOpen pid name fl mode attr) \<longleftrightarrow> True"
| "is_open _ \<longleftrightarrow> False"

lemma mq_frame:
  "next_mqfd (fst (mq_unlink s name)) = next_mqfd s"
  "mq_descriptors (fst (mq_unlink s name)) = mq_descriptors s"
  "next_mqfd (fst (mq_send s fd data prio)) = next_mqfd s"
  "mq_descriptors (fst (mq_send s fd data prio)) = mq_descriptors s"
  "next_mqfd (fst (mq_receive s fd buf)) = next_mqfd s"
  "mq_descriptors (fst (mq_receive s fd buf)) = mq_descriptors s"
  "next_mqfd (fst (mq_setattr s fd attr)) = next_mqfd s"
  "mq_descriptors (fst (mq_setattr s fd attr)) = mq_descriptors s"
  "next_mqfd (fst (mq_close s fd)) = next_mqfd s"
  by (simp_all add: mq_unlink_def mq_send_def mq_receive_def mq_setattr_def mq_close_def Let_def
      split_beta split: option.splits)

lemma mq_close_descriptors: "length (mq_descriptors (fst (mq_close s fd))) \<le> length (mq_descriptors s)"
  by (simp add: mq_close_def Let_def bt_remove_def split: option.splits)

lemma mq_step_descriptors:
  "\<not> is_open op \<Longrightarrow> next_mqfd (mq_step op s) = next_mqfd s
     \<and> length (mq_descriptors (mq_step op s)) \<le> length (mq_descriptors s)"
  by (cases op) (simp_all add: mq_frame mq_close_descriptors)

lemma mq_step_inv: "\<not> is_open op \<Longrightarrow> mq_inv s \<Longrightarrow> mq_inv (mq_step op s)"
  by (cases op)
    (simp_all add: mq_close_inv mq_unlink_inv mq_send_inv mq_receive_inv mq_setattr_inv)

interpretation mq: counted_machine MqState_init mq_step mq_op_ok mq_counted "2 ^ 31 - 1001"
proof
  show "mq_counted 0 MqState_init"
    by (simp add: mq_counted_def mq_inv_def MqState_init_def)
next
  fix n s op assume n: "n < 2 ^ 31 - (1001::nat)" and inv: "mq_counted n s" and ok: "mq_op_ok op"
  show "mq_counted (Suc n) (mq_step op s)"
  proof (cases "is_open op")
    case True
    then obtain pid name fl mode attr where op: "op = MOpen pid name fl mode attr"
      by (cases op) auto
    with ok have "\<forall>a. attr = Some a \<longrightarrow> mq_maxmsg a < 2 ^ 63 \<and> mq_msgsize a < 2 ^ 63" by auto
    from mq_open_inv [OF inv n this] op show ?thesis by simp
  next
    case False
    from inv have "mq_inv s" by (simp add: mq_counted_def)
    with False have "mq_inv (mq_step op s)" by (rule mq_step_inv)
    with mq_step_descriptors [OF False, of s] inv show ?thesis by (auto simp: mq_counted_def)
  qed
qed

lemma queue_receive_spec:
  assumes "queue_inv q" and r: "queue_receive q buf = (q', buf', Inr (n, prio))"
  shows "\<exists>msg. messages q = msg # messages q' \<and> take n buf' = msg_data msg \<and> prio = msg_priority msg
     \<and> (\<forall>m \<in> set (messages q'). msg_priority m \<le> prio)"
proof (cases "messages q")
  case Nil
  with r show ?thesis by (simp add: queue_receive_def split: if_splits)
next
  case (Cons msg rest)
  have big: "as_usize (mq_msgsize (mq_attr q)) \<le> length buf"
    using r by (simp add: queue_receive_def split: if_splits)
  with assms(1) Cons have "length (msg_data msg) \<le> length buf"
    by (auto simp: queue_inv_def)
  moreover from assms(1) Cons have "\<forall>m \<in> set rest. msg_priority m \<le> msg_priority msg"
    by (simp add: queue_inv_def)
  ultimately show ?thesis
    using r Cons big by (auto simp: queue_receive_def Let_def splice_at_def)
qed

section \<open>Properties\<close>

text \<open>C22: On a freshly created queue, any sequence of sends (some refused) and receives
  (some refused) completes, and for every priority the accepted messages of that priority
  come out complete and in the order in which they were sent: those delivered, followed by
  those still queued, are those accepted.\<close>

theorem mq_lane_fifo:
  assumes "\<forall>a. attr = Some a \<longrightarrow> mq_maxmsg a < 2 ^ 63 \<and> mq_msgsize a < 2 ^ 63"
  shows "\<exists>q' a d. chan_run (lane_step p) (new_queue name mode attr) ops = Done (q', a, d)
     \<and> a = d @ lane p (messages q')"
proof -
  have "lane p (messages (new_queue name mode attr)) = []" by (simp add: new_queue_def Let_def)
  with ml.run_flow [OF new_queue_inv [OF assms], where p = p and ops = ops, of name mode]
  show ?thesis by auto
qed

theorem mq_lane_fifo_witness:
  "chan_run (lane_step 1) (new_queue ''/q'' 0 (Some \<lparr>mq_flags = 0, mq_maxmsg = 2, mq_msgsize = 1, mq_curmsgs = 0\<rparr>))
     [QSend [7] 1, QSend [8] 2, QSend [9] 1, QReceive [0], QReceive [0]]
   = Done (\<lparr>mq_name = ''/q'', mq_attr = \<lparr>mq_flags = 0, mq_maxmsg = 2, mq_msgsize = 1, mq_curmsgs = 0\<rparr>,
       messages = [], mq_mode = 0, owner_uid = 0, owner_gid = 0, unlink_pending = False, open_count = 0\<rparr>,
     [\<lparr>msg_data = [7], msg_priority = 1\<rparr>], [\<lparr>msg_data = [7], msg_priority = 1\<rparr>])
   \<and> (\<exists>q' a d. chan_run (lane_step 1) (new_queue ''/q'' 0
        (Some \<lparr>mq_flags = 0, mq_maxmsg = 2, mq_msgsize = 1, mq_curmsgs = 0\<rparr>))
        [QSend [7] 1, QSend [8] 2, QSend [9] 1, QReceive [0], QReceive [0]] = Done (q', a, d)
      \<and> a = d @ lane 1 (messages q'))"
proof
  show "chan_run (lane_step 1) (new_queue ''/q'' 0 (Some \<lparr>mq_flags = 0, mq_maxmsg = 2, mq_msgsize = 1, mq_curmsgs = 0\<rparr>))
     [QSend [7] 1, QSend [8] 2, QSend [9] 1, QReceive [0], QReceive [0]]
   = Done (\<lparr>mq_name = ''/q'', mq_attr = \<lparr>mq_flags = 0, mq_maxmsg = 2, mq_msgsize = 1, mq_curmsgs = 0\<rparr>,
       messages = [], mq_mode = 0, owner_uid = 0, owner_gid = 0, unlink_pending = False, open_count = 0\<rparr>,
     [\<lparr>msg_data = [7], msg_priority = 1\<rparr>], [\<lparr>msg_data = [7], msg_priority = 1\<rparr>])"
    by (simp add: new_queue_def queue_send_def queue_receive_def splice_at_def)
qed (rule mq_lane_fifo, simp)



end
