(* ===== verification/Layout.thy ===== *)
theory Layout
  imports Prelude
begin

text \<open>
  \<open>src/kernel/src/mm/vmm/layout.rs\<close> and \<open>region.rs\<close>: the constants of the user address
  space, the randomised bases, the alignment of addresses to pages, and the types of a mapping.
  The entropy that \<open>aslr_offset\<close> takes from \<open>crate::random\<close> is an argument: \<open>None\<close> when the
  generator is not initialised, otherwise the number it returned.
\<close>

section \<open>The layout of the user address space\<close>

definition USER_SPACE_START :: u64 where "USER_SPACE_START = 0x100000"
definition USER_SPACE_END :: u64 where "USER_SPACE_END = 0x7FFFFFFFFFFF"
definition PROGRAM_BASE :: u64 where "PROGRAM_BASE = 0x400000"
definition HEAP_START :: u64 where "HEAP_START = 0x40000000"
definition HEAP_MAX :: u64 where "HEAP_MAX = 0xC0000000"
definition MMAP_REGION_START :: u64 where "MMAP_REGION_START = 0x200000000000"
definition MMAP_REGION_END :: u64 where "MMAP_REGION_END = 0x700000000000"
definition STACK_TOP :: u64 where "STACK_TOP = 0x7FFFFFFF0000"
definition STACK_SIZE :: u64 where "STACK_SIZE = 2 * 1024 * 1024"
definition STACK_GUARD_PAGES :: u64 where "STACK_GUARD_PAGES = 1"
definition PAGE_SIZE :: u64 where "PAGE_SIZE = 4096"
definition ASLR_ENABLED :: bool where "ASLR_ENABLED = True"
definition ASLR_PROGRAM_RANGE :: u64 where "ASLR_PROGRAM_RANGE = 0x1000000"
definition ASLR_STACK_RANGE :: u64 where "ASLR_STACK_RANGE = 0x2000000"
definition ASLR_MMAP_RANGE :: u64 where "ASLR_MMAP_RANGE = 0x10000000000"
definition ASLR_HEAP_RANGE :: u64 where "ASLR_HEAP_RANGE = 0x10000000"

lemmas layout_defs = USER_SPACE_START_def USER_SPACE_END_def PROGRAM_BASE_def HEAP_START_def
  HEAP_MAX_def MMAP_REGION_START_def MMAP_REGION_END_def STACK_TOP_def STACK_SIZE_def
  STACK_GUARD_PAGES_def PAGE_SIZE_def

section \<open>Randomised bases\<close>

definition reseed_aslr :: "u64 \<Rightarrow> u64 \<Rightarrow> u64" where
  "reseed_aslr seed extra =
     (let seed = seed XOR extra in if seed = 0 then 0xA5A5A5A55A5A5A5A else seed)"

text \<open>Returns the new seed and the offset.\<close>

definition aslr_offset :: "u64 \<Rightarrow> u64 option \<Rightarrow> u64 \<Rightarrow> u64 \<times> u64" where
  "aslr_offset seed0 rnd rng =
     (if \<not> ASLR_ENABLED \<or> rng = 0 then (seed0, 0)
      else
        let seed = (case rnd of None \<Rightarrow> seed0 | Some r \<Rightarrow> seed0 XOR r);
            seed = (if seed = 0 then 0xDEADBEEFCAFEBABE else seed);
            seed = seed XOR push_bit 13 seed;
            seed = seed XOR drop_bit 7 seed;
            seed = seed XOR push_bit 17 seed;
            pages = rng div PAGE_SIZE in
        if pages = 0 then (seed, 0) else (seed, (seed mod pages) * PAGE_SIZE))"

definition aslr_program_base :: "u64 \<Rightarrow> u64 option \<Rightarrow> u64 \<times> u64" where
  "aslr_program_base seed rnd =
     (let (seed', off) = aslr_offset seed rnd ASLR_PROGRAM_RANGE in (seed', PROGRAM_BASE + off))"

definition aslr_stack_top :: "u64 \<Rightarrow> u64 option \<Rightarrow> u64 \<times> u64" where
  "aslr_stack_top seed rnd =
     (let (seed', off) = aslr_offset seed rnd ASLR_STACK_RANGE in (seed', STACK_TOP - off))"

definition aslr_mmap_end :: "u64 \<Rightarrow> u64 option \<Rightarrow> u64 \<times> u64" where
  "aslr_mmap_end seed rnd =
     (let (seed', off) = aslr_offset seed rnd ASLR_MMAP_RANGE in (seed', MMAP_REGION_END - off))"

definition aslr_heap_start :: "u64 \<Rightarrow> u64 option \<Rightarrow> u64 \<times> u64" where
  "aslr_heap_start seed rnd =
     (let (seed', off) = aslr_offset seed rnd ASLR_HEAP_RANGE in (seed', HEAP_START + off))"

section \<open>Page alignment\<close>

definition page_align_down :: "u64 \<Rightarrow> u64" where
  "page_align_down addr = addr AND NOT (PAGE_SIZE - 1)"

definition page_align_up :: "u64 \<Rightarrow> u64" where
  "page_align_up addr = (addr + PAGE_SIZE - 1) AND NOT (PAGE_SIZE - 1)"

section \<open>Mappings\<close>

datatype MappingType = Text | Data | Heap | Stack | Guard | Anonymous | FileBacked | Shared | Kernel

record ProtFlags =
  prot_read :: bool
  prot_write :: bool
  prot_execute :: bool

definition ProtFlags_RX :: ProtFlags where
  "ProtFlags_RX = \<lparr>prot_read = True, prot_write = False, prot_execute = True\<rparr>"
definition ProtFlags_RW :: ProtFlags where
  "ProtFlags_RW = \<lparr>prot_read = True, prot_write = True, prot_execute = False\<rparr>"
definition ProtFlags_RWX :: ProtFlags where
  "ProtFlags_RWX = \<lparr>prot_read = True, prot_write = True, prot_execute = True\<rparr>"
definition ProtFlags_R :: ProtFlags where
  "ProtFlags_R = \<lparr>prot_read = True, prot_write = False, prot_execute = False\<rparr>"
definition ProtFlags_NONE :: ProtFlags where
  "ProtFlags_NONE = \<lparr>prot_read = False, prot_write = False, prot_execute = False\<rparr>"

definition from_mmap_prot :: "u64 \<Rightarrow> ProtFlags" where
  "from_mmap_prot prot = \<lparr>prot_read = (prot AND 1 \<noteq> 0), prot_write = (prot AND 2 \<noteq> 0),
     prot_execute = (prot AND 4 \<noteq> 0)\<rparr>"

record MmapFlags =
  map_shared :: bool
  map_anonymous :: bool
  map_fixed :: bool
  map_populate :: bool

definition MmapFlags_from_linux :: "u64 \<Rightarrow> MmapFlags" where
  "MmapFlags_from_linux flags = \<lparr>map_shared = (flags AND 0x01 \<noteq> 0),
     map_anonymous = (flags AND 0x20 \<noteq> 0), map_fixed = (flags AND 0x10 \<noteq> 0),
     map_populate = (flags AND 0x08000 \<noteq> 0)\<rparr>"

record VirtualMemoryArea =
  vma_start :: u64
  vma_end :: u64
  vma_prot :: ProtFlags
  vma_type :: MappingType
  vma_flags :: MmapFlags
  file_path :: "string option"
  file_offset :: u64
  vma_cow :: bool
  ref_count :: u64

definition vma_page_count :: "VirtualMemoryArea \<Rightarrow> u64" where
  "vma_page_count v = (vma_end v - vma_start v) div PAGE_SIZE"

definition vma_contains :: "VirtualMemoryArea \<Rightarrow> u64 \<Rightarrow> bool" where
  "vma_contains v addr \<longleftrightarrow> addr \<ge> vma_start v \<and> addr < vma_end v"

section \<open>Aligned addresses\<close>

lemma unat_and_not_mask: "unat (a AND NOT (mask n)) = unat a div 2 ^ n * 2 ^ n"
  for a :: "'a::len word"
proof -
  have "a AND NOT (mask n) = push_bit n (drop_bit n a)"
    by (rule bit_word_eqI) (auto simp: bit_simps)
  then have "unat (a AND NOT (mask n)) = take_bit LENGTH('a) (push_bit n (drop_bit n (unat a)))"
    by (simp only: unsigned_push_bit_eq unsigned_drop_bit_eq take_bit_drop_bit) (simp add: take_bit_nat_def)
  then have "unat (a AND NOT (mask n)) = take_bit LENGTH('a) (unat a div 2 ^ n * 2 ^ n)"
    by (simp add: drop_bit_eq_div push_bit_eq_mult)
  also have "unat a div 2 ^ n * 2 ^ n < 2 ^ LENGTH('a)"
    using div_times_less_eq_dividend unsigned_less by (rule le_less_trans)
  then have "take_bit LENGTH('a) (unat a div 2 ^ n * 2 ^ n) = unat a div 2 ^ n * 2 ^ n"
    by (simp add: take_bit_nat_eq_self)
  finally show ?thesis .
qed

definition page_aligned :: "u64 \<Rightarrow> bool" where
  "page_aligned a \<longleftrightarrow> a AND 0xFFF = 0"

lemma mask_12: "(0xFFF :: u64) = mask 12" "PAGE_SIZE - 1 = mask 12"
  by (simp_all add: mask_eq_exp_minus_1 PAGE_SIZE_def)

lemma unat_PAGE_SIZE [simp]: "unat PAGE_SIZE = 4096"
  by (simp add: PAGE_SIZE_def)

lemma page_aligned_iff: "page_aligned a \<longleftrightarrow> 4096 dvd unat a"
proof -
  have "unat (a AND 0xFFF) = unat a mod 4096"
    unfolding mask_12 by (simp add: unsigned_take_bit_eq take_bit_nat_def flip: take_bit_eq_mask)
  then show ?thesis unfolding page_aligned_def by (metis dvd_eq_mod_eq_0 unat_eq_0)
qed

lemma unat_page_align_down: "unat (page_align_down a) = unat a div 4096 * 4096"
  unfolding page_align_down_def mask_12 by (simp add: unat_and_not_mask)

lemma page_align_down_aligned [simp]: "page_aligned (page_align_down a)"
  by (simp add: page_aligned_iff unat_page_align_down)

lemma page_align_down_le: "page_align_down a \<le> a"
  by (simp add: word_le_nat_alt unat_page_align_down)

lemma page_align_down_id: "page_aligned a \<Longrightarrow> page_align_down a = a"
  by (simp add: word_unat_eq_iff unat_page_align_down page_aligned_iff)

lemma page_align_up_eq: "page_align_up a = page_align_down (a + (PAGE_SIZE - 1))"
  by (simp add: page_align_up_def page_align_down_def algebra_simps)

lemma page_align_up_aligned [simp]: "page_aligned (page_align_up a)"
  by (simp add: page_align_up_eq)

text \<open>Without wrap-around, rounding up gives the least aligned address that is not below.\<close>

lemma unat_page_align_up:
  assumes "unat a \<le> 2 ^ 64 - 4096"
  shows "unat (page_align_up a) = (unat a + 4095) div 4096 * 4096"
proof -
  have "unat (a + (PAGE_SIZE - 1)) = unat a + 4095"
    using assms by (simp add: unat_word_ariths PAGE_SIZE_def)
  then show ?thesis by (simp add: page_align_up_eq unat_page_align_down)
qed

lemma page_align_up_ge:
  assumes "unat a \<le> 2 ^ 64 - 4096"
  shows "a \<le> page_align_up a"
  unfolding word_le_nat_alt unat_page_align_up [OF assms] by linarith

lemma unat_64: "unat a < 2 ^ 64" for a :: u64
proof -
  have "unat a < 2 ^ LENGTH(64)" by (rule unsigned_less)
  then show ?thesis by simp
qed

lemma page_aligned_add: "page_aligned a \<Longrightarrow> page_aligned b \<Longrightarrow> page_aligned (a + b)"
  by (simp add: page_aligned_iff unat_word_ariths dvd_mod)

lemma page_aligned_diff:
  assumes "page_aligned a" "page_aligned b"
  shows "page_aligned (a - b)"
proof -
  have "unat a = (unat (a - b) + unat b) mod 2 ^ 64" using unat_word_ariths(1) [of "a - b" b] by simp
  with assms have "4096 dvd (unat (a - b) + unat b) mod 2 ^ 64" by (simp add: page_aligned_iff)
  then have "4096 dvd unat (a - b) + unat b" by (simp add: dvd_mod_iff)
  with assms show ?thesis by (simp add: page_aligned_iff dvd_add_left_iff)
qed

section \<open>Where the randomised bases lie\<close>

lemma aslr_offset_bounds:
  assumes "0 < n" and "unat rng = 4096 * n"
  shows "page_aligned (snd (aslr_offset seed rnd rng))" "unat (snd (aslr_offset seed rnd rng)) \<le> unat rng - 4096"
proof -
  have pages: "unat (rng div PAGE_SIZE) = n" using assms by (simp add: unat_div)
  then have "rng div PAGE_SIZE \<noteq> 0" "rng \<noteq> 0" using assms by auto
  then obtain x where x: "snd (aslr_offset seed rnd rng) = (x mod (rng div PAGE_SIZE)) * PAGE_SIZE"
    unfolding aslr_offset_def Let_def by (auto simp: ASLR_ENABLED_def)
  have le: "unat (x mod (rng div PAGE_SIZE)) \<le> n - 1" using assms(1) pages mod_less_divisor [of n "unat x"]
    by (simp add: unat_mod del: mod_less_divisor)
  then have "unat (x mod (rng div PAGE_SIZE)) * 4096 \<le> (n - 1) * 4096" by simp
  moreover have "(n - 1) * 4096 < 2 ^ 64" using assms unat_64 [of rng] by simp
  ultimately have off: "unat (snd (aslr_offset seed rnd rng)) = unat (x mod (rng div PAGE_SIZE)) * 4096"
    unfolding x by (simp add: unat_word_ariths)
  then show "page_aligned (snd (aslr_offset seed rnd rng))" by (simp add: page_aligned_iff)
  show "unat (snd (aslr_offset seed rnd rng)) \<le> unat rng - 4096" using le assms off by simp
qed

lemma aslr_above:
  assumes "0 < n" "unat rng = 4096 * n" "page_aligned base" "unat base + unat rng \<le> 2 ^ 64"
  shows "page_aligned (base + snd (aslr_offset seed rnd rng))" "unat base \<le> unat (base + snd (aslr_offset seed rnd rng))"
    "unat (base + snd (aslr_offset seed rnd rng)) < unat base + unat rng"
proof -
  note B = aslr_offset_bounds [OF assms(1,2), of seed rnd]
  have "unat base + unat (snd (aslr_offset seed rnd rng)) < unat base + unat rng" using B(2) assms(1,2) by linarith
  with assms(4) have "unat (base + snd (aslr_offset seed rnd rng)) = unat base + unat (snd (aslr_offset seed rnd rng))"
    by (simp add: unat_word_ariths)
  with B assms show "page_aligned (base + snd (aslr_offset seed rnd rng))" "unat base \<le> unat (base + snd (aslr_offset seed rnd rng))"
    "unat (base + snd (aslr_offset seed rnd rng)) < unat base + unat rng"
    by (simp_all add: page_aligned_add)
qed

lemma aslr_below:
  assumes "0 < n" "unat rng = 4096 * n" "page_aligned base" "rng \<le> base"
  shows "page_aligned (base - snd (aslr_offset seed rnd rng))" "unat (base - snd (aslr_offset seed rnd rng)) \<le> unat base"
    "unat base - unat rng < unat (base - snd (aslr_offset seed rnd rng))"
proof -
  note B = aslr_offset_bounds [OF assms(1,2), of seed rnd]
  have le: "unat (snd (aslr_offset seed rnd rng)) < unat rng" "unat rng \<le> unat base"
    using B(2) assms(1,2,4) by (simp_all add: word_le_nat_alt)
  then have "unat (base - snd (aslr_offset seed rnd rng)) = unat base - unat (snd (aslr_offset seed rnd rng))"
    by (simp add: unat_sub word_le_nat_alt)
  with B assms le show "page_aligned (base - snd (aslr_offset seed rnd rng))" "unat (base - snd (aslr_offset seed rnd rng)) \<le> unat base"
    "unat base - unat rng < unat (base - snd (aslr_offset seed rnd rng))"
    by (simp_all add: page_aligned_diff)
qed

text \<open>The window of each base.\<close>

lemma program_window:
  "page_aligned (snd (aslr_program_base s r))" "0x400000 \<le> unat (snd (aslr_program_base s r))"
  "unat (snd (aslr_program_base s r)) < 0x1400000"
proof -
  have eq: "snd (aslr_program_base s r) = PROGRAM_BASE + snd (aslr_offset s r ASLR_PROGRAM_RANGE)"
    by (simp add: aslr_program_base_def split_beta Let_def)
  have n: "unat ASLR_PROGRAM_RANGE = 4096 * 4096" and al: "page_aligned PROGRAM_BASE"
    by (simp_all add: ASLR_PROGRAM_RANGE_def page_aligned_def PROGRAM_BASE_def)
  show "page_aligned (snd (aslr_program_base s r))" "0x400000 \<le> unat (snd (aslr_program_base s r))"
    "unat (snd (aslr_program_base s r)) < 0x1400000"
    unfolding eq using aslr_above [OF _ n al, of s r] by (simp_all add: PROGRAM_BASE_def ASLR_PROGRAM_RANGE_def)
qed

lemma heap_window:
  "page_aligned (snd (aslr_heap_start s r))" "0x40000000 \<le> unat (snd (aslr_heap_start s r))"
  "unat (snd (aslr_heap_start s r)) < 0x50000000"
proof -
  have eq: "snd (aslr_heap_start s r) = HEAP_START + snd (aslr_offset s r ASLR_HEAP_RANGE)"
    by (simp add: aslr_heap_start_def split_beta Let_def)
  have n: "unat ASLR_HEAP_RANGE = 4096 * 65536" and al: "page_aligned HEAP_START"
    by (simp_all add: ASLR_HEAP_RANGE_def page_aligned_def HEAP_START_def)
  show "page_aligned (snd (aslr_heap_start s r))" "0x40000000 \<le> unat (snd (aslr_heap_start s r))"
    "unat (snd (aslr_heap_start s r)) < 0x50000000"
    unfolding eq using aslr_above [OF _ n al, of s r] by (simp_all add: HEAP_START_def ASLR_HEAP_RANGE_def)
qed

lemma mmap_window:
  "page_aligned (snd (aslr_mmap_end s r))" "unat (snd (aslr_mmap_end s r)) \<le> 0x700000000000"
  "0x6F0000000000 < unat (snd (aslr_mmap_end s r))"
proof -
  have eq: "snd (aslr_mmap_end s r) = MMAP_REGION_END - snd (aslr_offset s r ASLR_MMAP_RANGE)"
    by (simp add: aslr_mmap_end_def split_beta Let_def)
  have n: "unat ASLR_MMAP_RANGE = 4096 * 268435456" and al: "page_aligned MMAP_REGION_END"
    by (simp_all add: ASLR_MMAP_RANGE_def page_aligned_def MMAP_REGION_END_def)
  show "page_aligned (snd (aslr_mmap_end s r))" "unat (snd (aslr_mmap_end s r)) \<le> 0x700000000000"
    "0x6F0000000000 < unat (snd (aslr_mmap_end s r))"
    unfolding eq using aslr_below [OF _ n al, of s r] by (simp_all add: MMAP_REGION_END_def ASLR_MMAP_RANGE_def)
qed

lemma stack_window:
  "page_aligned (snd (aslr_stack_top s r))" "unat (snd (aslr_stack_top s r)) \<le> 0x7FFFFFFF0000"
  "0x7FFFFDFF0000 < unat (snd (aslr_stack_top s r))"
proof -
  have eq: "snd (aslr_stack_top s r) = STACK_TOP - snd (aslr_offset s r ASLR_STACK_RANGE)"
    by (simp add: aslr_stack_top_def split_beta Let_def)
  have n: "unat ASLR_STACK_RANGE = 4096 * 8192" and al: "page_aligned STACK_TOP"
    by (simp_all add: ASLR_STACK_RANGE_def page_aligned_def STACK_TOP_def)
  show "page_aligned (snd (aslr_stack_top s r))" "unat (snd (aslr_stack_top s r)) \<le> 0x7FFFFFFF0000"
    "0x7FFFFDFF0000 < unat (snd (aslr_stack_top s r))"
    unfolding eq using aslr_below [OF _ n al, of s r] by (simp_all add: STACK_TOP_def ASLR_STACK_RANGE_def)
qed

section \<open>Properties\<close>

text \<open>
  C10: Whatever the seeds and the random numbers, each randomised base is a multiple of the page
  size and lies in its own part of the user address space, in this order: the program base within
  16 MiB above \<open>PROGRAM_BASE\<close>, the heap within 256 MiB above \<open>HEAP_START\<close> and below \<open>HEAP_MAX\<close>,
  the top of the mmap region within 1 TiB below \<open>MMAP_REGION_END\<close> and above
  \<open>MMAP_REGION_START\<close>, and the stack top within 32 MiB below \<open>STACK_TOP\<close>, so that a stack with its
  guard page ends above every mmap region.
\<close>

theorem aslr_bases_ordered:
  "let program = snd (aslr_program_base s1 r1); heap = snd (aslr_heap_start s2 r2);
       mmap_end = snd (aslr_mmap_end s3 r3); stack = snd (aslr_stack_top s4 r4) in
   page_aligned program \<and> page_aligned heap \<and> page_aligned mmap_end \<and> page_aligned stack
     \<and> PROGRAM_BASE \<le> program \<and> program < PROGRAM_BASE + ASLR_PROGRAM_RANGE
     \<and> HEAP_START \<le> heap \<and> heap < HEAP_START + ASLR_HEAP_RANGE
     \<and> MMAP_REGION_END - ASLR_MMAP_RANGE < mmap_end \<and> mmap_end \<le> MMAP_REGION_END
     \<and> STACK_TOP - ASLR_STACK_RANGE < stack \<and> stack \<le> STACK_TOP
     \<and> program < heap \<and> heap < HEAP_MAX \<and> HEAP_MAX < MMAP_REGION_START \<and> MMAP_REGION_START < mmap_end
     \<and> mmap_end < stack - STACK_SIZE - STACK_GUARD_PAGES * PAGE_SIZE"
proof -
  define program heap mmap_end stack where defs: "program = snd (aslr_program_base s1 r1)"
    "heap = snd (aslr_heap_start s2 r2)" "mmap_end = snd (aslr_mmap_end s3 r3)" "stack = snd (aslr_stack_top s4 r4)"
  note p = program_window [of s1 r1, folded defs] and h = heap_window [of s2 r2, folded defs]
    and m = mmap_window [of s3 r3, folded defs] and t = stack_window [of s4 r4, folded defs]
  have top: "unat (stack - STACK_SIZE - STACK_GUARD_PAGES * PAGE_SIZE) = unat stack - 0x201000"
    using t(3) by (simp add: STACK_SIZE_def STACK_GUARD_PAGES_def PAGE_SIZE_def unat_sub word_le_nat_alt)
  have c: "unat PROGRAM_BASE = 0x400000" "unat (PROGRAM_BASE + ASLR_PROGRAM_RANGE) = 0x1400000"
    "unat HEAP_START = 0x40000000" "unat (HEAP_START + ASLR_HEAP_RANGE) = 0x50000000" "unat HEAP_MAX = 0xC0000000"
    "unat (MMAP_REGION_END - ASLR_MMAP_RANGE) = 0x6F0000000000" "unat MMAP_REGION_END = 0x700000000000"
    "unat MMAP_REGION_START = 0x200000000000" "unat (STACK_TOP - ASLR_STACK_RANGE) = 0x7FFFFDFF0000"
    "unat STACK_TOP = 0x7FFFFFFF0000"
    by (simp_all add: layout_defs ASLR_PROGRAM_RANGE_def ASLR_HEAP_RANGE_def ASLR_MMAP_RANGE_def ASLR_STACK_RANGE_def)
  have order: "unat program < unat heap" "unat heap < 0xC0000000" "(0xC0000000 :: nat) < 0x200000000000"
    "0x200000000000 < unat mmap_end" "unat mmap_end < unat stack - 0x201000"
    using p(3) h(2,3) m(2,3) t(3) by linarith+
  show ?thesis unfolding Let_def defs [symmetric] word_le_nat_alt word_less_nat_alt c top by (intro conjI p h m t order)
qed

end
