(* ===== verification/Frame_Pool.thy ===== *)
theory Frame_Pool
  imports Layout
begin

text \<open>
  \<open>src/kernel/src/mm/vmm/frame.rs\<close>: the physical buddy allocator. A block of order \<open>o\<close> is
  \<open>2^o\<close> consecutive frames of 4 KiB, aligned to its size; the frames of the free lists are a
  multiset, and the pool with the frames its clients own is a \<open>state_machine\<close> whose invariant
  says that every frame is free or owned, once. The allocator that reclaims memory when the
  pool is empty is in \<open>Page_Table\<close>.
\<close>

section \<open>The pool\<close>

definition BUDDY_MAX_ORDER :: nat where "BUDDY_MAX_ORDER = 12"

record PhysicalFramePool =
  pool_free :: "u64 list list"
  total_frames :: u64
  allocated_frames :: u64

definition PhysicalFramePool_new :: PhysicalFramePool where
  "PhysicalFramePool_new = \<lparr>pool_free = replicate (BUDDY_MAX_ORDER + 1) [], total_frames = 0,
     allocated_frames = 0\<rparr>"

definition block_size :: "nat \<Rightarrow> u64" where
  "block_size order = push_bit order PAGE_SIZE"

definition buddy_addr :: "u64 \<Rightarrow> nat \<Rightarrow> u64" where
  "buddy_addr addr order = addr XOR block_size order"

text \<open>\<open>pop\<close> takes the last element of a list, \<open>push\<close> appends one.\<close>

function take_block :: "u64 list list \<Rightarrow> nat \<Rightarrow> u64 list list \<times> u64 option" where
  "take_block fs order =
     (if order > BUDDY_MAX_ORDER then (fs, None)
      else if fs ! order \<noteq> [] then (fs[order := butlast (fs ! order)], Some (last (fs ! order)))
      else (case take_block fs (order + 1) of
              (fs', None) \<Rightarrow> (fs', None)
            | (fs', Some larger) \<Rightarrow>
                (fs'[order := fs' ! order @ [larger + block_size order]], Some larger)))"
  by pat_completeness auto
termination
  by (relation "measure (\<lambda>(fs, order). Suc BUDDY_MAX_ORDER - order)") auto

function free_block :: "u64 list list \<Rightarrow> u64 \<Rightarrow> nat \<Rightarrow> u64 list list" where
  "free_block fs addr order =
     (if order < BUDDY_MAX_ORDER then
        let buddy = buddy_addr addr order in
        case position (\<lambda>a. a = buddy) (fs ! order) of
          Some pos \<Rightarrow> free_block (fs[order := swap_remove pos (fs ! order)]) (min addr buddy) (order + 1)
        | None \<Rightarrow> fs[order := fs ! order @ [addr]]
      else fs[order := fs ! order @ [addr]])"
  by pat_completeness auto
termination
  by (relation "measure (\<lambda>(fs, addr, order). Suc BUDDY_MAX_ORDER - order)") auto

declare take_block.simps [simp del] free_block.simps [simp del]

definition add_frame :: "PhysicalFramePool \<Rightarrow> u64 \<Rightarrow> PhysicalFramePool" where
  "add_frame p phys_addr = p\<lparr>pool_free := free_block (pool_free p) (phys_addr AND NOT 0xFFF) 0,
     total_frames := total_frames p + 1\<rparr>"

text \<open>The inner loop of \<open>add_range\<close>: the largest order that fits and is aligned.\<close>

function range_order :: "u64 \<Rightarrow> u64 \<Rightarrow> nat \<Rightarrow> nat" where
  "range_order addr nframes order =
     (if order < BUDDY_MAX_ORDER then
        if nframes < push_bit (order + 1) 1 then order
        else if addr AND (block_size (order + 1) - 1) \<noteq> 0 then order
        else range_order addr nframes (order + 1)
      else order)"
  by pat_completeness auto
termination
  by (relation "measure (\<lambda>(addr, nframes, order). BUDDY_MAX_ORDER - order)") auto

declare range_order.simps [simp del]

lemma push_bit_1 [simp]: "push_bit n (1 :: u64) = 2 ^ n"
  by (simp add: push_bit_eq_mult)

lemma unat_2p: "n < 64 \<Longrightarrow> unat (2 ^ n :: u64) = 2 ^ n"
  using unat_of_nat_small [of "2 ^ n" , where 'a = 64] power_strict_increasing [of n 64 "2 :: nat"]
  by simp

lemma range_order_le:
  "order \<le> BUDDY_MAX_ORDER \<Longrightarrow> order \<le> range_order addr n order \<and> range_order addr n order \<le> BUDDY_MAX_ORDER"
  by (induction addr n order rule: range_order.induct) (subst (1 2) range_order.simps, auto)

lemma range_order_fits:
  "order \<le> BUDDY_MAX_ORDER \<Longrightarrow> 2 ^ order \<le> n \<Longrightarrow> 2 ^ range_order addr n order \<le> n"
  by (induction addr n order rule: range_order.induct) (subst range_order.simps, auto)

lemma range_count_le:
  assumes "n > (0 :: u64)"
  shows "unat n - unat (push_bit (range_order addr n 0) 1 :: u64) < unat n"
    "push_bit (range_order addr n 0) 1 \<le> n"
proof -
  have "1 \<le> n" using assms by (simp add: word_le_nat_alt word_less_nat_alt)
  then show le: "push_bit (range_order addr n 0) 1 \<le> n"
    using range_order_fits [of 0 n addr] by simp
  have "range_order addr n 0 < 64" using range_order_le [of 0 addr n] by (simp add: BUDDY_MAX_ORDER_def)
  then show "unat n - unat (push_bit (range_order addr n 0) 1 :: u64) < unat n"
    using assms by (simp add: unat_2p word_less_nat_alt)
qed

function add_range_loop :: "PhysicalFramePool \<Rightarrow> u64 \<Rightarrow> u64 \<Rightarrow> PhysicalFramePool" where
  "add_range_loop p addr nframes =
     (if nframes > 0 then
        let order = range_order addr nframes 0; n = push_bit order 1 in
        add_range_loop
          (p\<lparr>pool_free := free_block (pool_free p) addr order, total_frames := total_frames p + n\<rparr>)
          (addr + n * PAGE_SIZE) (nframes - n)
      else p)"
  by pat_completeness auto
termination
proof (relation "measure (\<lambda>(p, addr, nframes). unat nframes)")
  fix p :: PhysicalFramePool and addr nframes :: u64 and order and n :: u64
  assume "0 < nframes" "order = range_order addr nframes 0" "n = push_bit order 1"
  with range_count_le [of nframes addr]
  have "unat (nframes - n) < unat nframes" by (simp add: unat_sub)
  then show "((p\<lparr>pool_free := free_block (pool_free p) addr order, total_frames := total_frames p + n\<rparr>,
      addr + n * PAGE_SIZE, nframes - n), p, addr, nframes)
    \<in> measure (\<lambda>(p, addr, nframes). unat nframes)" by simp
qed simp

declare add_range_loop.simps [simp del]

definition add_range :: "PhysicalFramePool \<Rightarrow> u64 \<Rightarrow> u64 \<Rightarrow> PhysicalFramePool" where
  "add_range p addr nframes = add_range_loop p (addr AND NOT 0xFFF) nframes"

definition allocate_order :: "PhysicalFramePool \<Rightarrow> nat \<Rightarrow> PhysicalFramePool \<times> u64 option" where
  "allocate_order p order =
     (if order > BUDDY_MAX_ORDER then (p, None)
      else case take_block (pool_free p) order of
             (fs, None) \<Rightarrow> (p\<lparr>pool_free := fs\<rparr>, None)
           | (fs, Some addr) \<Rightarrow>
               (p\<lparr>pool_free := fs, allocated_frames := allocated_frames p + push_bit order 1\<rparr>, Some addr))"

definition allocate :: "PhysicalFramePool \<Rightarrow> PhysicalFramePool \<times> u64 option" where
  "allocate p =
     (case take_block (pool_free p) 0 of
        (fs, None) \<Rightarrow> (p\<lparr>pool_free := fs\<rparr>, None)
      | (fs, Some addr) \<Rightarrow>
          (p\<lparr>pool_free := fs, allocated_frames := allocated_frames p + 1\<rparr>, Some addr))"

definition pool_free_frame :: "PhysicalFramePool \<Rightarrow> u64 \<Rightarrow> PhysicalFramePool" where
  "pool_free_frame p phys_addr =
     p\<lparr>pool_free := free_block (pool_free p) (phys_addr AND NOT 0xFFF) 0,
       allocated_frames := (if allocated_frames p > 0 then allocated_frames p - 1 else allocated_frames p)\<rparr>"

definition free_order :: "PhysicalFramePool \<Rightarrow> u64 \<Rightarrow> nat \<Rightarrow> PhysicalFramePool" where
  "free_order p phys_addr order =
     (if order > BUDDY_MAX_ORDER then p
      else let mask = block_size order - 1 in
        p\<lparr>pool_free := free_block (pool_free p) (phys_addr AND NOT mask) order,
          allocated_frames := sat_sub (allocated_frames p) (push_bit order 1)\<rparr>)"

definition available :: "PhysicalFramePool \<Rightarrow> u64" where
  "available p = fold (\<lambda>(order, l) n. n + of_nat (length l) * push_bit order 1)
     (enumerate 0 (pool_free p)) 0"

text \<open>Popping a list until it is empty yields its elements in reverse.\<close>

definition steal_free_frames :: "PhysicalFramePool \<Rightarrow> PhysicalFramePool \<times> (u64 \<times> nat) list" where
  "steal_free_frames p =
     (p\<lparr>pool_free := map (\<lambda>l. []) (pool_free p)\<rparr>,
      concat (map (\<lambda>(order, l). map (\<lambda>a. (a, order)) (rev l)) (enumerate 0 (pool_free p))))"

definition restore_free_frames :: "PhysicalFramePool \<Rightarrow> (u64 \<times> nat) list \<Rightarrow> PhysicalFramePool" where
  "restore_free_frames p blocks =
     fold (\<lambda>(addr, order) p. p\<lparr>pool_free :=
         free_block (pool_free p) (addr AND NOT 0xFFF) (min order BUDDY_MAX_ORDER)\<rparr>) blocks p"

section \<open>Contiguous frames\<close>

text \<open>The loop that rounds a number of frames up to an order.\<close>

function order_for :: "nat \<Rightarrow> nat \<Rightarrow> nat option" where
  "order_for order cnt =
     (if 2 ^ order < cnt then
        if order + 1 > BUDDY_MAX_ORDER then None else order_for (order + 1) cnt
      else Some order)"
  by pat_completeness auto
termination
  by (relation "measure (\<lambda>(order, cnt). Suc BUDDY_MAX_ORDER - order)") auto

declare order_for.simps [simp del]

definition allocate_contiguous_frames ::
  "PhysicalFramePool \<Rightarrow> nat \<Rightarrow> PhysicalFramePool \<times> u64 option" where
  "allocate_contiguous_frames p cnt =
     (if cnt = 0 then (p, None)
      else case order_for 0 cnt of None \<Rightarrow> (p, None) | Some order \<Rightarrow> allocate_order p order)"

definition free_contiguous_frames :: "PhysicalFramePool \<Rightarrow> u64 \<Rightarrow> nat \<Rightarrow> PhysicalFramePool" where
  "free_contiguous_frames p phys_addr cnt =
     (if cnt = 0 then p
      else case order_for 0 cnt of None \<Rightarrow> p | Some order \<Rightarrow> free_order p phys_addr order)"

definition get_stats :: "PhysicalFramePool \<Rightarrow> u64 \<times> u64 \<times> u64" where
  "get_stats p = (total_frames p, allocated_frames p, available p)"

section \<open>Blocks and their frames\<close>

definition pfn :: "u64 \<Rightarrow> nat" where
  "pfn a = unat a div 4096"

definition block_frames :: "u64 \<Rightarrow> nat \<Rightarrow> nat multiset" where
  "block_frames a order = mset [pfn a ..< pfn a + 2 ^ order]"

definition block_aligned :: "u64 \<Rightarrow> nat \<Rightarrow> bool" where
  "block_aligned a order \<longleftrightarrow> 2 ^ (12 + order) dvd unat a"

lemma pow_13: "(2::nat) ^ (13 + order) = 2 * 2 ^ (12 + order)"
  by (simp add: power_add)

lemma block_size_eq: "block_size order = 2 ^ (12 + order)"
  by (simp add: block_size_def PAGE_SIZE_def push_bit_eq_mult power_add)

lemma unat_block_size: "order \<le> 12 \<Longrightarrow> unat (block_size order) = 2 ^ (12 + order)"
  unfolding block_size_eq by (rule unat_2p) simp

lemma block_mask: "block_size order - 1 = mask (12 + order)"
  by (simp add: block_size_eq mask_eq_exp_minus_1)

lemma aligned_down: "block_aligned (a AND NOT (block_size order - 1)) order"
  unfolding block_aligned_def block_mask unat_and_not_mask by simp

lemma aligned_down_0: "block_aligned (a AND NOT 0xFFF) 0"
  unfolding block_aligned_def mask_12 unat_and_not_mask by simp

lemma aligned_mono: "block_aligned a order' \<Longrightarrow> order \<le> order' \<Longrightarrow> block_aligned a order"
  unfolding block_aligned_def by (meson add_left_mono dvd_trans le_imp_power_dvd)

text \<open>An aligned block ends within the address space.\<close>

lemma dvd_room: "d dvd (N :: nat) \<Longrightarrow> d dvd x \<Longrightarrow> x < N \<Longrightarrow> x + d \<le> N"
  by (metis Suc_leI add.commute dvdE mult.commute mult_Suc_right mult_le_mono2 mult_less_cancel1)

lemma block_end:
  assumes "block_aligned a order" and "order \<le> 12"
  shows "unat a + 2 ^ (12 + order) \<le> 2 ^ 64"
proof (rule dvd_room)
  show "(2::nat) ^ (12 + order) dvd 2 ^ 64" using assms(2) by (intro le_imp_power_dvd) simp
  show "2 ^ (12 + order) dvd unat a" using assms(1) by (simp add: block_aligned_def)
  show "unat a < 2 ^ 64" using unsigned_less [of a] by simp
qed

text \<open>The two halves of a block.\<close>

lemma upper_half:
  assumes "block_aligned a (Suc order)" and "order < 12"
  shows "unat (a + block_size order) = unat a + 2 ^ (12 + order)"
    "block_aligned (a + block_size order) order" "pfn (a + block_size order) = pfn a + 2 ^ order"
proof -
  have "unat a + 2 ^ (12 + order) + 2 ^ (12 + order) \<le> 2 ^ 64"
    using block_end [OF assms(1)] assms(2) by (simp add: pow_13)
  moreover have "(0::nat) < 2 ^ (12 + order)" by simp
  ultimately have "unat a + 2 ^ (12 + order) < 2 ^ 64" by linarith
  then show u: "unat (a + block_size order) = unat a + 2 ^ (12 + order)"
    using assms(2) by (simp add: unat_word_ariths unat_block_size)
  have "2 ^ (12 + order) dvd unat a"
    using aligned_mono [OF assms(1), of order] by (simp add: block_aligned_def)
  then show "block_aligned (a + block_size order) order"
    unfolding block_aligned_def u by simp
  show "pfn (a + block_size order) = pfn a + 2 ^ order"
    unfolding pfn_def u by (simp add: power_add)
qed

lemma block_split:
  assumes "block_aligned a (Suc order)" and "order < 12"
  shows "block_frames a (Suc order) = block_frames a order + block_frames (a + block_size order) order"
proof -
  have "[pfn a ..< pfn a + 2 ^ Suc order]
      = [pfn a ..< pfn a + 2 ^ order] @ [pfn a + 2 ^ order ..< pfn a + 2 ^ order + 2 ^ order]"
    using upt_add_eq_append [of "pfn a" "pfn a + 2 ^ order" "2 ^ order"] by (simp add: mult_2 add.assoc)
  then show ?thesis by (simp add: block_frames_def upper_half(3) [OF assms])
qed

text \<open>The buddy of an aligned block is the other half of the block above.\<close>

lemma buddy_lower:
  assumes "block_aligned a (Suc order)" and "order < 12"
  shows "buddy_addr a order = a + block_size order"
proof -
  have "2 * 2 ^ (12 + order) dvd unat a" using assms(1) by (simp add: block_aligned_def pow_13)
  then have "\<not> bit (unat a) (12 + order)"
    by (auto simp: bit_iff_odd elim!: dvdE)
  then have "\<not> bit a (12 + order)" by (simp add: bit_unsigned_iff)
  then have "a AND block_size order = 0"
    unfolding block_size_eq by (intro bit_word_eqI) (auto simp: bit_simps)
  then show ?thesis by (simp add: buddy_addr_def disjunctive_add_eq_xor)
qed

lemma buddy_buddy [simp]: "buddy_addr (buddy_addr a order) order = a"
  by (simp add: buddy_addr_def ac_simps)

lemma buddy_upper:
  "block_aligned a (Suc order) \<Longrightarrow> order < 12 \<Longrightarrow> buddy_addr (a + block_size order) order = a"
  by (metis buddy_lower buddy_buddy)

lemma buddy_ne: "order < 12 \<Longrightarrow> buddy_addr a order \<noteq> a"
proof
  assume "order < 12" and "buddy_addr a order = a"
  then have "a XOR (a XOR block_size order) = a XOR a" by (simp add: buddy_addr_def)
  then have "unat (block_size order) = 0" by (simp add: xor.assoc [symmetric])
  with \<open>order < 12\<close> show False by (simp add: unat_block_size)
qed

lemma aligned_cases:
  assumes "block_aligned a order" and "order < 12"
  obtains (lower) "block_aligned a (Suc order)"
    | (upper) b where "block_aligned b (Suc order)" "a = b + block_size order"
proof -
  let ?d = "2 ^ (12 + order) :: nat"
  from assms(1) obtain m where m: "unat a = ?d * m" by (auto simp: block_aligned_def)
  show thesis
  proof (cases "even m")
    case True
    with m have "block_aligned a (Suc order)" by (auto simp: block_aligned_def pow_13 elim!: evenE)
    then show ?thesis by (rule lower)
  next
    case False
    then obtain k where k: "m = 2 * k + 1" by (auto elim!: oddE)
    let ?b = "a - block_size order"
    have le: "block_size order \<le> a"
      using assms(2) m k by (simp add: word_le_nat_alt unat_block_size)
    then have "unat ?b = 2 * ?d * k"
      using assms(2) m k by (simp add: unat_sub unat_block_size algebra_simps)
    then have "block_aligned ?b (Suc order)" by (simp add: block_aligned_def pow_13)
    then show ?thesis by (rule upper) simp
  qed
qed

text \<open>Merging a block with its buddy.\<close>

lemma buddy_merge:
  assumes "block_aligned a order" and "order < 12"
  shows "block_aligned (min a (buddy_addr a order)) (Suc order)"
    "block_frames (min a (buddy_addr a order)) (Suc order)
       = block_frames a order + block_frames (buddy_addr a order) order"
    "block_aligned (buddy_addr a order) order"
proof -
  have less: "b < b + block_size order" if "block_aligned b (Suc order)" for b
    unfolding word_less_nat_alt upper_half(1) [OF that assms(2)] by simp
  have low: "block_aligned b order" if "block_aligned b (Suc order)" for b
    using aligned_mono [OF that] by simp
  note facts = buddy_lower [OF _ assms(2)] buddy_upper [OF _ assms(2)] less min_def block_split [OF _ assms(2)] low
    upper_half(2) [OF _ assms(2)] order.strict_implies_order not_le [THEN iffD2, OF less]
  show "block_aligned (min a (buddy_addr a order)) (Suc order)"
    using assms by (cases rule: aligned_cases) (auto simp: facts)
  show "block_frames (min a (buddy_addr a order)) (Suc order)
       = block_frames a order + block_frames (buddy_addr a order) order"
    using assms by (cases rule: aligned_cases) (auto simp: facts add.commute)
  show "block_aligned (buddy_addr a order) order"
    using assms by (cases rule: aligned_cases) (auto simp: facts)
qed

section \<open>The frames of the free lists\<close>

definition list_frames :: "nat \<Rightarrow> u64 list \<Rightarrow> nat multiset" where
  "list_frames order l = (\<Sum>a \<in># mset l. block_frames a order)"

definition pool_frames :: "u64 list list \<Rightarrow> nat multiset" where
  "pool_frames fs = (\<Sum>order < length fs. list_frames order (fs ! order))"

definition lists_aligned :: "u64 list list \<Rightarrow> bool" where
  "lists_aligned fs \<longleftrightarrow> length fs = Suc BUDDY_MAX_ORDER
     \<and> (\<forall>order \<le> BUDDY_MAX_ORDER. \<forall>a \<in> set (fs ! order). block_aligned a order)"

text \<open>No block and its buddy are both free: the blocks are as large as they can be.\<close>

definition coalesced :: "u64 list list \<Rightarrow> bool" where
  "coalesced fs \<longleftrightarrow> (\<forall>order < BUDDY_MAX_ORDER. \<forall>a \<in> set (fs ! order). buddy_addr a order \<notin> set (fs ! order))"

lemma list_frames_simps [simp]:
  "list_frames order [] = {#}"
  "list_frames order (l @ l') = list_frames order l + list_frames order l'"
  "list_frames order (a # l) = block_frames a order + list_frames order l"
  by (simp_all add: list_frames_def)

lemma list_frames_mset: "mset l = add_mset a (mset l') \<Longrightarrow> list_frames order l = block_frames a order + list_frames order l'"
  by (simp add: list_frames_def)

lemma pool_frames_update:
  assumes "order < length fs"
  shows "pool_frames (fs[order := l]) + list_frames order (fs ! order) = pool_frames fs + list_frames order l"
proof -
  have "pool_frames (fs[order := l])
      = list_frames order l + (\<Sum>i \<in> {..<length fs} - {order}. list_frames i (fs ! i))"
    using assms by (simp add: pool_frames_def sum.remove [of _ order])
  moreover have "pool_frames fs
      = list_frames order (fs ! order) + (\<Sum>i \<in> {..<length fs} - {order}. list_frames i (fs ! i))"
    using assms by (simp add: pool_frames_def sum.remove [of _ order])
  ultimately show ?thesis by (simp add: ac_simps)
qed

lemma pool_frames_push:
  "order < length fs \<Longrightarrow> pool_frames (fs[order := fs ! order @ [a]]) = pool_frames fs + block_frames a order"
  using pool_frames_update [of order fs "fs ! order @ [a]"] by (simp add: ac_simps)

lemma pool_frames_removed:
  assumes "order < length fs" and "mset (fs ! order) = add_mset a (mset l)"
  shows "pool_frames (fs[order := l]) + block_frames a order = pool_frames fs"
  using pool_frames_update [OF assms(1), of l] by (simp add: list_frames_mset [OF assms(2)] ac_simps)

lemma mset_butlast: "l \<noteq> [] \<Longrightarrow> mset l = add_mset (last l) (mset (butlast l))"
  by (metis append_butlast_last_id mset.simps(1,2) union_code union_mset_add_mset_right add.right_neutral)

lemma lists_aligned_update:
  "lists_aligned fs \<Longrightarrow> \<forall>a \<in> set l. block_aligned a order \<Longrightarrow> lists_aligned (fs[order := l])"
  by (cases "order < length fs") (auto simp: lists_aligned_def nth_list_update)

lemma coalesced_update:
  "coalesced fs \<Longrightarrow> order < BUDDY_MAX_ORDER \<longrightarrow> (\<forall>a \<in> set l. buddy_addr a order \<notin> set l) \<Longrightarrow>
     coalesced (fs[order := l])"
  by (cases "order < length fs") (auto simp: coalesced_def nth_list_update list_update_beyond)

lemma coalesced_subset:
  "coalesced fs \<Longrightarrow> set l \<subseteq> set (fs ! order) \<Longrightarrow> coalesced (fs[order := l])"
  by (rule coalesced_update) (auto simp: coalesced_def)

text \<open>Taking a block.\<close>

lemma take_block_None:
  "take_block fs order = (fs', None) \<Longrightarrow> fs' = fs \<and> (\<forall>i. order \<le> i \<longrightarrow> i \<le> BUDDY_MAX_ORDER \<longrightarrow> fs ! i = [])"
proof (induction fs order arbitrary: fs' rule: take_block.induct)
  case (1 fs order)
  show ?case
  proof (cases "order > BUDDY_MAX_ORDER")
    case True
    with 1 show ?thesis by (simp add: take_block.simps [of fs order])
  next
    case False
    with 1 have "fs ! order = []" "take_block fs (order + 1) = (fs', None)"
      by (auto simp: take_block.simps [of fs order] split: if_splits prod.splits option.splits)
    with 1(1) [of fs'] False show ?thesis
      by (metis Suc_eq_plus1 le_antisym not_less_eq_eq)
  qed
qed

lemma take_block_Some:
  "take_block fs order = (fs', Some a) \<Longrightarrow> lists_aligned fs \<Longrightarrow>
     lists_aligned fs' \<and> block_aligned a order \<and> order \<le> BUDDY_MAX_ORDER
     \<and> pool_frames fs = block_frames a order + pool_frames fs'
     \<and> (\<forall>i < order. fs' ! i = fs ! i) \<and> (coalesced fs \<longrightarrow> coalesced fs')"
proof (induction fs order arbitrary: fs' a rule: take_block.induct)
  case (1 fs order)
  have le: "order \<le> BUDDY_MAX_ORDER"
    using 1(2) by (simp add: take_block.simps [of fs order] split: if_splits)
  have len: "length fs = Suc BUDDY_MAX_ORDER" using 1(3) by (simp add: lists_aligned_def)
  show ?case
  proof (cases "fs ! order = []")
    case False
    with 1(2) le have r: "fs' = fs[order := butlast (fs ! order)]" "a = last (fs ! order)"
      by (simp_all add: take_block.simps [of fs order])
    have al: "\<forall>b \<in> set (fs ! order). block_aligned b order"
      using 1(3) le by (simp add: lists_aligned_def)
    have "lists_aligned fs'" "block_aligned a order"
      using al False lists_aligned_update [OF 1(3), of "butlast (fs ! order)" order]
      by (auto simp: r dest: in_set_butlastD)
    moreover have "pool_frames fs = block_frames a order + pool_frames fs'"
      using pool_frames_removed [OF _ mset_butlast [OF False]] le len by (simp add: r ac_simps)
    moreover have "coalesced fs \<longrightarrow> coalesced fs'"
      by (auto simp: r intro: coalesced_subset dest: in_set_butlastD)
    ultimately show ?thesis using le by (simp add: r)
  next
    case True
    with 1(2) le obtain fs1 where r: "take_block fs (order + 1) = (fs1, Some a)"
      "fs' = fs1[order := fs1 ! order @ [a + block_size order]]"
      by (auto simp: take_block.simps [of fs order] split: prod.splits option.splits)
    from 1(1) [OF _ _ r(1) 1(3)] le True have ih: "lists_aligned fs1" "block_aligned a (Suc order)"
      "Suc order \<le> BUDDY_MAX_ORDER" "pool_frames fs = block_frames a (Suc order) + pool_frames fs1"
      "\<forall>i < Suc order. fs1 ! i = fs ! i" "coalesced fs \<longrightarrow> coalesced fs1" by auto
    have o: "order < 12" using ih(3) by (simp add: BUDDY_MAX_ORDER_def)
    have fs': "fs' = fs1[order := [a + block_size order]]" using r(2) ih(5) True by simp
    have len1: "length fs1 = Suc BUDDY_MAX_ORDER" using ih(1) by (simp add: lists_aligned_def)
    have "lists_aligned fs'"
      unfolding fs' using upper_half(2) [OF ih(2) o] by (intro lists_aligned_update [OF ih(1)]) simp
    moreover have "block_aligned a order" using aligned_mono [OF ih(2)] by simp
    moreover have "pool_frames fs' = pool_frames fs1 + block_frames (a + block_size order) order"
      unfolding r(2) using le len1 by (intro pool_frames_push) simp
    moreover have "coalesced fs \<longrightarrow> coalesced fs'"
      using ih(6) buddy_ne [OF o] by (auto simp: fs' intro: coalesced_update)
    ultimately show ?thesis
      using le ih(4,5) block_split [OF ih(2) o] by (simp add: fs' ac_simps)
  qed
qed

text \<open>Freeing a block.\<close>

lemma free_block_length [simp]: "length (free_block fs a order) = length fs"
  by (induction fs a order rule: free_block.induct)
    (subst free_block.simps, auto simp: Let_def split: option.splits)

lemma free_block_inv:
  "lists_aligned fs \<Longrightarrow> block_aligned a order \<Longrightarrow> order \<le> BUDDY_MAX_ORDER \<Longrightarrow>
     lists_aligned (free_block fs a order)
     \<and> pool_frames (free_block fs a order) = pool_frames fs + block_frames a order"
proof (induction fs a order rule: free_block.induct)
  case (1 fs a order)
  let ?b = "buddy_addr a order"
  have len: "length fs = Suc BUDDY_MAX_ORDER" and al: "\<forall>b \<in> set (fs ! order). block_aligned b order"
    using 1(2,4) by (simp_all add: lists_aligned_def)
  have push: ?case if "free_block fs a order = fs[order := fs ! order @ [a]]"
    unfolding that using 1(2-4) al len
    by (auto intro!: lists_aligned_update simp: pool_frames_push)
  show ?case
  proof (cases "order < BUDDY_MAX_ORDER")
    case False
    then show ?thesis by (intro push) (simp add: free_block.simps [of fs a order])
  next
    case True
    then have o: "order < 12" by (simp add: BUDDY_MAX_ORDER_def)
    show ?thesis
    proof (cases "position (\<lambda>x. x = ?b) (fs ! order)")
      case None
      then show ?thesis by (intro push) (simp add: free_block.simps [of fs a order] True Let_def del: position_None)
    next
      case (Some pos)
      let ?fs = "fs[order := swap_remove pos (fs ! order)]"
      have pos: "pos < length (fs ! order)" "fs ! order ! pos = ?b"
        using position_SomeD [OF Some] by auto
      have m: "mset (fs ! order) = add_mset ?b (mset (swap_remove pos (fs ! order)))"
        using pos by (simp add: mset_swap_remove) (metis insert_DiffM nth_mem set_mset_mset)
      have sub: "set (swap_remove pos (fs ! order)) \<subseteq> set (fs ! order)"
        using m by (metis set_mset_add_mset_insert set_mset_mset subset_insertI)
      have e: "free_block fs a order = free_block ?fs (min a ?b) (order + 1)"
        using Some True by (simp add: free_block.simps [of fs a order] Let_def)
      have "lists_aligned ?fs" using al sub by (intro lists_aligned_update [OF 1(2)]) auto
      with 1(1) [OF True refl Some] buddy_merge [OF 1(3) o] True
      have "lists_aligned (free_block fs a order)" and
        "pool_frames (free_block fs a order) = pool_frames ?fs + (block_frames a order + block_frames ?b order)"
        unfolding e by simp_all
      moreover have "pool_frames ?fs + block_frames ?b order = pool_frames fs"
        using pool_frames_removed [OF _ m] len 1(4) by simp
      ultimately show ?thesis by (simp add: ac_simps)
    qed
  qed
qed

lemma block_frames_nonempty: "pfn a \<in># block_frames a order"
  by (simp add: block_frames_def)

lemma list_frames_sub: "a \<in> set l \<Longrightarrow> block_frames a order \<subseteq># list_frames order l"
  by (induction l) (auto intro: subset_mset.order_trans simp: subset_mset.add_increasing)

lemma pool_frames_sub:
  assumes "order < length fs" and "a \<in> set (fs ! order)"
  shows "block_frames a order \<subseteq># pool_frames fs"
proof -
  have "pool_frames fs = list_frames order (fs ! order)
      + (\<Sum>i \<in> {..<length fs} - {order}. list_frames i (fs ! i))"
    using assms(1) by (simp add: pool_frames_def sum.remove [of _ order])
  then show ?thesis
    using list_frames_sub [OF assms(2)] by (simp add: subset_mset.add_increasing2)
qed

text \<open>Freeing a block keeps the lists coalesced.\<close>

lemma free_block_coalesced: "coalesced fs \<Longrightarrow> coalesced (free_block fs a order)"
proof (induction fs a order rule: free_block.induct)
  case (1 fs a order)
  let ?b = "buddy_addr a order"
  show ?case
  proof (cases "order < BUDDY_MAX_ORDER")
    case False
    with 1(2) show ?thesis by (simp add: free_block.simps [of fs a order] coalesced_update)
  next
    case True
    then have o: "order < 12" by (simp add: BUDDY_MAX_ORDER_def)
    show ?thesis
    proof (cases "position (\<lambda>x. x = ?b) (fs ! order)")
      case None
      then have nb: "?b \<notin> set (fs ! order)" by auto
      have "buddy_addr x order \<noteq> a" if "x \<in> set (fs ! order)" for x
        using nb that by (metis buddy_buddy)
      with 1(2) nb buddy_ne [OF o, of a] True
      have "coalesced (fs[order := fs ! order @ [a]])"
        by (intro coalesced_update) (auto simp: coalesced_def)
      with None True show ?thesis
        by (simp add: free_block.simps [of fs a order] Let_def del: position_None)
    next
      case (Some pos)
      have "set (swap_remove pos (fs ! order)) \<subseteq> set (fs ! order)"
        using position_lt [OF Some] by (metis mset_swap_remove diff_subset_eq_self mset_subset_eqD set_mset_mset subsetI)
      then have "coalesced (fs[order := swap_remove pos (fs ! order)])"
        by (rule coalesced_subset [OF 1(2)])
      with 1(1) [OF True refl Some] Some True show ?thesis
        by (simp add: free_block.simps [of fs a order] Let_def)
    qed
  qed
qed

text \<open>A run of free frames that forms an aligned block lies within one free block.\<close>

lemma pool_frame_in_block:
  assumes "f \<in># pool_frames fs"
  obtains order a where "order < length fs" "a \<in> set (fs ! order)" "f \<in># block_frames a order"
  using assms by (auto simp: pool_frames_def list_frames_def set_mset_sum)

lemma aligned_within:
  assumes "block_aligned a order" "block_aligned b order'" "order \<le> order'" "order' \<le> 12"
    and "f \<in># block_frames a order" "f \<in># block_frames b order'"
  shows "pfn b \<le> pfn a" "pfn a + 2 ^ order \<le> pfn b + 2 ^ order'"
proof -
  have dvd: "2 ^ i dvd pfn x" if "block_aligned x i" for x i
  proof -
    from that obtain k where "unat x = 2 ^ (12 + i) * k" by (auto simp: block_aligned_def)
    then have "unat x = 4096 * (2 ^ i * k)" by (simp add: power_add)
    then have "pfn x = 2 ^ i * k" by (simp add: pfn_def)
    then show ?thesis by simp
  qed
  obtain k where k: "pfn a = 2 ^ order * k" using dvd [OF assms(1)] by (auto elim: dvdE)
  obtain m where m: "pfn b = 2 ^ order' * m" using dvd [OF assms(2)] by (auto elim: dvdE)
  let ?q = "2 ^ (order' - order) :: nat"
  have q: "2 ^ order' = 2 ^ order * ?q" using assms(3) by (metis le_add_diff_inverse power_add)
  have f: "2 ^ order * k \<le> f" "f < 2 ^ order * (k + 1)"
    "2 ^ order * (?q * m) \<le> f" "f < 2 ^ order * (?q * m + ?q)"
    using assms(5,6) k m q by (auto simp: block_frames_def algebra_simps)
  have "2 ^ order * (?q * m) < 2 ^ order * (k + 1)" using f by linarith
  then have 1: "?q * m \<le> k" by (simp del: mult_Suc_right)
  have "2 ^ order * k < 2 ^ order * (?q * m + ?q)" using f by linarith
  then have 2: "k + 1 \<le> ?q * m + ?q" by simp
  from 1 have "2 ^ order * (?q * m) \<le> 2 ^ order * k" by (rule mult_le_mono2)
  then show "pfn b \<le> pfn a" unfolding k m q by (simp add: mult.assoc)
  from 2 have "2 ^ order * (k + 1) \<le> 2 ^ order * (?q * m + ?q)" by (rule mult_le_mono2)
  then show "pfn a + 2 ^ order \<le> pfn b + 2 ^ order'" unfolding k m q by (simp add: algebra_simps)
qed

lemma pfn_inject: "block_aligned a order \<Longrightarrow> block_aligned b order' \<Longrightarrow> pfn a = pfn b \<Longrightarrow> a = b"
proof -
  assume "block_aligned a order" "block_aligned b order'" and e: "pfn a = pfn b"
  then have "block_aligned a 0" "block_aligned b 0" by (auto elim: aligned_mono)
  then have "unat a = 4096 * pfn a" "unat b = 4096 * pfn b" by (simp_all add: block_aligned_def pfn_def)
  with e show ?thesis by (simp add: word_unat_eq_iff)
qed

lemma free_run_covered:
  assumes "lists_aligned fs" and "coalesced fs"
  shows "order \<le> BUDDY_MAX_ORDER \<Longrightarrow> block_aligned a order \<Longrightarrow> set_mset (block_frames a order) \<subseteq> set_mset (pool_frames fs) \<Longrightarrow>
    \<exists>order' b. order \<le> order' \<and> order' \<le> BUDDY_MAX_ORDER \<and> b \<in> set (fs ! order')
      \<and> pfn b \<le> pfn a \<and> pfn a + 2 ^ order \<le> pfn b + 2 ^ order'"
proof (induction order arbitrary: a)
  case 0
  then have "pfn a \<in># pool_frames fs" by (auto simp: block_frames_def)
  then obtain o' b where b: "o' < length fs" "b \<in> set (fs ! o')" "pfn a \<in># block_frames b o'"
    by (rule pool_frame_in_block)
  then show ?case
    using assms(1) by (intro exI [of _ o'] exI [of _ b]) (auto simp: lists_aligned_def block_frames_def)
next
  case (Suc order)
  let ?u = "a + block_size order"
  have o: "order < 12" using Suc.prems(1) by (simp add: BUDDY_MAX_ORDER_def)
  have al: "block_aligned a order" "block_aligned ?u order"
    using aligned_mono [OF Suc.prems(2)] upper_half(2) [OF Suc.prems(2) o] by simp_all
  have sub: "set_mset (block_frames a order) \<subseteq> set_mset (pool_frames fs)"
    "set_mset (block_frames ?u order) \<subseteq> set_mset (pool_frames fs)"
    using Suc.prems(3) by (simp_all add: block_split [OF Suc.prems(2) o])
  from Suc.IH [OF _ al(1) sub(1)] Suc.prems(1) obtain o1 b1 where
    1: "order \<le> o1" "o1 \<le> BUDDY_MAX_ORDER" "b1 \<in> set (fs ! o1)" "pfn b1 \<le> pfn a"
       "pfn a + 2 ^ order \<le> pfn b1 + 2 ^ o1" by auto
  from Suc.IH [OF _ al(2) sub(2)] Suc.prems(1) obtain o2 b2 where
    2: "order \<le> o2" "o2 \<le> BUDDY_MAX_ORDER" "b2 \<in> set (fs ! o2)" "pfn b2 \<le> pfn ?u"
       "pfn ?u + 2 ^ order \<le> pfn b2 + 2 ^ o2" by auto
  have bal: "block_aligned b1 o1" "block_aligned b2 o2"
    using assms(1) 1(2,3) 2(2,3) by (auto simp: lists_aligned_def)
  have pos: "(0::nat) < 2 ^ order" by simp
  have cover: ?case if "order < o'" "o' \<le> BUDDY_MAX_ORDER" "b \<in> set (fs ! o')" "block_aligned b o'"
    "f \<in># block_frames a (Suc order)" "f \<in># block_frames b o'" for o' b f
    using aligned_within [OF Suc.prems(2) that(4) _ _ that(5,6)] that(1-3)
    by (intro exI [of _ o'] exI [of _ b]) (auto simp: BUDDY_MAX_ORDER_def)
  consider "order < o1" | "order < o2" | "o1 = order" "o2 = order" using 1(1) 2(1) by linarith
  then show ?case
  proof cases
    case 1
    from \<open>pfn b1 \<le> pfn a\<close> \<open>pfn a + 2 ^ order \<le> pfn b1 + 2 ^ o1\<close> pos
    have "pfn a < pfn b1 + 2 ^ o1" by linarith
    with \<open>pfn b1 \<le> pfn a\<close> have "pfn a \<in># block_frames b1 o1" by (auto simp: block_frames_def)
    with 1 \<open>o1 \<le> BUDDY_MAX_ORDER\<close> \<open>b1 \<in> set (fs ! o1)\<close> bal(1) show ?thesis
      by (intro cover [OF _ _ _ _ block_frames_nonempty])
  next
    case 2
    from \<open>pfn b2 \<le> pfn ?u\<close> \<open>pfn ?u + 2 ^ order \<le> pfn b2 + 2 ^ o2\<close> pos
    have "pfn ?u < pfn b2 + 2 ^ o2" by linarith
    with \<open>pfn b2 \<le> pfn ?u\<close> have "pfn ?u \<in># block_frames b2 o2" by (auto simp: block_frames_def)
    moreover have "pfn ?u \<in># block_frames a (Suc order)"
      by (simp add: block_split [OF Suc.prems(2) o] block_frames_nonempty)
    ultimately show ?thesis
      using 2 \<open>o2 \<le> BUDDY_MAX_ORDER\<close> \<open>b2 \<in> set (fs ! o2)\<close> bal(2) by (intro cover)
  next
    case 3
    have "b1 = a" using 3 1(4,5) bal(1) al(1) by (intro pfn_inject) auto
    moreover have "b2 = ?u" using 3 2(4,5) bal(2) al(2) by (intro pfn_inject) auto
    ultimately have "a \<in> set (fs ! order)" "buddy_addr a order \<in> set (fs ! order)"
      using 3 1(3) 2(3) buddy_lower [OF Suc.prems(2) o] by simp_all
    with assms(2) Suc.prems(1) have False by (simp add: coalesced_def)
    then show ?thesis ..
  qed
qed

text \<open>Allocation succeeds exactly when some aligned run of frames of the order is free.\<close>

lemma take_block_complete:
  assumes "lists_aligned fs" and "coalesced fs" and "order \<le> BUDDY_MAX_ORDER"
  shows "snd (take_block fs order) \<noteq> None \<longleftrightarrow>
    (\<exists>a. block_aligned a order \<and> set_mset (block_frames a order) \<subseteq> set_mset (pool_frames fs))"
proof
  assume "snd (take_block fs order) \<noteq> None"
  then obtain fs' a where "take_block fs order = (fs', Some a)" by (metis not_None_eq prod.collapse)
  from take_block_Some [OF this assms(1)]
  show "\<exists>a. block_aligned a order \<and> set_mset (block_frames a order) \<subseteq> set_mset (pool_frames fs)" by auto
next
  assume "\<exists>a. block_aligned a order \<and> set_mset (block_frames a order) \<subseteq> set_mset (pool_frames fs)"
  with free_run_covered [OF assms] obtain o' b where "order \<le> o'" "o' \<le> BUDDY_MAX_ORDER" "b \<in> set (fs ! o')"
    by blast
  then have "fs ! o' \<noteq> []" by auto
  with take_block_None [of fs order] \<open>order \<le> o'\<close> \<open>o' \<le> BUDDY_MAX_ORDER\<close>
  show "snd (take_block fs order) \<noteq> None" by (metis prod.collapse)
qed

section \<open>The operations of the pool\<close>

definition pool_ok :: "PhysicalFramePool \<Rightarrow> bool" where
  "pool_ok p \<longleftrightarrow> lists_aligned (pool_free p) \<and> coalesced (pool_free p)"

abbreviation frames_of :: "PhysicalFramePool \<Rightarrow> nat multiset" where
  "frames_of p \<equiv> pool_frames (pool_free p)"

lemma new_ok: "pool_ok PhysicalFramePool_new" "frames_of PhysicalFramePool_new = {#}"
  by (simp_all add: pool_ok_def PhysicalFramePool_new_def lists_aligned_def coalesced_def
      pool_frames_def nth_replicate del: replicate.simps)

lemma freed_ok:
  "pool_ok p \<Longrightarrow> block_aligned a order \<Longrightarrow> order \<le> BUDDY_MAX_ORDER \<Longrightarrow>
     pool_ok (p\<lparr>pool_free := free_block (pool_free p) a order\<rparr>)
     \<and> pool_frames (free_block (pool_free p) a order) = frames_of p + block_frames a order"
  using free_block_inv [of "pool_free p" a order] by (simp add: pool_ok_def free_block_coalesced)

lemma pool_ok_cong: "pool_free p = pool_free q \<Longrightarrow> pool_ok p = pool_ok q"
  by (simp add: pool_ok_def)

lemma allocate_is_order_0: "allocate p = allocate_order p 0"
  by (simp add: allocate_def allocate_order_def split: prod.splits option.splits)

lemma free_is_order_0: "pool_free_frame p a = free_order p a 0"
proof -
  have "allocated_frames p = 0" if "\<not> Suc 0 \<le> unat (allocated_frames p)"
    using that by (simp add: unat_eq_0 not_less_eq_eq)
  then show ?thesis
    by (simp add: pool_free_frame_def free_order_def block_size_def PAGE_SIZE_def sat_sub_def
        word_less_nat_alt word_le_nat_alt Let_def)
qed

lemma allocate_order_Some:
  assumes "allocate_order p order = (p', Some a)" and "pool_ok p"
  shows "pool_ok p'" "block_aligned a order" "order \<le> BUDDY_MAX_ORDER"
    "frames_of p = block_frames a order + frames_of p'" "total_frames p' = total_frames p"
    "allocated_frames p' = allocated_frames p + 2 ^ order"
proof -
  from assms(1) obtain fs where t: "take_block (pool_free p) order = (fs, Some a)"
    and p': "p' = p\<lparr>pool_free := fs, allocated_frames := allocated_frames p + 2 ^ order\<rparr>"
    by (auto simp: allocate_order_def split: if_splits prod.splits option.splits)
  from take_block_Some [OF t] assms(2)
  show "pool_ok p'" "block_aligned a order" "order \<le> BUDDY_MAX_ORDER"
    "frames_of p = block_frames a order + frames_of p'" by (simp_all add: p' pool_ok_def)
  show "total_frames p' = total_frames p" "allocated_frames p' = allocated_frames p + 2 ^ order"
    by (simp_all add: p')
qed

lemma allocate_order_None: "allocate_order p order = (p', None) \<Longrightarrow> p' = p"
  by (auto simp: allocate_order_def dest: take_block_None split: if_splits prod.splits option.splits)

lemma free_order_spec:
  assumes "pool_ok p" and "order \<le> BUDDY_MAX_ORDER"
  shows "pool_ok (free_order p a order)"
    "frames_of (free_order p a order) = frames_of p + block_frames (a AND NOT (block_size order - 1)) order"
    "total_frames (free_order p a order) = total_frames p"
    "allocated_frames (free_order p a order) = sat_sub (allocated_frames p) (2 ^ order)"
  using freed_ok [OF assms(1) aligned_down assms(2), of a] assms(2)
  by (simp_all add: free_order_def Let_def pool_ok_def)

lemma add_frame_spec:
  assumes "pool_ok p"
  shows "pool_ok (add_frame p a)" "frames_of (add_frame p a) = frames_of p + {# pfn a #}"
    "total_frames (add_frame p a) = total_frames p + 1" "allocated_frames (add_frame p a) = allocated_frames p"
proof -
  have "pfn (a AND NOT 0xFFF) = pfn a"
    unfolding pfn_def mask_12 unat_and_not_mask by simp
  then have "block_frames (a AND NOT 0xFFF) 0 = {# pfn a #}" by (simp add: block_frames_def)
  with freed_ok [OF assms aligned_down_0, of a]
  show "pool_ok (add_frame p a)" "frames_of (add_frame p a) = frames_of p + {# pfn a #}"
    by (simp_all add: add_frame_def pool_ok_def)
qed (simp_all add: add_frame_def)

lemma range_order_aligned:
  "block_aligned addr order \<Longrightarrow> block_aligned addr (range_order addr n order)"
proof (induction addr n order rule: range_order.induct)
  case (1 addr n order)
  have "block_aligned addr (order + 1)" if "addr AND (block_size (order + 1) - 1) = 0"
  proof -
    have "unat (addr AND mask (12 + (order + 1))) = unat addr mod 2 ^ (12 + (order + 1))"
      by (simp add: unsigned_take_bit_eq take_bit_nat_def flip: take_bit_eq_mask)
    with that show ?thesis unfolding block_mask block_aligned_def by (simp add: mod_eq_0_iff_dvd)
  qed
  with 1 show ?case by (subst range_order.simps) auto
qed

lemma add_range_loop_0 [simp]: "add_range_loop p addr 0 = p"
  by (subst add_range_loop.simps) simp

lemma add_range_loop_spec:
  "pool_ok p \<Longrightarrow> block_aligned addr 0 \<Longrightarrow> unat addr + 4096 * unat n \<le> 2 ^ 64 \<Longrightarrow>
     pool_ok (add_range_loop p addr n)
     \<and> frames_of (add_range_loop p addr n) = frames_of p + mset [pfn addr ..< pfn addr + unat n]
     \<and> total_frames (add_range_loop p addr n) = total_frames p + n
     \<and> allocated_frames (add_range_loop p addr n) = allocated_frames p"
proof (induction p addr n rule: add_range_loop.induct)
  case (1 p addr n)
  show ?case
  proof (cases "n > 0")
    case False
    then have "n = 0" by (simp add: word_less_nat_alt unat_eq_0)
    with 1(2) show ?thesis by simp
  next
    case True
    define order where "order = range_order addr n 0"
    define k where "k = (push_bit order 1 :: u64)"
    let ?p = "p\<lparr>pool_free := free_block (pool_free p) addr order, total_frames := total_frames p + k\<rparr>"
    let ?a = "addr + k * PAGE_SIZE"
    have ole: "order \<le> BUDDY_MAX_ORDER" using range_order_le [of 0 addr n] by (simp add: order_def)
    have al: "block_aligned addr order" using range_order_aligned [OF 1(3)] by (simp add: order_def)
    have k: "unat k = 2 ^ order" using ole by (simp add: k_def unat_2p BUDDY_MAX_ORDER_def)
    have kn: "k \<le> n" using range_count_le(2) [OF True, of addr] by (simp add: k_def order_def)
    have e: "add_range_loop p addr n = add_range_loop ?p ?a (n - k)"
      using True by (simp add: add_range_loop.simps [of p addr n] order_def k_def Let_def)
    have p: "pool_ok ?p" "frames_of ?p = frames_of p + block_frames addr order"
      using freed_ok [OF 1(2) al ole] by (simp_all add: pool_ok_def)
    have size: "unat addr + 4096 * unat k \<le> 2 ^ 64"
      using 1(4) kn by (simp add: word_le_nat_alt)
    show ?thesis
    proof (cases "n = k")
      case True
      then have "add_range_loop p addr n = ?p" unfolding e by simp
      with p True k show ?thesis by (simp add: block_frames_def)
    next
      case False
      then have lt: "unat k < unat n" using kn by (simp add: word_le_nat_alt word_unat_eq_iff)
      then have bound: "unat addr + unat k * 4096 < 2 ^ 64" using 1(4) by linarith
      have mul: "unat (k * PAGE_SIZE) = unat k * 4096"
        using bound by (simp add: unat_word_ariths PAGE_SIZE_def)
      have ua: "unat ?a = unat addr + unat k * 4096"
        using bound by (simp add: unat_word_ariths mul)
      have a: "block_aligned ?a 0" "pfn ?a = pfn addr + 2 ^ order"
        using 1(3) by (simp_all add: block_aligned_def pfn_def ua k)
      have nk: "unat (n - k) = unat n - 2 ^ order" using kn by (simp add: unat_sub k)
      have room: "unat ?a + 4096 * unat (n - k) \<le> 2 ^ 64"
        using 1(4) lt unfolding ua nk k by simp
      have "[pfn addr ..< pfn addr + unat n]
          = [pfn addr ..< pfn addr + 2 ^ order] @ [pfn ?a ..< pfn ?a + unat (n - k)]"
        using upt_add_eq_append [of "pfn addr" "pfn addr + 2 ^ order" "unat n - 2 ^ order"] lt
        by (simp add: a(2) nk k)
      then have m: "mset [pfn addr ..< pfn addr + unat n]
          = block_frames addr order + mset [pfn ?a ..< pfn ?a + unat (n - k)]"
        by (simp only: block_frames_def mset_append)
      from 1(1) [OF True order_def k_def [unfolded push_bit_1, folded push_bit_1] p(1) a(1) room]
      show ?thesis unfolding e m p(2) by (simp add: ac_simps)
    qed
  qed
qed

lemma add_range_spec:
  assumes "pool_ok p" and "unat (addr AND NOT 0xFFF) + 4096 * unat n \<le> 2 ^ 64"
  shows "pool_ok (add_range p addr n)"
    "frames_of (add_range p addr n) = frames_of p + mset [pfn addr ..< pfn addr + unat n]"
    "total_frames (add_range p addr n) = total_frames p + n"
    "allocated_frames (add_range p addr n) = allocated_frames p"
proof -
  have "pfn (addr AND NOT 0xFFF) = pfn addr"
    unfolding pfn_def mask_12 unat_and_not_mask by simp
  with add_range_loop_spec [OF assms(1) aligned_down_0 assms(2)]
  show "pool_ok (add_range p addr n)"
    "frames_of (add_range p addr n) = frames_of p + mset [pfn addr ..< pfn addr + unat n]"
    "total_frames (add_range p addr n) = total_frames p + n"
    "allocated_frames (add_range p addr n) = allocated_frames p"
    by (simp_all add: add_range_def)
qed

text \<open>What \<open>available\<close> counts.\<close>

lemma size_list_frames: "size (list_frames order l) = length l * 2 ^ order"
  by (induction l) (simp_all add: block_frames_def)

lemma available_sum:
  "fold (\<lambda>(order, l) n. n + of_nat (length l) * push_bit order 1) (enumerate i fs) (n :: u64)
     = n + of_nat (\<Sum>order < length fs. length (fs ! order) * 2 ^ (i + order))"
proof (induction fs arbitrary: i n)
  case (Cons l fs)
  have "(\<Sum>order < length (l # fs). length ((l # fs) ! order) * 2 ^ (i + order))
      = length l * 2 ^ i + (\<Sum>order < length fs. length (fs ! order) * 2 ^ (Suc i + order))"
    by (simp add: sum.lessThan_Suc_shift del: sum.lessThan_Suc)
  with Cons [of "Suc i" "n + of_nat (length l) * push_bit i 1"] show ?case by (simp add: ac_simps)
qed simp

lemma available_eq: "available p = of_nat (size (frames_of p))"
proof -
  have "size (frames_of p) = (\<Sum>order < length (pool_free p). length (pool_free p ! order) * 2 ^ (0 + order))"
    by (simp add: pool_frames_def size_multiset_sum size_list_frames)
  then show ?thesis unfolding available_def available_sum by simp
qed

section \<open>The pool and its clients\<close>

text \<open>
  A client of the pool owns the frames it was given and gives back only frames it owns; the
  boot code adds only frames that are neither in the pool nor owned. An operation outside
  that discipline is not performed.
\<close>

datatype pool_op = AddFrame u64 | AddRange u64 u64 | Allocate | AllocateOrder nat
  | FreeFrame u64 | FreeOrder u64 nat

abbreviation fresh_frames :: "nat multiset \<Rightarrow> nat multiset \<Rightarrow> bool" where
  "fresh_frames new old \<equiv> new \<inter># old = {#}"

fun pool_step :: "pool_op \<Rightarrow> PhysicalFramePool \<times> nat multiset \<Rightarrow> PhysicalFramePool \<times> nat multiset" where
  "pool_step (AddFrame a) (p, owned) =
     (if fresh_frames {# pfn a #} (frames_of p + owned) then (add_frame p a, owned) else (p, owned))"
| "pool_step (AddRange a n) (p, owned) =
     (if unat (a AND NOT 0xFFF) + 4096 * unat n \<le> 2 ^ 64
         \<and> fresh_frames (mset [pfn a ..< pfn a + unat n]) (frames_of p + owned)
      then (add_range p a n, owned) else (p, owned))"
| "pool_step Allocate (p, owned) =
     (case allocate p of (p', None) \<Rightarrow> (p', owned) | (p', Some a) \<Rightarrow> (p', owned + block_frames a 0))"
| "pool_step (AllocateOrder order) (p, owned) =
     (case allocate_order p order of
        (p', None) \<Rightarrow> (p', owned) | (p', Some a) \<Rightarrow> (p', owned + block_frames a order))"
| "pool_step (FreeFrame a) (p, owned) =
     (if {# pfn a #} \<subseteq># owned then (pool_free_frame p a, owned - {# pfn a #}) else (p, owned))"
| "pool_step (FreeOrder a order) (p, owned) =
     (if order \<le> BUDDY_MAX_ORDER \<and> block_frames (a AND NOT (block_size order - 1)) order \<subseteq># owned
      then (free_order p a order, owned - block_frames (a AND NOT (block_size order - 1)) order)
      else (p, owned))"

text \<open>Every frame is free or owned, at most once, and the counters count them.\<close>

definition frames_ok :: "nat multiset \<Rightarrow> bool" where
  "frames_ok M \<longleftrightarrow> (\<forall>f. count M f \<le> 1) \<and> (\<forall>f \<in># M. f < 2 ^ 52)"

fun client_inv :: "PhysicalFramePool \<times> nat multiset \<Rightarrow> bool" where
  "client_inv (p, owned) \<longleftrightarrow> pool_ok p \<and> frames_ok (frames_of p + owned)
     \<and> unat (allocated_frames p) = size owned
     \<and> unat (total_frames p) = size (frames_of p) + size owned"

lemma frames_ok_size:
  assumes "frames_ok M"
  shows "size M \<le> 2 ^ 52"
proof -
  have "size M = (\<Sum>f \<in> set_mset M. count M f)" by (simp add: size_multiset_overloaded_eq)
  also have "\<dots> \<le> (\<Sum>f \<in> set_mset M. 1)" using assms by (intro sum_mono) (simp add: frames_ok_def)
  also have "\<dots> = card (set_mset M)" by simp
  also have "\<dots> \<le> card {..<2 ^ 52 :: nat}"
    using assms by (intro card_mono) (auto simp: frames_ok_def)
  finally show ?thesis by simp
qed

lemma frames_ok_add:
  "frames_ok M \<Longrightarrow> frames_ok N \<Longrightarrow> fresh_frames N M \<Longrightarrow> frames_ok (M + N)"
  unfolding frames_ok_def
  by (auto simp: multiset_eq_iff min_def)
    (metis add.commute add.right_neutral le_antisym le_zero_eq nle_le)

lemma frames_ok_upt: "k \<le> 2 ^ 52 \<Longrightarrow> frames_ok (mset [i ..< k])"
  unfolding frames_ok_def
proof (intro conjI allI)
  fix f show "count (mset [i ..< k]) f \<le> 1" by (cases "f \<in> {i ..< k}") simp_all
qed auto

lemma pfn_bound: "pfn a < 2 ^ 52"
proof -
  have "unat a < 2 ^ 64" using unsigned_less [of a] by simp
  then show ?thesis by (simp add: pfn_def less_mult_imp_div_less)
qed

lemma size_block [simp]: "size (block_frames a order) = 2 ^ order"
  by (simp add: block_frames_def)

text \<open>Moving a block between the pool and its clients.\<close>

lemma client_alloc:
  assumes "client_inv (p, owned)" and "allocate_order p order = (p', Some a)"
  shows "client_inv (p', owned + block_frames a order)"
    "frames_of p' + (owned + block_frames a order) = frames_of p + owned"
proof -
  have ok: "pool_ok p" using assms(1) by simp
  note a = allocate_order_Some [OF assms(2) ok]
  show sum: "frames_of p' + (owned + block_frames a order) = frames_of p + owned"
    by (simp add: a(4) ac_simps)
  have "size (frames_of p + owned) \<le> 2 ^ 52" using assms(1) by (intro frames_ok_size) simp
  then have "size owned + 2 ^ order \<le> 2 ^ 52" by (simp add: a(4))
  moreover have "unat (2 ^ order :: u64) = 2 ^ order"
    using a(3) by (intro unat_2p) (simp add: BUDDY_MAX_ORDER_def)
  ultimately have "unat (allocated_frames p') = size owned + 2 ^ order"
    using assms(1) by (simp add: a(6) unat_word_ariths)
  then show "client_inv (p', owned + block_frames a order)"
    using assms(1) a(1,5) by (simp add: sum a(4))
qed

lemma client_free:
  assumes "client_inv (p, owned)" and "order \<le> BUDDY_MAX_ORDER"
    and "block_frames (a AND NOT (block_size order - 1)) order \<subseteq># owned"
  shows "client_inv (free_order p a order, owned - block_frames (a AND NOT (block_size order - 1)) order)"
    "frames_of (free_order p a order) + (owned - block_frames (a AND NOT (block_size order - 1)) order)
       = frames_of p + owned"
proof -
  let ?b = "block_frames (a AND NOT (block_size order - 1)) order"
  have ok: "pool_ok p" using assms(1) by simp
  note f = free_order_spec [OF ok assms(2), of a]
  show sum: "frames_of (free_order p a order) + (owned - ?b) = frames_of p + owned"
    unfolding f(2) using assms(3) by (simp add: subset_mset.add_diff_assoc union_assoc)
  have "unat (2 ^ order :: u64) = 2 ^ order"
    using assms(2) by (intro unat_2p) (simp add: BUDDY_MAX_ORDER_def)
  moreover have "2 ^ order \<le> size owned" using size_mset_mono [OF assms(3)] by simp
  ultimately have "unat (allocated_frames (free_order p a order)) = size owned - 2 ^ order"
    using assms(1) by (simp add: f(4) unat_sat_sub)
  then show "client_inv (free_order p a order, owned - ?b)"
    using assms(1) f(1,3) \<open>2 ^ order \<le> size owned\<close> size_Diff_submset [OF assms(3)]
    by (simp add: sum) (simp add: f(2))
qed

lemma client_add:
  assumes "client_inv (p, owned)" and "pool_ok p'" and "frames_of p' = frames_of p + new"
    and "total_frames p' = total_frames p + of_nat (size new)" "allocated_frames p' = allocated_frames p"
    and "frames_ok new" and "fresh_frames new (frames_of p + owned)"
  shows "client_inv (p', owned)"
proof -
  have ok: "frames_ok (frames_of p' + owned)"
    using frames_ok_add [OF _ assms(6,7)] assms(1) by (simp add: assms(3) ac_simps)
  then have "size (frames_of p') + size owned \<le> 2 ^ 52" using frames_ok_size by fastforce
  then have "unat (total_frames p') = size (frames_of p') + size owned"
    using assms(1) by (simp add: assms(3,4) unat_word_ariths unsigned_of_nat take_bit_nat_eq_self)
  with ok assms(1,2,5) show ?thesis by simp
qed

interpretation pool: state_machine "(PhysicalFramePool_new, {#})" pool_step client_inv
proof
  show "client_inv (PhysicalFramePool_new, {#})"
    using new_ok by (simp add: frames_ok_def PhysicalFramePool_new_def)
next
  fix s op assume inv: "client_inv s"
  obtain p owned where s: "s = (p, owned)" by (cases s)
  note inv = inv [unfolded s]
  have ok: "pool_ok p" using inv by simp
  show "client_inv (pool_step op s)"
  proof (cases op)
    case (AddFrame a)
    with inv add_frame_spec [OF ok, of a] frames_ok_upt [of "Suc (pfn a)" "pfn a"] pfn_bound [of a]
    show ?thesis unfolding s
      by (auto intro!: client_add [of p owned _ "{# pfn a #}"] simp del: client_inv.simps)
  next
    case (AddRange a n)
    show ?thesis
    proof (cases "unat (a AND NOT 0xFFF) + 4096 * unat n \<le> 2 ^ 64
         \<and> fresh_frames (mset [pfn a ..< pfn a + unat n]) (frames_of p + owned)")
      case True
      then have r: "unat (a AND NOT 0xFFF) + 4096 * unat n \<le> 2 ^ 64" by simp
      have "4096 * (pfn a + unat n) \<le> 2 ^ 64"
        using r unfolding mask_12 unat_and_not_mask by (simp add: pfn_def)
      then have "frames_ok (mset [pfn a ..< pfn a + unat n])" by (intro frames_ok_upt) simp
      with True add_range_spec [OF ok r] client_add [OF inv, of "add_range p a n" "mset [pfn a ..< pfn a + unat n]"]
      have "client_inv (add_range p a n, owned)" by simp
      with True AddRange s show ?thesis by simp
    qed (use AddRange s inv in auto)
  next
    case Allocate
    with inv show ?thesis unfolding s
      by (auto simp: allocate_is_order_0 simp del: client_inv.simps
          dest: allocate_order_None client_alloc(1) split: prod.splits option.splits)
  next
    case (AllocateOrder order)
    with inv show ?thesis unfolding s
      by (auto simp del: client_inv.simps
          dest: allocate_order_None client_alloc(1) split: prod.splits option.splits)
  next
    case (FreeFrame a)
    have "block_frames (a AND NOT (block_size 0 - 1)) 0 = {# pfn a #}"
      unfolding block_mask block_frames_def pfn_def unat_and_not_mask by simp
    with FreeFrame inv client_free(1) [OF inv, of 0 a] show ?thesis unfolding s
      by (simp add: free_is_order_0 del: client_inv.simps)
  next
    case (FreeOrder a order)
    with inv client_free(1) [OF inv, of order a] show ?thesis unfolding s by (simp del: client_inv.simps)
  qed
qed

section \<open>Draining and refilling the free lists\<close>

lemma restore_spec:
  "pool_ok p \<Longrightarrow> \<forall>(a, order) \<in> set bs. block_aligned a order \<and> order \<le> BUDDY_MAX_ORDER \<Longrightarrow>
     pool_ok (restore_free_frames p bs)
     \<and> frames_of (restore_free_frames p bs) = frames_of p + (\<Sum>(a, order) \<in># mset bs. block_frames a order)
     \<and> total_frames (restore_free_frames p bs) = total_frames p
     \<and> allocated_frames (restore_free_frames p bs) = allocated_frames p"
proof (induction bs arbitrary: p)
  case Nil
  then show ?case by (simp add: restore_free_frames_def)
next
  case (Cons b bs)
  obtain a order where b: "b = (a, order)" by (cases b)
  let ?p = "p\<lparr>pool_free := free_block (pool_free p) a order\<rparr>"
  from Cons.prems(2) b have al: "block_aligned a order" "order \<le> BUDDY_MAX_ORDER" by auto
  then have "block_aligned a 0" by (auto elim: aligned_mono)
  then have "a AND NOT 0xFFF = a"
    unfolding word_unat_eq_iff mask_12 unat_and_not_mask by (simp add: block_aligned_def)
  then have e: "restore_free_frames p (b # bs) = restore_free_frames ?p bs"
    using al(2) by (simp add: restore_free_frames_def b min_absorb1)
  from freed_ok [OF Cons.prems(1) al] have "pool_ok ?p" "frames_of ?p = frames_of p + block_frames a order"
    by simp_all
  with Cons.IH [of ?p] Cons.prems(2) show ?case unfolding e by (simp add: b ac_simps)
qed

lemma steal_blocks:
  "(\<Sum>(a, order) \<in># mset (concat (map (\<lambda>(order, l). map (\<lambda>a. (a, order)) (rev l)) (enumerate i fs))).
       block_frames a order)
     = (\<Sum>order < length fs. list_frames (i + order) (fs ! order))"
proof (induction fs arbitrary: i)
  case (Cons l fs)
  have "(\<Sum>(a, order) \<in># mset (map (\<lambda>a. (a, i)) (rev l)). block_frames a order) = list_frames i l"
    by (simp add: list_frames_def image_mset.compositionality comp_def)
  with Cons [of "Suc i"] show ?case by (simp add: sum.lessThan_Suc_shift del: sum.lessThan_Suc)
qed simp

lemmas pool_eval = free_block.simps take_block.simps BUDDY_MAX_ORDER_def buddy_addr_def
  block_size_def PAGE_SIZE_def swap_remove_def

lemma new_lists: "PhysicalFramePool_new
    = \<lparr>pool_free = [[], [], [], [], [], [], [], [], [], [], [], [], []], total_frames = 0, allocated_frames = 0\<rparr>"
  by (simp add: PhysicalFramePool_new_def BUDDY_MAX_ORDER_def numeral_eq_Suc)

lemma pool_demo:
  "fold pool_step [AddFrame 0x2000, AddFrame 0x3000, AllocateOrder 1] (PhysicalFramePool_new, {#})
     = (\<lparr>pool_free = [[], [], [], [], [], [], [], [], [], [], [], [], []], total_frames = 2,
          allocated_frames = 2\<rparr>, {# 2, 3 #})"
proof -
  let ?p1 = "\<lparr>pool_free = [[0x2000], [], [], [], [], [], [], [], [], [], [], [], []], total_frames = 1,
      allocated_frames = 0\<rparr>"
  let ?p2 = "\<lparr>pool_free = [[], [0x2000], [], [], [], [], [], [], [], [], [], [], []], total_frames = 2,
      allocated_frames = 0\<rparr>"
  have 1: "add_frame PhysicalFramePool_new 0x2000 = ?p1"
    by (simp add: new_lists add_frame_def pool_eval)
  have 2: "add_frame ?p1 0x3000 = ?p2"
    by (simp add: add_frame_def pool_eval)
  have 3: "allocate_order ?p2 1
      = (\<lparr>pool_free = [[], [], [], [], [], [], [], [], [], [], [], [], []], total_frames = 2, allocated_frames = 2\<rparr>,
         Some 0x2000)"
    by (simp add: allocate_order_def pool_eval)
  have "frames_of ?p1 = {# 2 #}"
    using add_frame_spec(2) [OF new_ok(1), of "0x2000"] unfolding 1 by (simp add: new_ok(2) pfn_def)
  then have s2: "pool_step (AddFrame 0x3000) (?p1, {#}) = (?p2, {#})" by (simp add: 2 pfn_def)
  have s1: "pool_step (AddFrame 0x2000) (PhysicalFramePool_new, {#}) = (?p1, {#})"
    by (simp add: 1 new_ok(2))
  have s3: "pool_step (AllocateOrder 1) (?p2, {#})
      = (\<lparr>pool_free = [[], [], [], [], [], [], [], [], [], [], [], [], []], total_frames = 2, allocated_frames = 2\<rparr>,
         {# 2, 3 #})"
    by (simp add: 3 [unfolded One_nat_def] block_frames_def pfn_def upt_rec)
  show ?thesis unfolding fold_simps s1 s2 s3 ..
qed

section \<open>Properties\<close>

text \<open>C6: The allocator never hands a frame to two owners. Whatever frames the boot code adds
  and whatever sequence of allocations and frees the clients perform (giving back only frames
  they own), every 4 KiB frame is at most once either on a free list or owned by a client,
  and the statistics report exactly the number of frames added, owned and free.\<close>

theorem frames_never_shared:
  assumes "fold pool_step ops (PhysicalFramePool_new, {#}) = (p, owned)"
  shows "count (pool_frames (pool_free p) + owned) f \<le> 1
    \<and> get_stats p = (of_nat (size (pool_frames (pool_free p) + owned)), of_nat (size owned),
        of_nat (size (pool_frames (pool_free p))))"
proof -
  have inv: "client_inv (p, owned)" using pool.reachable_inv [of ops] by (simp only: assms)
  have "t = of_nat n" if "unat t = n" for t :: u64 and n using that by auto
  from this [of "total_frames p" "size (frames_of p + owned)"] this [of "allocated_frames p" "size owned"] inv
  have "total_frames p = of_nat (size (frames_of p + owned))" "allocated_frames p = of_nat (size owned)"
    by simp_all
  with inv show ?thesis by (simp add: get_stats_def available_eq frames_ok_def)
qed

theorem frames_never_shared_witness:
  "count (pool_frames [[], [], [], [], [], [], [], [], [], [], [], [], []] + {# 2, 3 #}) 2 \<le> 1
   \<and> get_stats \<lparr>pool_free = [[], [], [], [], [], [], [], [], [], [], [], [], []], total_frames = 2,
        allocated_frames = 2\<rparr> = (2, 2, 0)"
  using frames_never_shared [OF pool_demo, of 2] by (simp add: get_stats_def available_def)

text \<open>C24: No memory is lost to fragmentation beyond what alignment forces. In every reachable
  state a request for \<open>2^order\<close> contiguous frames succeeds exactly when some aligned run of
  \<open>2^order\<close> frames is free, because the free lists never hold a block together with its buddy;
  and the block handed out is such a run.\<close>

theorem allocate_order_complete:
  assumes "fold pool_step ops (PhysicalFramePool_new, {#}) = (p, owned)" and "order \<le> BUDDY_MAX_ORDER"
  shows "(\<exists>p' a. allocate_order p order = (p', Some a) \<and> block_aligned a order
            \<and> pool_frames (pool_free p) = block_frames a order + pool_frames (pool_free p'))
    \<longleftrightarrow> (\<exists>a. block_aligned a order
            \<and> set_mset (block_frames a order) \<subseteq> set_mset (pool_frames (pool_free p)))"
    (is "?alloc \<longleftrightarrow> ?run")
proof -
  have ok: "pool_ok p" using pool.reachable_inv [of ops] by (simp add: assms(1))
  then have "?run \<longleftrightarrow> snd (take_block (pool_free p) order) \<noteq> None"
    using take_block_complete [OF _ _ assms(2)] by (simp add: pool_ok_def)
  also have "\<dots> \<longleftrightarrow> snd (allocate_order p order) \<noteq> None"
    using assms(2) by (simp add: allocate_order_def split: prod.splits option.splits)
  also have "\<dots> \<longleftrightarrow> ?alloc"
    using allocate_order_Some [OF _ ok, of order] by (metis not_None_eq prod.collapse snd_conv)
  finally show ?thesis ..
qed

theorem allocate_order_complete_witness:
  "\<not> (\<exists>a. block_aligned a 1 \<and> set_mset (block_frames a 1)
        \<subseteq> set_mset (pool_frames [[], [], [], [], [], [], [], [], [], [], [], [], []]))"
  using allocate_order_complete [OF pool_demo, of 1] by (simp add: allocate_order_def pool_eval)

text \<open>The drain and refill pair used by the out-of-memory self-test loses no frame: draining
  a well-formed pool empties its free lists, and refilling it with the drained blocks gives a
  well-formed pool with the same free frames and the same counters.\<close>

lemma steal_restore:
  assumes "pool_ok p" and "steal_free_frames p = (p', blocks)"
  shows "pool_frames (pool_free p') = {#} \<and> pool_ok (restore_free_frames p' blocks)
    \<and> pool_frames (pool_free (restore_free_frames p' blocks)) = pool_frames (pool_free p)
    \<and> get_stats (restore_free_frames p' blocks) = get_stats p"
proof -
  have p': "p' = p\<lparr>pool_free := map (\<lambda>l. []) (pool_free p)\<rparr>" and
    bs: "blocks = concat (map (\<lambda>(order, l). map (\<lambda>a. (a, order)) (rev l)) (enumerate 0 (pool_free p)))"
    using assms(2) by (simp_all add: steal_free_frames_def)
  have empty: "frames_of p' = {#}" by (simp add: p' pool_frames_def)
  have ok: "pool_ok p'"
    using assms(1) by (simp add: p' pool_ok_def lists_aligned_def coalesced_def)
  have "\<forall>(a, order) \<in> set blocks. block_aligned a order \<and> order \<le> BUDDY_MAX_ORDER"
    using assms(1) by (auto simp: bs pool_ok_def lists_aligned_def in_set_enumerate_eq)
  from restore_spec [OF ok this] steal_blocks [of 0 "pool_free p"] empty show ?thesis
    by (simp add: get_stats_def available_eq p' flip: bs) (simp add: pool_frames_def)
qed

lemma steal_restore_example:
  "get_stats (restore_free_frames \<lparr>pool_free = [[], [], [], [], [], [], [], [], [], [], [], [], []],
      total_frames = 2, allocated_frames = 0\<rparr> [(0x2000, 1)]) = (2, 0, 2)"
proof -
  let ?p = "\<lparr>pool_free = [[], [0x2000], [], [], [], [], [], [], [], [], [], [], []], total_frames = 2,
      allocated_frames = 0\<rparr>"
  have "add_frame (add_frame PhysicalFramePool_new 0x2000) 0x3000 = ?p"
    by (simp add: new_lists add_frame_def pool_eval)
  with add_frame_spec(1) [OF add_frame_spec(1) [OF new_ok(1)], of "0x2000" "0x3000"]
  have ok: "pool_ok ?p" by simp
  have "steal_free_frames ?p = (\<lparr>pool_free = [[], [], [], [], [], [], [], [], [], [], [], [], []],
      total_frames = 2, allocated_frames = 0\<rparr>, [(0x2000, 1)])"
    by (simp add: steal_free_frames_def)
  from steal_restore [OF ok this] show ?thesis by (simp add: get_stats_def available_def)
qed

end
