(* ===== verification/Page_Table.thy ===== *)
theory Page_Table
  imports Frame_Pool
begin

text \<open>
  \<open>src/kernel/src/mm/vmm/page_table.rs\<close>: four-level page tables in physical memory. Physical
  memory is a function from addresses to bytes; a table is a frame of 512 little-endian entries,
  and a walk reads and writes these bytes. The kernel reaches physical address \<open>p\<close> at virtual
  address \<open>PHYS_MEM_OFFSET + p\<close>; the model accesses \<open>p\<close> directly and keeps the offset only for
  the tests of it. The entry format is that of \<open>arch/arch_compat.rs\<close>, which mirrors the
  hardware's. Translation caches are not modelled.
\<close>

section \<open>Entries\<close>

definition PRESENT :: u64 where "PRESENT = 0x1"
definition WRITABLE :: u64 where "WRITABLE = 0x2"
definition USER_ACCESSIBLE :: u64 where "USER_ACCESSIBLE = 0x4"
definition NO_CACHE :: u64 where "NO_CACHE = 0x10"
definition HUGE_PAGE :: u64 where "HUGE_PAGE = 0x80"
definition NO_EXECUTE :: u64 where "NO_EXECUTE = 0x8000000000000000"

lemmas flag_defs = PRESENT_def WRITABLE_def USER_ACCESSIBLE_def NO_CACHE_def HUGE_PAGE_def NO_EXECUTE_def

definition is_unused :: "u64 \<Rightarrow> bool" where "is_unused e \<longleftrightarrow> e = 0"
definition entry_addr :: "u64 \<Rightarrow> u64" where "entry_addr e = e AND 0x000FFFFFFFFFF000"
definition entry_flags :: "u64 \<Rightarrow> u64" where "entry_flags e = e AND 0x80000000000001FF"
definition set_addr :: "u64 \<Rightarrow> u64 \<Rightarrow> u64" where "set_addr addr flags = addr OR flags"

abbreviation flags_contain :: "u64 \<Rightarrow> u64 \<Rightarrow> bool" where
  "flags_contain fl f \<equiv> fl AND f = f"

definition huge :: "u64 \<Rightarrow> bool" where
  "huge e \<longleftrightarrow> flags_contain (entry_flags e) HUGE_PAGE"

definition to_page_flags :: "ProtFlags \<Rightarrow> u64" where
  "to_page_flags p =
     (let flags = PRESENT OR USER_ACCESSIBLE;
          flags = (if prot_write p then flags OR WRITABLE else flags) in
      if \<not> prot_execute p then flags OR NO_EXECUTE else flags)"

section \<open>Physical memory\<close>

definition store_bytes :: "u64 \<Rightarrow> u8 list \<Rightarrow> (u64 \<Rightarrow> u8) \<Rightarrow> u64 \<Rightarrow> u8" where
  "store_bytes a bs f = (\<lambda>x. if unat (x - a) < length bs then bs ! unat (x - a) else f x)"

definition load_bytes :: "u64 \<Rightarrow> nat \<Rightarrow> (u64 \<Rightarrow> u8) \<Rightarrow> u8 list" where
  "load_bytes a n f = map (\<lambda>i. f (a + of_nat i)) [0..<n]"

record Machine =
  phys_mem :: "u64 \<Rightarrow> u8"
  frame_pool :: PhysicalFramePool
  phys_mem_offset :: u64
  kernel_cr3 :: u64
  kernel_l4_template :: u64

definition read_entry :: "'e Machine_scheme \<Rightarrow> u64 \<Rightarrow> nat \<Rightarrow> u64" where
  "read_entry m table i = u64_of_le (load_bytes (table + 8 * of_nat i) 8 (phys_mem m))"

definition write_entry :: "'e Machine_scheme \<Rightarrow> u64 \<Rightarrow> nat \<Rightarrow> u64 \<Rightarrow> 'e Machine_scheme" where
  "write_entry m table i e =
     m\<lparr>phys_mem := store_bytes (table + 8 * of_nat i) (u64_to_le e) (phys_mem m)\<rparr>"

definition zero_physical_frame :: "'e Machine_scheme \<Rightarrow> u64 \<Rightarrow> 'e Machine_scheme" where
  "zero_physical_frame m phys_addr =
     (if phys_mem_offset m = 0 then m
      else m\<lparr>phys_mem := store_bytes phys_addr (replicate 4096 0) (phys_mem m)\<rparr>)"

definition copy_physical_frame :: "'e Machine_scheme \<Rightarrow> u64 \<Rightarrow> u64 \<Rightarrow> 'e Machine_scheme" where
  "copy_physical_frame m src_phys dst_phys =
     (if phys_mem_offset m = 0 then m
      else m\<lparr>phys_mem := store_bytes dst_phys (load_bytes src_phys 4096 (phys_mem m)) (phys_mem m)\<rparr>)"

definition copy_to_physical_frame :: "'e Machine_scheme \<Rightarrow> u64 \<Rightarrow> u8 list \<Rightarrow> 'e Machine_scheme" where
  "copy_to_physical_frame m phys_addr data =
     (if phys_mem_offset m = 0 \<or> data = [] then m
      else m\<lparr>phys_mem := store_bytes phys_addr (take 4096 data) (phys_mem m)\<rparr>)"

definition read_physical_frame_byte :: "'e Machine_scheme \<Rightarrow> u64 \<Rightarrow> nat \<Rightarrow> u8" where
  "read_physical_frame_byte m phys_addr off =
     (if phys_mem_offset m = 0 then 0 else phys_mem m (phys_addr + of_nat off))"

text \<open>
  The reclaim steps of \<open>allocate_physical_frame\<close> (page cache, swap, out-of-memory killer) belong
  to other parts of the kernel, whose state is the extension of the machine record; they are
  the triple \<open>rc\<close>.
\<close>

type_synonym 'e reclaim = "('e Machine_scheme \<Rightarrow> 'e Machine_scheme) \<times> ('e Machine_scheme \<Rightarrow> 'e Machine_scheme)
  \<times> ('e Machine_scheme \<Rightarrow> 'e Machine_scheme)"

text \<open>\<open>FRAME_POOL.lock().allocate()\<close>.\<close>

definition pool_allocate :: "'e Machine_scheme \<Rightarrow> 'e Machine_scheme \<times> u64 option" where
  "pool_allocate m = (case allocate (frame_pool m) of (p, r) \<Rightarrow> (m\<lparr>frame_pool := p\<rparr>, r))"

definition allocate_physical_frame :: "'e reclaim \<Rightarrow> 'e Machine_scheme \<Rightarrow> 'e Machine_scheme \<times> u64 option" where
  "allocate_physical_frame rc m =
     (case rc of (shrink, reclaim_anonymous, trigger_oom) \<Rightarrow>
     (case pool_allocate m of
        (m, Some addr) \<Rightarrow> (m, Some addr)
      | (m, None) \<Rightarrow>
     (case pool_allocate (shrink m) of
        (m, Some addr) \<Rightarrow> (m, Some addr)
      | (m, None) \<Rightarrow>
     (case pool_allocate (reclaim_anonymous m) of
        (m, Some addr) \<Rightarrow> (m, Some addr)
      | (m, None) \<Rightarrow> pool_allocate (trigger_oom m)))))"

definition free_physical_frame :: "'e Machine_scheme \<Rightarrow> u64 \<Rightarrow> 'e Machine_scheme" where
  "free_physical_frame m phys_addr =
     (let m' = zero_physical_frame m phys_addr in
      m'\<lparr>frame_pool := pool_free_frame (frame_pool m') phys_addr\<rparr>)"

definition allocate_page_table_frame :: "'e reclaim \<Rightarrow> 'e Machine_scheme \<Rightarrow> 'e Machine_scheme \<times> u64 option" where
  "allocate_page_table_frame rc m =
     (case allocate_physical_frame rc m of
        (m', None) \<Rightarrow> (m', None)
      | (m', Some frame) \<Rightarrow> (zero_physical_frame m' frame, Some frame))"

section \<open>Walks\<close>

definition l4_idx :: "u64 \<Rightarrow> nat" where "l4_idx vaddr = unat (drop_bit 39 vaddr AND 0x1FF)"
definition l3_idx :: "u64 \<Rightarrow> nat" where "l3_idx vaddr = unat (drop_bit 30 vaddr AND 0x1FF)"
definition l2_idx :: "u64 \<Rightarrow> nat" where "l2_idx vaddr = unat (drop_bit 21 vaddr AND 0x1FF)"
definition l1_idx :: "u64 \<Rightarrow> nat" where "l1_idx vaddr = unat (drop_bit 12 vaddr AND 0x1FF)"

text \<open>One level of \<open>map_page_in_table\<close>; the first level has no test for huge pages.\<close>

definition next_table :: "'e reclaim \<Rightarrow> 'e Machine_scheme \<Rightarrow> u64 \<Rightarrow> nat \<Rightarrow> bool \<Rightarrow> 'e Machine_scheme \<times> u64 option" where
  "next_table rc m table idx check_huge =
     (if is_unused (read_entry m table idx) then
        (case allocate_page_table_frame rc m of
           (m', None) \<Rightarrow> (m', None)
         | (m', Some pt_phys) \<Rightarrow>
             let m'' = write_entry m' table idx (set_addr pt_phys (PRESENT OR WRITABLE OR USER_ACCESSIBLE)) in
             (m'', Some (entry_addr (read_entry m'' table idx))))
      else if check_huge \<and> huge (read_entry m table idx) then (m, None)
      else (m, Some (entry_addr (read_entry m table idx))))"

definition map_page_in_table :: "'e reclaim \<Rightarrow> 'e Machine_scheme \<Rightarrow> u64 \<Rightarrow> u64 \<Rightarrow> u64 \<Rightarrow> u64 \<Rightarrow> 'e Machine_scheme" where
  "map_page_in_table rc m cr3 vaddr phys_frame flags =
     (if phys_mem_offset m = 0 then m
      else case next_table rc m cr3 (l4_idx vaddr) False of
        (m, None) \<Rightarrow> m
      | (m, Some l3) \<Rightarrow>
     (case next_table rc m l3 (l3_idx vaddr) True of
        (m, None) \<Rightarrow> m
      | (m, Some l2) \<Rightarrow>
     (case next_table rc m l2 (l2_idx vaddr) True of
        (m, None) \<Rightarrow> m
      | (m, Some l1) \<Rightarrow> write_entry m l1 (l1_idx vaddr) (set_addr phys_frame flags))))"

text \<open>The walk of \<open>unmap_page_in_table\<close> and \<open>update_page_flags_in_table\<close> to the last table.\<close>

definition find_l1 :: "'e Machine_scheme \<Rightarrow> u64 \<Rightarrow> u64 \<Rightarrow> u64 option" where
  "find_l1 m cr3 vaddr =
     (let e4 = read_entry m cr3 (l4_idx vaddr) in
      if is_unused e4 then None
      else let e3 = read_entry m (entry_addr e4) (l3_idx vaddr) in
      if is_unused e3 then None
      else let e2 = read_entry m (entry_addr e3) (l2_idx vaddr) in
      if is_unused e2 then None
      else Some (entry_addr e2))"

definition unmap_page_in_table :: "'e Machine_scheme \<Rightarrow> u64 \<Rightarrow> u64 \<Rightarrow> 'e Machine_scheme" where
  "unmap_page_in_table m cr3 vaddr =
     (if phys_mem_offset m = 0 then m
      else case find_l1 m cr3 vaddr of
        None \<Rightarrow> m
      | Some l1 \<Rightarrow> write_entry m l1 (l1_idx vaddr) 0)"

definition update_page_flags_in_table :: "'e Machine_scheme \<Rightarrow> u64 \<Rightarrow> u64 \<Rightarrow> u64 \<Rightarrow> 'e Machine_scheme" where
  "update_page_flags_in_table m cr3 vaddr flags =
     (if phys_mem_offset m = 0 then m
      else case find_l1 m cr3 vaddr of
        None \<Rightarrow> m
      | Some l1 \<Rightarrow>
          let e = read_entry m l1 (l1_idx vaddr) in
          if \<not> is_unused e then write_entry m l1 (l1_idx vaddr) (set_addr (entry_addr e) flags) else m)"

definition get_page_flags_in_table :: "'e Machine_scheme \<Rightarrow> u64 \<Rightarrow> u64 \<Rightarrow> u64 option" where
  "get_page_flags_in_table m cr3 vaddr =
     (if phys_mem_offset m = 0 then None
      else let e4 = read_entry m cr3 (l4_idx vaddr) in
      if is_unused e4 then None
      else let e3 = read_entry m (entry_addr e4) (l3_idx vaddr) in
      if is_unused e3 \<or> huge e3 then None
      else let e2 = read_entry m (entry_addr e3) (l2_idx vaddr) in
      if is_unused e2 \<or> huge e2 then None
      else let e1 = read_entry m (entry_addr e2) (l1_idx vaddr) in
      if is_unused e1 then None else Some (entry_flags e1))"

definition get_mapped_frame :: "'e Machine_scheme \<Rightarrow> u64 \<Rightarrow> u64 \<Rightarrow> u64 option" where
  "get_mapped_frame m cr3 vaddr =
     (if phys_mem_offset m = 0 then None
      else let e4 = read_entry m cr3 (l4_idx vaddr) in
      if is_unused e4 then None
      else let e3 = read_entry m (entry_addr e4) (l3_idx vaddr) in
      if is_unused e3 then None
      else if huge e3 then Some (entry_addr e3)
      else let e2 = read_entry m (entry_addr e3) (l2_idx vaddr) in
      if is_unused e2 then None
      else if huge e2 then Some (entry_addr e2)
      else let e1 = read_entry m (entry_addr e2) (l1_idx vaddr) in
      if is_unused e1 then None else Some (entry_addr e1))"

section \<open>The kernel's own tables\<close>

text \<open>The register \<open>CR3\<close> of the processor is the argument \<open>current\<close>.\<close>

definition kernel_l4_source :: "'e Machine_scheme \<Rightarrow> u64 \<Rightarrow> u64" where
  "kernel_l4_source m current =
     (if kernel_l4_template m \<noteq> 0 then kernel_l4_template m
      else if kernel_cr3 m \<noteq> 0 then kernel_cr3 m else current)"

definition clone_kernel_mappings :: "'e Machine_scheme \<Rightarrow> u64 \<Rightarrow> u64 \<Rightarrow> 'e Machine_scheme" where
  "clone_kernel_mappings m current new_cr3 =
     (if phys_mem_offset m = 0 then m
      else let kernel_l4 = kernel_l4_source m current in
        fold (\<lambda>i m. if is_unused (read_entry m kernel_l4 i) then m
                    else write_entry m new_cr3 i (read_entry m kernel_l4 i)) [0..<512] m)"

definition snapshot_kernel_l4 :: "'e reclaim \<Rightarrow> 'e Machine_scheme \<Rightarrow> u64 \<Rightarrow> 'e Machine_scheme" where
  "snapshot_kernel_l4 rc m0 current =
     (let m = (if kernel_cr3 m0 = 0 then m0\<lparr>kernel_cr3 := current\<rparr> else m0) in
      case allocate_page_table_frame rc m of
        (m', Some tmpl) \<Rightarrow> (copy_physical_frame m' (kernel_cr3 m) tmpl)\<lparr>kernel_l4_template := tmpl\<rparr>
      | (m', None) \<Rightarrow> m')"

definition map_kernel_page_wx :: "'e reclaim \<Rightarrow> 'e Machine_scheme \<Rightarrow> u64 \<Rightarrow> u64 \<Rightarrow> bool \<Rightarrow> bool \<Rightarrow> 'e Machine_scheme \<times> bool" where
  "map_kernel_page_wx rc m vaddr phys writable executable =
     (if writable \<and> executable then (m, False)
      else if kernel_cr3 m = 0 then (m, False)
      else let flags = (if writable then PRESENT OR (WRITABLE OR NO_EXECUTE)
                        else if executable then PRESENT else PRESENT OR NO_EXECUTE) in
        (map_page_in_table rc m (kernel_cr3 m) vaddr phys flags, True))"

definition remap_kernel_page_wx :: "'e Machine_scheme \<Rightarrow> u64 \<Rightarrow> bool \<Rightarrow> bool \<Rightarrow> 'e Machine_scheme \<times> bool" where
  "remap_kernel_page_wx m vaddr writable executable =
     (if writable \<and> executable then (m, False)
      else if kernel_cr3 m = 0 then (m, False)
      else let flags = (if writable then PRESENT OR (WRITABLE OR NO_EXECUTE)
                        else if \<not> executable then PRESENT OR NO_EXECUTE else PRESENT) in
        (update_page_flags_in_table m (kernel_cr3 m) vaddr flags, True))"

definition kernel_page_writable :: "'e Machine_scheme \<Rightarrow> u64 \<Rightarrow> bool option" where
  "kernel_page_writable m vaddr =
     (if kernel_cr3 m = 0 then None
      else map_option (\<lambda>f. flags_contain f WRITABLE) (get_page_flags_in_table m (kernel_cr3 m) vaddr))"

section \<open>Reading what was written\<close>

lemma length_load_bytes [simp]: "length (load_bytes a n f) = n"
  by (simp add: load_bytes_def)

lemma unat_diff_less:
  fixes a x :: u64
  assumes "unat a + n \<le> 2 ^ 64"
  shows "unat (x - a) < n \<longleftrightarrow> unat a \<le> unat x \<and> unat x < unat a + n"
proof (cases "a \<le> x")
  case True
  then show ?thesis by (auto simp: unat_sub word_le_nat_alt)
next
  case False
  then have lt: "unat x < unat a" by (simp add: word_le_nat_alt)
  have "unat (x - a) = unat x + 2 ^ 64 - unat a"
    using False unsigned_less [of a] lt by (simp add: unat_sub_if')
  with lt assms show ?thesis by simp
qed

lemma store_bytes_apply:
  assumes "unat a + length bs \<le> 2 ^ 64"
  shows "store_bytes a bs f x =
    (if unat a \<le> unat x \<and> unat x < unat a + length bs then bs ! (unat x - unat a) else f x)"
proof -
  have "unat (x - a) = unat x - unat a" if "unat a \<le> unat x"
    using that by (simp add: unat_sub word_le_nat_alt)
  then show ?thesis by (simp add: store_bytes_def unat_diff_less [OF assms])
qed

lemma unat_plus_small: "unat a + i < 2 ^ 64 \<Longrightarrow> unat (a + of_nat i) = unat a + i" for a :: u64
  by (subst unat_word_ariths) (simp add: unat_of_nat_small)

lemma load_store_same:
  assumes "unat a + length bs \<le> 2 ^ 64"
  shows "load_bytes a (length bs) (store_bytes a bs f) = bs"
proof (rule nth_equalityI)
  fix i assume "i < length (load_bytes a (length bs) (store_bytes a bs f))"
  then have i: "i < length bs" by simp
  with assms have "unat (a + of_nat i) = unat a + i" by (intro unat_plus_small) simp
  with i show "load_bytes a (length bs) (store_bytes a bs f) ! i = bs ! i"
    by (simp add: load_bytes_def store_bytes_apply [OF assms])
qed simp

lemma load_store_other:
  assumes "unat a + length bs \<le> 2 ^ 64" and "unat b + n \<le> 2 ^ 64"
    and "unat b + n \<le> unat a \<or> unat a + length bs \<le> unat b"
  shows "load_bytes b n (store_bytes a bs f) = load_bytes b n f"
  unfolding load_bytes_def
proof (rule map_cong [OF refl])
  fix i assume "i \<in> set [0..<n]"
  then have "unat (b + of_nat i) = unat b + i" using assms(2) by (intro unat_plus_small) simp
  with assms(3) \<open>i \<in> set [0..<n]\<close> show "store_bytes a bs f (b + of_nat i) = f (b + of_nat i)"
    by (auto simp: store_bytes_apply [OF assms(1)])
qed

text \<open>Offsets within an aligned frame do not wrap.\<close>

lemma frame_room: "page_aligned t \<Longrightarrow> unat t + 4096 \<le> 2 ^ 64"
proof -
  assume "page_aligned t"
  then obtain k where k: "unat t = 4096 * k" by (auto simp: page_aligned_iff)
  have "unat t < 2 ^ 64" using unsigned_less [of t] by simp
  with k have "k < 2 ^ 52" by simp
  then have "k + 1 \<le> 2 ^ 52" by simp
  then have "4096 * (k + 1) \<le> 4096 * 2 ^ 52" by (rule mult_le_mono2)
  with k show ?thesis by simp
qed

lemma unat_frame_offset: "page_aligned t \<Longrightarrow> i < 4096 \<Longrightarrow> unat (t + of_nat i) = unat t + i"
  using frame_room [of t] by (intro unat_plus_small) simp

lemma entry_offset: "8 * of_nat i = (of_nat (8 * i) :: u64)"
  by simp

lemma unat_entry: "page_aligned t \<Longrightarrow> i < 512 \<Longrightarrow> unat (t + 8 * of_nat i) = unat t + 8 * i"
  unfolding entry_offset by (rule unat_frame_offset) simp_all

lemma aligned_frames_apart:
  assumes "page_aligned s" and "page_aligned t" and "s \<noteq> t"
  shows "unat s + 4096 \<le> unat t \<or> unat t + 4096 \<le> unat s"
proof -
  from assms(1,2) obtain j k where "unat s = 4096 * j" "unat t = 4096 * k"
    unfolding page_aligned_iff dvd_def by blast
  moreover from assms(3) have "unat s \<noteq> unat t" by (simp add: word_unat_eq_iff)
  ultimately show ?thesis by auto
qed

lemma load_store_frames:
  assumes "page_aligned s" "page_aligned t" "s \<noteq> t" "i + length bs \<le> 4096" "j + n \<le> 4096"
  shows "load_bytes (t + of_nat j) n (store_bytes (s + of_nat i) bs f) = load_bytes (t + of_nat j) n f"
proof (cases "bs = [] \<or> n = 0")
  case True
  then show ?thesis by (auto simp: store_bytes_def load_bytes_def)
next
  case False
  with assms(4,5) have "i < 4096" "j < 4096" by (auto simp: Suc_le_eq simp flip: length_greater_0_conv)
  with assms have "unat (s + of_nat i) = unat s + i" "unat (t + of_nat j) = unat t + j"
    by (simp_all add: unat_frame_offset)
  with aligned_frames_apart [OF assms(1-3)] frame_room [OF assms(1)] frame_room [OF assms(2)] assms(4,5)
  show ?thesis by (intro load_store_other) auto
qed

text \<open>A write into one frame leaves the bytes of the others alone.\<close>

lemma store_other_frame:
  assumes "page_aligned s" "i + length bs \<le> 4096" "pfn x \<noteq> pfn s"
  shows "store_bytes (s + of_nat i) bs f x = f x"
proof (cases "bs = []")
  case False
  with assms(2) have i: "i < 4096" by (cases bs) simp_all
  have u: "unat (s + of_nat i) = unat s + i" by (rule unat_frame_offset [OF assms(1) i])
  obtain k where k: "unat s = 4096 * k" using assms(1) unfolding page_aligned_iff by (elim dvdE)
  have "\<not> (unat s + i \<le> unat x \<and> unat x < unat s + i + length bs)"
  proof
    assume "unat s + i \<le> unat x \<and> unat x < unat s + i + length bs"
    then have "unat x div 4096 = k" using assms(2) k by (intro div_nat_eqI) simp_all
    with assms(3) k show False by (simp add: pfn_def)
  qed
  moreover have "unat (s + of_nat i) + length bs \<le> 2 ^ 64" using frame_room [OF assms(1)] assms(2) u by simp
  ultimately show ?thesis by (auto simp: store_bytes_apply u)
qed (simp add: store_bytes_def)

lemma write_entry_other_frame:
  "page_aligned t \<Longrightarrow> i < 512 \<Longrightarrow> pfn x \<noteq> pfn t \<Longrightarrow> phys_mem (write_entry m t i e) x = phys_mem m x"
  using store_other_frame [of t "8 * i" "u64_to_le e" x "phys_mem m"] by (simp add: write_entry_def)

lemma zero_other_frame:
  "page_aligned f \<Longrightarrow> pfn x \<noteq> pfn f \<Longrightarrow> phys_mem (zero_physical_frame m f) x = phys_mem m x"
  using store_other_frame [of f 0 "replicate 4096 0" x] by (simp add: zero_physical_frame_def)

lemma read_write_entry:
  assumes "page_aligned s" "page_aligned t" "i < 512" "j < 512"
  shows "read_entry (write_entry m s i e) t j = (if s = t \<and> i = j then e else read_entry m t j)"
proof (cases "s = t")
  case False
  from load_store_frames [OF assms(1,2) this, of "8 * i" "u64_to_le e" "8 * j" 8] assms(3,4) False
  show ?thesis by (simp add: read_entry_def write_entry_def)
next
  case True
  have room: "unat t + 8 * i + 8 \<le> 2 ^ 64" "unat t + 8 * j + 8 \<le> 2 ^ 64"
    using frame_room [OF assms(2)] assms(3,4) by simp_all
  show ?thesis
  proof (cases "i = j")
    case True
    have "load_bytes (t + 8 * of_nat j) 8 (store_bytes (t + 8 * of_nat j) (u64_to_le e) (phys_mem m))
        = u64_to_le e"
      using load_store_same [of "t + 8 * of_nat j" "u64_to_le e" "phys_mem m"] room assms(2,4)
      by (simp add: unat_entry)
    with True \<open>s = t\<close> show ?thesis by (simp add: read_entry_def write_entry_def)
  next
    case False
    then have "8 * j + 8 \<le> 8 * i \<or> 8 * i + 8 \<le> 8 * j" by auto
    with room assms(2-4) have "load_bytes (t + 8 * of_nat j) 8
        (store_bytes (t + 8 * of_nat i) (u64_to_le e) (phys_mem m)) = load_bytes (t + 8 * of_nat j) 8 (phys_mem m)"
      by (intro load_store_other) (auto simp: unat_entry)
    with False \<open>s = t\<close> show ?thesis by (simp add: read_entry_def write_entry_def)
  qed
qed

lemma read_entry_cong: "phys_mem m = phys_mem m' \<Longrightarrow> read_entry m t j = read_entry m' t j"
  by (simp add: read_entry_def)

lemma of_le_zeros: "of_le (replicate n 0) = (0 :: 'a::len word)"
  by (induction n) (simp_all add: of_le_def)

lemma read_zeroed:
  assumes "page_aligned s" "page_aligned t" "j < 512" "phys_mem_offset m \<noteq> 0"
  shows "read_entry (zero_physical_frame m s) t j = (if s = t then 0 else read_entry m t j)"
proof (cases "s = t")
  case False
  with load_store_frames [OF assms(1,2) this, of 0 "replicate 4096 0" "8 * j" 8] assms(3,4)
  show ?thesis by (simp add: read_entry_def zero_physical_frame_def)
next
  case True
  have "load_bytes (t + 8 * of_nat j) 8 (store_bytes t (replicate 4096 0) (phys_mem m)) = replicate 8 0"
  proof (rule nth_equalityI)
    fix k assume "k < length (load_bytes (t + 8 * of_nat j) 8 (store_bytes t (replicate 4096 0) (phys_mem m)))"
    then have k: "k < 8" by simp
    have "unat (t + of_nat (8 * j + k)) = unat t + (8 * j + k)"
      using assms(2,3) k by (intro unat_frame_offset) simp_all
    then have "store_bytes t (replicate 4096 0) (phys_mem m) (t + of_nat (8 * j + k)) = 0"
      using frame_room [OF assms(2)] assms(3) k by (subst store_bytes_apply) simp_all
    with k show "load_bytes (t + 8 * of_nat j) 8 (store_bytes t (replicate 4096 0) (phys_mem m)) ! k
        = replicate 8 0 ! k"
      by (simp add: load_bytes_def add.assoc)
  qed simp
  with True assms(4) show ?thesis by (simp add: read_entry_def zero_physical_frame_def of_le_zeros)
qed

section \<open>The fields of an entry\<close>

lemma addr_mask: "(0x000FFFFFFFFFF000 :: u64) = mask 52 AND NOT (mask 12)"
  by (simp add: mask_eq_exp_minus_1)

lemma entry_addr_aligned [simp]: "page_aligned (entry_addr e)"
  by (simp add: page_aligned_def entry_addr_def and.assoc)

text \<open>The addresses an entry can hold.\<close>

definition frame_addr :: "u64 \<Rightarrow> bool" where
  "frame_addr a \<longleftrightarrow> page_aligned a \<and> unat a < 2 ^ 52"

lemma entry_addr_frame: "frame_addr a \<Longrightarrow> entry_addr a = a"
proof -
  assume a: "frame_addr a"
  then have "take_bit 52 a = a"
    by (simp add: frame_addr_def word_unat_eq_iff unsigned_take_bit_eq take_bit_nat_eq_self)
  moreover from a have "a AND NOT (mask 12) = a"
    using page_align_down_id [of a] by (simp add: frame_addr_def page_align_down_def mask_12)
  ultimately show ?thesis
    by (simp add: entry_addr_def addr_mask take_bit_eq_mask flip: and.assoc)
qed

lemma entry_addr_set:
  assumes "frame_addr a" and "fl AND 0x000FFFFFFFFFF000 = 0"
  shows "entry_addr (set_addr a fl) = a"
  using entry_addr_frame [OF assms(1)] assms(2)
  by (simp add: entry_addr_def set_addr_def bit.conj_disj_distrib2)

lemma frame_addr_flags:
  assumes "frame_addr a"
  shows "a AND 0x80000000000001FF = 0"
proof -
  have "a AND 0x80000000000001FF = (a AND 0x000FFFFFFFFFF000) AND 0x80000000000001FF"
    using entry_addr_frame [OF assms] by (simp add: entry_addr_def)
  then show ?thesis by (simp add: and.assoc)
qed

lemma entry_flags_set: "frame_addr a \<Longrightarrow> entry_flags (set_addr a fl) = fl AND 0x80000000000001FF"
  by (simp add: entry_flags_def set_addr_def bit.conj_disj_distrib2 frame_addr_flags)

lemma present_not_unused: "flags_contain fl PRESENT \<Longrightarrow> \<not> is_unused (set_addr a fl)"
  by (auto simp: is_unused_def set_addr_def or_eq_0_iff PRESENT_def)

abbreviation table_flags :: u64 where
  "table_flags \<equiv> PRESENT OR WRITABLE OR USER_ACCESSIBLE"

lemma link_entry:
  assumes "frame_addr a"
  shows "entry_addr (set_addr a table_flags) = a" "\<not> is_unused (set_addr a table_flags)"
    "\<not> huge (set_addr a table_flags)"
proof -
  show "entry_addr (set_addr a table_flags) = a"
    by (rule entry_addr_set [OF assms]) (simp add: flag_defs)
  show "\<not> is_unused (set_addr a table_flags)"
    by (rule present_not_unused) (simp add: flag_defs)
  show "\<not> huge (set_addr a table_flags)"
    by (simp add: huge_def entry_flags_set [OF assms]) (simp add: flag_defs)
qed

section \<open>Tables as trees\<close>

text \<open>The table reached by a list of indices, and the entry of a page.\<close>

fun walk :: "'e Machine_scheme \<Rightarrow> u64 \<Rightarrow> nat list \<Rightarrow> u64 option" where
  "walk m t [] = Some t"
| "walk m t (i # p) =
     (let e = read_entry m t i in if is_unused e \<or> huge e then None else walk m (entry_addr e) p)"

definition leaf :: "'e Machine_scheme \<Rightarrow> u64 \<Rightarrow> nat list \<Rightarrow> u64 option" where
  "leaf m cr3 p =
     (case walk m cr3 (butlast p) of
        None \<Rightarrow> None
      | Some l1 \<Rightarrow> let e = read_entry m l1 (last p) in if is_unused e then None else Some e)"

lemma leaf_snoc:
  "leaf m cr3 (b @ [l]) = (case walk m cr3 b of None \<Rightarrow> None
     | Some l1 \<Rightarrow> let e = read_entry m l1 l in if is_unused e then None else Some e)"
  by (cases "walk m cr3 b") (simp_all add: leaf_def)

definition page_path :: "u64 \<Rightarrow> nat list" where
  "page_path v = [l4_idx v, l3_idx v, l2_idx v, l1_idx v]"

text \<open>
  The trees of all processes share the tables of the kernel, which the upper half of the top table
  leads to. A path of the lower half starts with one of its first 256 entries.
\<close>

definition user_path :: "nat list \<Rightarrow> bool" where
  "user_path p \<longleftrightarrow> set p \<subseteq> {..<512} \<and> (case p of [] \<Rightarrow> True | i # _ \<Rightarrow> i < 256)"

lemma user_path_simps [simp]: "user_path []" "user_path (i # r) \<longleftrightarrow> i < 256 \<and> set r \<subseteq> {..<512}"
  by (auto simp: user_path_def)

lemma user_path_append [dest]: "user_path (a @ j # r) \<Longrightarrow> user_path a \<and> j < 512 \<and> set r \<subseteq> {..<512}"
  by (cases a) auto

abbreviation user_page :: "u64 \<Rightarrow> bool" where
  "user_page v \<equiv> l4_idx v < 256"

abbreviation table_path :: "nat list \<Rightarrow> bool" where
  "table_path p \<equiv> length p \<le> 3 \<and> user_path p"

definition tables :: "'e Machine_scheme \<Rightarrow> u64 \<Rightarrow> u64 set" where
  "tables m cr3 = {t. \<exists>p. table_path p \<and> walk m cr3 p = Some t}"

text \<open>A well-formed tree: no table is reached twice, and no entry of the top table is huge.\<close>

definition pt_wf :: "'e Machine_scheme \<Rightarrow> u64 \<Rightarrow> bool" where
  "pt_wf m cr3 \<longleftrightarrow> phys_mem_offset m \<noteq> 0 \<and> page_aligned cr3 \<and> (\<forall>i < 512. \<not> huge (read_entry m cr3 i))
     \<and> (\<forall>p q t. table_path p \<longrightarrow> table_path q \<longrightarrow> walk m cr3 p = Some t \<longrightarrow> walk m cr3 q = Some t \<longrightarrow> p = q)"

lemma pt_wf_inject:
  "pt_wf m cr3 \<Longrightarrow> table_path p \<Longrightarrow> table_path q \<Longrightarrow> walk m cr3 p = Some t \<Longrightarrow> walk m cr3 q = Some t \<Longrightarrow> p = q"
  unfolding pt_wf_def by blast

lemma walk_append: "walk m t (p @ q) = (case walk m t p of None \<Rightarrow> None | Some u \<Rightarrow> walk m u q)"
  by (induction p arbitrary: t) (auto simp: Let_def)

lemma walk_aligned: "page_aligned t \<Longrightarrow> walk m t p = Some u \<Longrightarrow> page_aligned u"
proof (induction p arbitrary: t)
  case (Cons i p)
  then show ?case using Cons.IH [OF entry_addr_aligned] by (simp add: Let_def split: if_splits)
qed simp

lemma walk_in_tables: "table_path p \<Longrightarrow> walk m cr3 p = Some t \<Longrightarrow> t \<in> tables m cr3"
  unfolding tables_def by blast

lemma tables_aligned: "page_aligned cr3 \<Longrightarrow> t \<in> tables m cr3 \<Longrightarrow> page_aligned t"
  by (auto simp: tables_def walk_aligned)

text \<open>A walk depends only on the entries along its path.\<close>

lemma walk_cong:
  assumes "\<And>q j r u. p = q @ j # r \<Longrightarrow> walk m t q = Some u \<Longrightarrow> read_entry m' u j = read_entry m u j"
  shows "walk m' t p = walk m t p"
  using assms
proof (induction p arbitrary: t)
  case (Cons i p)
  have e: "read_entry m' t i = read_entry m t i" using Cons.prems [of "[]" i p t] by simp
  show ?case
  proof (cases "is_unused (read_entry m t i) \<or> huge (read_entry m t i)")
    case True
    with e show ?thesis by (simp add: Let_def)
  next
    case False
    have "walk m' (entry_addr (read_entry m t i)) p = walk m (entry_addr (read_entry m t i)) p"
    proof (rule Cons.IH)
      fix q j r u assume "p = q @ j # r" and "walk m (entry_addr (read_entry m t i)) q = Some u"
      with False show "read_entry m' u j = read_entry m u j"
        by (intro Cons.prems [of "i # q" j r]) (auto simp: Let_def)
    qed
    with e False show ?thesis by (simp add: Let_def)
  qed
qed simp

text \<open>A new empty table \<open>f\<close> linked at entry \<open>i\<close> of the table \<open>s\<close> reached by \<open>p\<close>.\<close>

definition linked :: "'e Machine_scheme \<Rightarrow> 'e Machine_scheme \<Rightarrow> u64 \<Rightarrow> nat list \<Rightarrow> u64 \<Rightarrow> nat \<Rightarrow> u64 \<Rightarrow> bool" where
  "linked m m' cr3 p s i f \<longleftrightarrow> pt_wf m cr3 \<and> phys_mem_offset m' = phys_mem_offset m
     \<and> length p \<le> 2 \<and> user_path p \<and> i < 512 \<and> walk m cr3 p = Some s \<and> is_unused (read_entry m s i)
     \<and> f \<notin> tables m cr3 \<and> frame_addr f
     \<and> (\<forall>t j. page_aligned t \<longrightarrow> j < 512 \<longrightarrow> read_entry m' t j =
          (if t = f then 0 else if t = s \<and> j = i then set_addr f table_flags else read_entry m t j))"

lemma linkedD:
  assumes "linked m m' cr3 p s i f"
  shows "pt_wf m cr3" "phys_mem_offset m' = phys_mem_offset m" "length p \<le> 2" "user_path p" "i < 512"
    "walk m cr3 p = Some s" "is_unused (read_entry m s i)" "f \<notin> tables m cr3" "frame_addr f"
    "page_aligned cr3" "page_aligned s" "page_aligned f" "table_path p"
  using assms by (auto simp: linked_def pt_wf_def frame_addr_def elim: walk_aligned)

lemma linked_reads:
  assumes "linked m m' cr3 p s i f" and "page_aligned t" and "j < 512"
  shows "read_entry m' t j =
    (if t = f then 0 else if t = s \<and> j = i then set_addr f table_flags else read_entry m t j)"
  using assms unfolding linked_def by blast

lemma linked_old_reads:
  assumes L: "linked m m' cr3 p s i f" and q: "table_path q" "walk m cr3 q = Some u"
    and j: "j < 512" "q \<noteq> p \<or> j \<noteq> i"
  shows "read_entry m' u j = read_entry m u j"
proof -
  note D = linkedD [OF L]
  have "u \<noteq> f" using walk_in_tables [OF q] D(8) by auto
  moreover have "\<not> (u = s \<and> j = i)"
    using pt_wf_inject [OF D(1) q(1) D(13) q(2)] D(6) j(2) by auto
  ultimately show ?thesis
    using linked_reads [OF L walk_aligned [OF D(10) q(2)] j(1)] by auto
qed

lemma linked_elsewhere:
  assumes L: "linked m m' cr3 p s i f" and q: "table_path q" "\<And>r. q \<noteq> p @ i # r"
  shows "walk m' cr3 q = walk m cr3 q"
proof (rule walk_cong)
  fix a j r u assume a: "q = a @ j # r" "walk m cr3 a = Some u"
  from q(2) a(1) have "a \<noteq> p \<or> j \<noteq> i" by auto
  with linked_old_reads [OF L, of a u j] a q(1) show "read_entry m' u j = read_entry m u j" by auto
qed

lemma linked_new:
  assumes L: "linked m m' cr3 p s i f" and r: "set r \<subseteq> {..<512}"
  shows "walk m' cr3 (p @ i # r) = (if r = [] then Some f else None)" "walk m cr3 (p @ i # r) = None"
proof -
  note D = linkedD [OF L]
  show "walk m cr3 (p @ i # r) = None" using D(6,7) by (simp add: walk_append)
  have "walk m' cr3 p = Some s" using linked_elsewhere [OF L D(13)] D(6) by auto
  moreover have "s \<noteq> f" using walk_in_tables [OF D(13,6)] D(8) by auto
  moreover have "walk m' f r = (if r = [] then Some f else None)"
    using r linked_reads [OF L D(12)] by (cases r) (auto simp: is_unused_def)
  ultimately show "walk m' cr3 (p @ i # r) = (if r = [] then Some f else None)"
    using linked_reads [OF L D(11,5)] link_entry [OF D(9)] by (simp add: walk_append)
qed

lemma linked_walk_cases:
  assumes L: "linked m m' cr3 p s i f" and q: "table_path q" "walk m' cr3 q = Some t"
  obtains "q = p @ [i]" "t = f" | "walk m cr3 q = Some t" "t \<noteq> f"
proof (cases "\<exists>r. q = p @ i # r")
  case True
  then obtain r where r: "q = p @ i # r" by blast
  with q(1) have "set r \<subseteq> {..<512}" by auto
  with q(2) r linked_new [OF L] show ?thesis by (auto split: if_splits intro: that)
next
  case False
  with linked_elsewhere [OF L q(1)] q(2) have "walk m cr3 q = Some t" by auto
  with walk_in_tables [OF q(1) this] linkedD(8) [OF L] show ?thesis by (auto intro: that)
qed

lemma linked_wf:
  assumes L: "linked m m' cr3 p s i f"
  shows "pt_wf m' cr3"
proof -
  note D = linkedD [OF L]
  have "cr3 \<noteq> f" using walk_in_tables [of "[]" m cr3 cr3] D(8) by auto
  then have "\<not> huge (read_entry m' cr3 j)" if "j < 512" for j
    using linked_reads [OF L D(10) that] link_entry(3) [OF D(9)] D(1) that by (auto simp: pt_wf_def)
  moreover have "a = b" if "table_path a" "table_path b" "walk m' cr3 a = Some t" "walk m' cr3 b = Some t" for a b t
    by (rule linked_walk_cases [OF L that(1,3)]; rule linked_walk_cases [OF L that(2,4)])
      (use that pt_wf_inject [OF D(1)] in auto)
  moreover have "phys_mem_offset m' \<noteq> 0" using D(1,2) by (simp add: pt_wf_def)
  ultimately show ?thesis using D(10) unfolding pt_wf_def by blast
qed

lemma linked_tables:
  assumes L: "linked m m' cr3 p s i f"
  shows "tables m' cr3 \<subseteq> insert f (tables m cr3)"
proof
  fix t assume "t \<in> tables m' cr3"
  then obtain q where q: "table_path q" "walk m' cr3 q = Some t" by (auto simp: tables_def)
  show "t \<in> insert f (tables m cr3)"
    by (rule linked_walk_cases [OF L q]) (use q walk_in_tables in auto)
qed

lemma linked_leaf:
  assumes L: "linked m m' cr3 p s i f" and q: "length q = 4" "user_path q"
  shows "leaf m' cr3 q = leaf m cr3 q"
proof -
  note D = linkedD [OF L]
  obtain b l where bl: "q = b @ [l]" using q(1) by (metis append_butlast_last_id length_0_conv zero_neq_numeral)
  with q have b: "table_path b" "l < 512" "length b = 3" by auto
  show ?thesis
  proof (cases "\<exists>r. b = p @ i # r")
    case True
    then obtain r where r: "b = p @ i # r" by blast
    with b(1) have "set r \<subseteq> {..<512}" by auto
    with linked_new [OF L this] linked_reads [OF L D(12) b(2)] show ?thesis
      by (simp add: bl r leaf_snoc is_unused_def del: append_assoc)
  next
    case False
    with linked_elsewhere [OF L b(1)] have w: "walk m' cr3 b = walk m cr3 b" by auto
    have "b \<noteq> p" using b(3) D(3) by auto
    with linked_old_reads [OF L b(1) _ b(2)] show ?thesis
      by (auto simp: leaf_snoc bl w split: option.splits)
  qed
qed

lemma unat_and_9: "unat (x AND 0x1FF) < 512" for x :: u64
proof -
  have "x AND 0x1FF = take_bit 9 x" by (simp add: take_bit_eq_mask mask_eq_exp_minus_1)
  then show ?thesis using take_bit_nat_less_exp [of 9 "unat x"] by (simp add: unsigned_take_bit_eq)
qed

lemma idx_less [simp]: "l4_idx v < 512" "l3_idx v < 512" "l2_idx v < 512" "l1_idx v < 512"
  by (simp_all add: l4_idx_def l3_idx_def l2_idx_def l1_idx_def unat_and_9)

text \<open>An address of the lower half that no huge page covers.\<close>

definition small_page :: "'e Machine_scheme \<Rightarrow> u64 \<Rightarrow> u64 \<Rightarrow> bool" where
  "small_page m cr3 v \<longleftrightarrow> user_page v
     \<and> (\<forall>t. walk m cr3 [l4_idx v] = Some t \<longrightarrow> \<not> huge (read_entry m t (l3_idx v)))
     \<and> (\<forall>t. walk m cr3 [l4_idx v, l3_idx v] = Some t \<longrightarrow> \<not> huge (read_entry m t (l2_idx v)))"

lemma small_user: "small_page m cr3 v \<Longrightarrow> user_page v"
  by (simp add: small_page_def)

lemma not_huge_0 [simp]: "\<not> huge 0"
  by (simp add: huge_def entry_flags_def HUGE_PAGE_def)

text \<open>Neither a new table nor a change of a last-level entry makes a page huge.\<close>

lemma linked_huge:
  assumes L: "linked m m' cr3 p s i f" and q: "table_path q" "walk m' cr3 q = Some t" and j: "j < 512"
    and nh: "\<And>u. walk m cr3 q = Some u \<Longrightarrow> \<not> huge (read_entry m u j)"
  shows "\<not> huge (read_entry m' t j)"
proof (rule linked_walk_cases [OF L q])
  assume "q = p @ [i]" "t = f"
  with linked_reads [OF L linkedD(12) [OF L] j] show ?thesis by simp
next
  assume t: "walk m cr3 q = Some t" "t \<noteq> f"
  with linked_reads [OF L walk_aligned [OF linkedD(10) [OF L] t(1)] j] nh [OF t(1)]
    link_entry(3) [OF linkedD(9) [OF L]] show ?thesis by simp
qed

lemma linked_small:
  assumes L: "linked m m' cr3 p s i f" and small: "small_page m cr3 v"
  shows "small_page m' cr3 v"
  unfolding small_page_def
proof (intro conjI allI impI)
  show "user_page v" using small by (simp add: small_page_def)
next
  fix t assume "walk m' cr3 [l4_idx v] = Some t"
  then show "\<not> huge (read_entry m' t (l3_idx v))"
    using small unfolding small_page_def by (intro linked_huge [OF L, of "[l4_idx v]"]) (auto simp del: walk.simps)
next
  fix t assume "walk m' cr3 [l4_idx v, l3_idx v] = Some t"
  then show "\<not> huge (read_entry m' t (l2_idx v))"
    using small unfolding small_page_def by (intro linked_huge [OF L, of "[l4_idx v, l3_idx v]"]) (auto simp del: walk.simps)
qed

text \<open>A change of an entry of a last-level table.\<close>

lemma leaf_write:
  fixes e :: u64
  assumes wf: "pt_wf m cr3" and p: "length p = 3" "user_path p" "walk m cr3 p = Some l1" and i: "i < 512"
  defines "m' \<equiv> write_entry m l1 i e"
  shows "table_path q \<Longrightarrow> walk m' cr3 q = walk m cr3 q"
    and "length r = 4 \<Longrightarrow> user_path r \<Longrightarrow>
      leaf m' cr3 r = (if r = p @ [i] then if is_unused e then None else Some e else leaf m cr3 r)"
    and "pt_wf m' cr3"
    and "small_page m cr3 v \<Longrightarrow> small_page m' cr3 v"
proof -
  have al: "page_aligned cr3" "page_aligned l1" using wf p(3) by (auto simp: pt_wf_def elim: walk_aligned)
  have reads: "read_entry m' u j = read_entry m u j"
    if "table_path a" "walk m cr3 a = Some u" "j < 512" "a \<noteq> p \<or> j \<noteq> i" for a u j
    using read_write_entry [OF al(2) walk_aligned [OF al(1) that(2)] i that(3), of m e]
      pt_wf_inject [OF wf that(1) _ that(2), of p] p that(4) by (auto simp: m'_def)
  show w: "walk m' cr3 q = walk m cr3 q" if "table_path q" for q
  proof (rule walk_cong)
    fix a j r u assume a: "q = a @ j # r" "walk m cr3 a = Some u"
    with that have "length a < 3" "table_path a" "j < 512" by auto
    with p(1) a(2) show "read_entry m' u j = read_entry m u j" by (intro reads) auto
  qed
  show "leaf m' cr3 r = (if r = p @ [i] then if is_unused e then None else Some e else leaf m cr3 r)"
    if r: "length r = 4" "user_path r" for r
  proof -
    obtain b l where bl: "r = b @ [l]" using r(1) by (metis append_butlast_last_id length_0_conv zero_neq_numeral)
    with r have b: "table_path b" "l < 512" by auto
    have "read_entry m' l1 i = e" using read_write_entry [OF al(2,2) i i] by (simp add: m'_def)
    with reads [OF b(1) _ b(2)] w [OF b(1)] p(3) show ?thesis
      by (auto simp: leaf_snoc bl split: option.splits)
  qed
  have "\<not> huge (read_entry m' cr3 j)" if "j < 512" for j
  proof -
    have "[] \<noteq> p" using p(1) by auto
    with reads [of "[]" cr3 j] that wf show ?thesis by (simp add: pt_wf_def)
  qed
  with w wf show "pt_wf m' cr3" unfolding pt_wf_def by (simp add: m'_def write_entry_def)
  show "small_page m' cr3 v" if "small_page m cr3 v"
  proof -
    have "read_entry m' t j = read_entry m t j" if "table_path q" "length q < 3" "walk m cr3 q = Some t" "j < 512" for q t j
    proof -
      have "q \<noteq> p" using that(2) p(1) by auto
      with reads [OF that(1,3,4)] show ?thesis by simp
    qed
    note same = this [of "[l4_idx v]"] this [of "[l4_idx v, l3_idx v]"]
    from that show ?thesis unfolding small_page_def
      using same w [of "[l4_idx v]"] w [of "[l4_idx v, l3_idx v]"] by (simp del: walk.simps)
  qed
qed

section \<open>Frames in use\<close>

text \<open>
  What the page tables rely on: the pool, with the frames \<open>R\<close> that reclaim can return to it,
  holds no frame in use, and none beyond the 52-bit physical address space.
\<close>

definition apart :: "('e \<Rightarrow> nat multiset) \<Rightarrow> 'e Machine_scheme \<Rightarrow> nat set \<Rightarrow> bool" where
  "apart R m used \<longleftrightarrow> pool_ok (frame_pool m)
     \<and> (\<forall>f. count (frames_of (frame_pool m) + R (Machine.more m)) f \<le> 1)
     \<and> (\<forall>f \<in># frames_of (frame_pool m) + R (Machine.more m). f < 2 ^ 40 \<and> f \<notin> used)"

text \<open>Reclaim moves frames it holds to the pool and leaves memory as it is.\<close>

definition reclaims :: "('e \<Rightarrow> nat multiset) \<Rightarrow> ('e Machine_scheme \<Rightarrow> 'e Machine_scheme) \<Rightarrow> bool" where
  "reclaims R g \<longleftrightarrow> (\<forall>m. pool_ok (frame_pool m) \<longrightarrow> pool_ok (frame_pool (g m))
     \<and> frames_of (frame_pool (g m)) + R (Machine.more (g m)) = frames_of (frame_pool m) + R (Machine.more m)
     \<and> phys_mem (g m) = phys_mem m \<and> phys_mem_offset (g m) = phys_mem_offset m
     \<and> kernel_cr3 (g m) = kernel_cr3 m \<and> kernel_l4_template (g m) = kernel_l4_template m)"

fun reclaim_ok :: "('e \<Rightarrow> nat multiset) \<Rightarrow> 'e reclaim \<Rightarrow> bool" where
  "reclaim_ok R (shrink, reclaim_anonymous, trigger_oom) \<longleftrightarrow>
     reclaims R shrink \<and> reclaims R reclaim_anonymous \<and> reclaims R trigger_oom"

definition same_memory :: "'e Machine_scheme \<Rightarrow> 'e Machine_scheme \<Rightarrow> bool" where
  "same_memory m m' \<longleftrightarrow> phys_mem m' = phys_mem m \<and> phys_mem_offset m' = phys_mem_offset m
     \<and> kernel_cr3 m' = kernel_cr3 m \<and> kernel_l4_template m' = kernel_l4_template m"

lemma same_memory_refl [simp]: "same_memory m m"
  by (simp add: same_memory_def)

lemma same_memory_trans: "same_memory m m' \<Longrightarrow> same_memory m' m'' \<Longrightarrow> same_memory m m''"
  by (simp add: same_memory_def)

lemma apart_cong:
  "apart R m used \<Longrightarrow> frame_pool m' = frame_pool m \<Longrightarrow> Machine.more m' = Machine.more m \<Longrightarrow> apart R m' used"
  by (simp add: apart_def)

lemma apart_subset: "apart R m used \<Longrightarrow> used' \<subseteq> used \<Longrightarrow> apart R m used'"
  unfolding apart_def by blast

lemma apart_reclaim:
  assumes "apart R m used" and "reclaims R g"
  shows "apart R (g m) used" "same_memory m (g m)"
  using assms by (simp_all add: apart_def reclaims_def same_memory_def)

text \<open>A frame the pool hands out.\<close>

definition handed_out :: "('e \<Rightarrow> nat multiset) \<Rightarrow> 'e Machine_scheme \<Rightarrow> nat set \<Rightarrow> 'e Machine_scheme \<Rightarrow> u64 option \<Rightarrow> bool" where
  "handed_out R m used m' r \<longleftrightarrow> same_memory m m' \<and>
     (case r of None \<Rightarrow> apart R m' used
      | Some a \<Rightarrow> frame_addr a \<and> pfn a \<notin> used \<and> apart R m' (insert (pfn a) used))"

lemma pool_allocate_out:
  assumes "apart R m used" and "pool_allocate m = (m', r)"
  shows "handed_out R m used m' r"
proof -
  from assms(2) obtain p where p: "allocate (frame_pool m) = (p, r)" "m' = m\<lparr>frame_pool := p\<rparr>"
    by (auto simp: pool_allocate_def split: prod.splits)
  have same: "same_memory m m'" by (simp add: p same_memory_def)
  show ?thesis
  proof (cases r)
    case None
    with p have "p = frame_pool m" using allocate_order_None by (metis allocate_is_order_0)
    with None same assms(1) p(2) show ?thesis by (simp add: handed_out_def)
  next
    case (Some a)
    with p have al: "allocate_order (frame_pool m) 0 = (p, Some a)" by (simp add: allocate_is_order_0)
    note S = allocate_order_Some [OF al]
    from assms(1) have ok: "pool_ok (frame_pool m)" by (simp add: apart_def)
    have split: "frames_of (frame_pool m) = add_mset (pfn a) (frames_of p)"
      using S(4) [OF ok] by (simp add: block_frames_def)
    have a: "pfn a < 2 ^ 40" "pfn a \<notin> used" using assms(1) by (auto simp: apart_def split)
    have al: "page_aligned a" using S(2) [OF ok] by (simp add: block_aligned_def page_aligned_iff)
    then have "unat a = 4096 * pfn a" by (simp add: pfn_def page_aligned_iff)
    with a al have "frame_addr a" by (simp add: frame_addr_def)
    moreover have "apart R m' (insert (pfn a) used)"
      using assms(1) S(1) [OF ok] unfolding apart_def p(2)
      by (auto simp: split count_eq_zero_iff split: if_splits)
        (metis Suc_n_not_le_n add_is_0 count_eq_zero_iff le_SucE le_zero_eq not_less_eq_eq plus_1_eq_Suc)+
    ultimately show ?thesis using Some same a by (simp add: handed_out_def)
  qed
qed

lemma handed_out_after:
  assumes "same_memory m n" and "handed_out R n used m' r"
  shows "handed_out R m used m' r"
  using assms by (auto simp: handed_out_def intro: same_memory_trans)

lemma pool_allocate_None:
  assumes "apart R m used" and "pool_allocate m = (m', None)" and "reclaims R g"
  shows "apart R (g m') used" "same_memory m (g m')"
  using pool_allocate_out [OF assms(1,2)] apart_reclaim [OF _ assms(3), of m' used]
  by (auto simp: handed_out_def intro: same_memory_trans)

lemma allocate_physical_frame_out:
  assumes "apart R m used" and "reclaim_ok R rc" and "allocate_physical_frame rc m = (m', r)"
  shows "handed_out R m used m' r"
proof -
  obtain g1 g2 g3 where rc: "rc = (g1, g2, g3)" by (cases rc)
  with assms(2) have g: "reclaims R g1" "reclaims R g2" "reclaims R g3" by simp_all
  obtain m1 r1 where 1: "pool_allocate m = (m1, r1)" by fastforce
  obtain m2 r2 where 2: "pool_allocate (g1 m1) = (m2, r2)" by fastforce
  obtain m3 r3 where 3: "pool_allocate (g2 m2) = (m3, r3)" by fastforce
  obtain m4 r4 where 4: "pool_allocate (g3 m3) = (m4, r4)" by fastforce
  note out1 = pool_allocate_out [OF assms(1) 1]
  show ?thesis
  proof (cases r1)
    case (Some a)
    with out1 1 assms(3) show ?thesis by (simp add: allocate_physical_frame_def rc)
  next
    case N1: None
    note a1 = pool_allocate_None [OF assms(1) 1 [unfolded N1] g(1)]
    note out2 = handed_out_after [OF a1(2) pool_allocate_out [OF a1(1) 2]]
    show ?thesis
    proof (cases r2)
      case (Some a)
      with out2 1 N1 2 assms(3) show ?thesis by (simp add: allocate_physical_frame_def rc)
    next
      case N2: None
      note a2 = pool_allocate_None [OF a1(1) 2 [unfolded N2] g(2)]
      note out3 = handed_out_after [OF a1(2) handed_out_after [OF a2(2) pool_allocate_out [OF a2(1) 3]]]
      show ?thesis
      proof (cases r3)
        case (Some a)
        with out3 1 N1 2 N2 3 assms(3) show ?thesis by (simp add: allocate_physical_frame_def rc)
      next
        case N3: None
        note a3 = pool_allocate_None [OF a2(1) 3 [unfolded N3] g(3)]
        have "handed_out R m used m4 r4"
          by (rule handed_out_after [OF a1(2) handed_out_after [OF a2(2)
                handed_out_after [OF a3(2) pool_allocate_out [OF a3(1) 4]]]])
        with 1 N1 2 N2 3 N3 4 assms(3) show ?thesis by (simp add: allocate_physical_frame_def rc)
      qed
    qed
  qed
qed

section \<open>One level of the mapping walk\<close>

text \<open>
  The invariant of a page-table tree with the frames \<open>used\<close> of its clients: the tree is
  well-formed, neither its tables nor those frames are in the pool, and no table is among them.
\<close>

definition pt_inv :: "('e \<Rightarrow> nat multiset) \<Rightarrow> nat set \<Rightarrow> 'e Machine_scheme \<Rightarrow> u64 \<Rightarrow> bool" where
  "pt_inv R used m cr3 \<longleftrightarrow> pt_wf m cr3 \<and> apart R m (used \<union> pfn ` tables m cr3) \<and> used \<inter> pfn ` tables m cr3 = {}"

text \<open>The bytes of the frames \<open>used\<close> are the same.\<close>

definition keeps_frames :: "nat set \<Rightarrow> 'e Machine_scheme \<Rightarrow> 'e Machine_scheme \<Rightarrow> bool" where
  "keeps_frames used m m' \<longleftrightarrow> (\<forall>x. pfn x \<in> used \<longrightarrow> phys_mem m' x = phys_mem m x)"

lemma keeps_frames_refl [simp]: "keeps_frames used m m"
  by (simp add: keeps_frames_def)

lemma keeps_frames_trans: "keeps_frames used m n \<Longrightarrow> keeps_frames used n m' \<Longrightarrow> keeps_frames used m m'"
  by (simp add: keeps_frames_def)

lemma same_memory_frames: "same_memory m m' \<Longrightarrow> keeps_frames used m m'"
  by (simp add: same_memory_def keeps_frames_def)

lemma same_memory_reads: "same_memory m m' \<Longrightarrow> read_entry m' t j = read_entry m t j"
  by (simp add: same_memory_def read_entry_def)

lemma same_memory_walk: "same_memory m m' \<Longrightarrow> walk m' t p = walk m t p"
  by (induction p arbitrary: t) (simp_all add: same_memory_reads Let_def)

lemma same_memory_tree:
  assumes "same_memory m m'"
  shows "pt_wf m' cr3 \<longleftrightarrow> pt_wf m cr3" "tables m' cr3 = tables m cr3" "leaf m' cr3 p = leaf m cr3 p"
    "small_page m' cr3 v \<longleftrightarrow> small_page m cr3 v"
proof -
  have "walk m' = walk m" "read_entry m' = read_entry m" "phys_mem_offset m' = phys_mem_offset m"
    using assms by (auto simp: fun_eq_iff same_memory_walk same_memory_reads) (simp add: same_memory_def)
  then show "pt_wf m' cr3 \<longleftrightarrow> pt_wf m cr3" "tables m' cr3 = tables m cr3" "leaf m' cr3 p = leaf m cr3 p"
    "small_page m' cr3 v \<longleftrightarrow> small_page m cr3 v"
    by (simp_all add: pt_wf_def tables_def leaf_def small_page_def split: option.split)
qed

text \<open>What one level does: the tree is kept, no page changes, and a table is found or made.\<close>

definition descends ::
  "('e \<Rightarrow> nat multiset) \<Rightarrow> nat set \<Rightarrow> 'e Machine_scheme \<Rightarrow> u64 \<Rightarrow> nat list \<Rightarrow> 'e Machine_scheme \<Rightarrow> u64 option \<Rightarrow> bool" where
  "descends R used m cr3 p m' r \<longleftrightarrow> pt_inv R used m' cr3
     \<and> (\<forall>t. r = Some t \<longrightarrow> walk m' cr3 p = Some t)
     \<and> (\<forall>q. length q = 4 \<longrightarrow> user_path q \<longrightarrow> leaf m' cr3 q = leaf m cr3 q)
     \<and> (\<forall>t. walk m cr3 p = Some t \<longrightarrow> r = Some t \<and> m' = m)
     \<and> (\<forall>v. small_page m cr3 v \<longrightarrow> small_page m' cr3 v) \<and> keeps_frames used m m'"

lemma new_table_linked:
  assumes wf: "pt_wf m cr3" and p: "length p \<le> 2" "user_path p" "walk m cr3 p = Some s"
    and i: "i < 512" "is_unused (read_entry m s i)"
    and f: "same_memory m m1" "frame_addr f" "f \<notin> tables m cr3"
  shows "linked m (write_entry (zero_physical_frame m1 f) s i (set_addr f table_flags)) cr3 p s i f" "s \<noteq> f"
proof -
  have al: "page_aligned s" "page_aligned f"
    using wf p(3) f(2) by (auto simp: pt_wf_def frame_addr_def elim: walk_aligned)
  have off: "phys_mem_offset m1 \<noteq> 0" using wf f(1) by (simp add: pt_wf_def same_memory_def)
  show "s \<noteq> f" using walk_in_tables [OF _ p(3)] p(1,2) f(3) by auto
  then have "read_entry (write_entry (zero_physical_frame m1 f) s i (set_addr f table_flags)) t j =
      (if t = f then 0 else if t = s \<and> j = i then set_addr f table_flags else read_entry m t j)"
    if "page_aligned t" "j < 512" for t j
    using that by (simp add: read_write_entry al i(1) read_zeroed off same_memory_reads [OF f(1)])
  moreover have "phys_mem_offset (write_entry (zero_physical_frame m1 f) s i (set_addr f table_flags))
      = phys_mem_offset m"
    using f(1) by (simp add: write_entry_def zero_physical_frame_def same_memory_def)
  ultimately show "linked m (write_entry (zero_physical_frame m1 f) s i (set_addr f table_flags)) cr3 p s i f"
    unfolding linked_def using wf p i f by blast
qed

lemma descend_new:
  assumes inv: "pt_inv R used m cr3" and p: "length p \<le> 2" "user_path p" "walk m cr3 p = Some s"
    and i: "i < 512" "is_unused (read_entry m s i)"
    and out: "handed_out R m (used \<union> pfn ` tables m cr3) m1 (Some f)"
  defines "m2 \<equiv> write_entry (zero_physical_frame m1 f) s i (set_addr f table_flags)"
  shows "descends R used m cr3 (p @ [i]) m2 (Some (entry_addr (read_entry m2 s i)))"
proof -
  from out have f: "same_memory m m1" "frame_addr f" "f \<notin> tables m cr3"
    "apart R m1 (insert (pfn f) (used \<union> pfn ` tables m cr3))" "pfn f \<notin> used" by (auto simp: handed_out_def)
  from inv have wf: "pt_wf m cr3" and sep: "used \<inter> pfn ` tables m cr3 = {}" by (simp_all add: pt_inv_def)
  note L = new_table_linked [OF wf p i f(1-3), folded m2_def]
  have "apart R m2 (used \<union> pfn ` tables m2 cr3)"
  proof (rule apart_cong [OF apart_subset [OF f(4)]])
    show "used \<union> pfn ` tables m2 cr3 \<subseteq> insert (pfn f) (used \<union> pfn ` tables m cr3)"
      using linked_tables [OF L(1)] by auto
  qed (simp_all add: m2_def write_entry_def zero_physical_frame_def)
  moreover have "entry_addr (read_entry m2 s i) = f"
    using linked_reads [OF L(1) linkedD(11) [OF L(1)] i(1)] L(2) link_entry(1) [OF f(2)] by simp
  moreover have "used \<inter> pfn ` tables m2 cr3 = {}" using linked_tables [OF L(1)] sep f(5) by auto
  moreover have "keeps_frames used m m2"
  proof -
    have "page_aligned f" "page_aligned s" "s \<in> tables m cr3"
      using f(2) walk_in_tables [OF _ p(3)] p(1,2) wf by (auto simp: frame_addr_def pt_wf_def tables_aligned)
    moreover from this sep f(5) have "pfn x \<noteq> pfn s \<and> pfn x \<noteq> pfn f" if "pfn x \<in> used" for x using that by auto
    ultimately show ?thesis using f(1) i(1)
      by (simp add: keeps_frames_def m2_def write_entry_other_frame zero_other_frame same_memory_def)
  qed
  ultimately show ?thesis
    using linked_wf [OF L(1)] linked_new [OF L(1), of "[]"] linked_leaf [OF L(1)] linked_small [OF L(1)]
    by (simp add: descends_def pt_inv_def)
qed

lemma next_table_spec:
  assumes inv: "pt_inv R used m cr3" and rc: "reclaim_ok R rc"
    and p: "length p \<le> 2" "user_path p" "walk m cr3 p = Some s" and i: "i < 512"
    and chk: "chk \<or> p = []" and nt: "next_table rc m s i chk = (m', r)"
  shows "descends R used m cr3 (p @ [i]) m' r"
proof (cases "is_unused (read_entry m s i)")
  case unused: True
  obtain m1 r1 where a: "allocate_physical_frame rc m = (m1, r1)" by fastforce
  from inv have ap: "apart R m (used \<union> pfn ` tables m cr3)" by (simp add: pt_inv_def)
  note out = allocate_physical_frame_out [OF ap rc a]
  show ?thesis
  proof (cases r1)
    case None
    with out have "same_memory m m1" "apart R m1 (used \<union> pfn ` tables m cr3)" by (simp_all add: handed_out_def)
    moreover have "m' = m1" "r = None" using nt unused a None
      by (simp_all add: next_table_def allocate_page_table_frame_def)
    moreover have "walk m cr3 (p @ [i]) = None" using unused by (simp add: walk_append p(3))
    ultimately show ?thesis using inv by (simp add: descends_def pt_inv_def same_memory_tree same_memory_frames)
  next
    case (Some f)
    from descend_new [OF inv p i unused out [unfolded Some]] nt unused a Some show ?thesis
      by (auto simp: next_table_def allocate_page_table_frame_def Let_def)
  qed
next
  case used: False
  have nh: "\<not> huge (read_entry m s i)" if "\<not> chk"
    using chk that inv i p(3) by (auto simp: pt_inv_def pt_wf_def)
  show ?thesis
  proof (cases "huge (read_entry m s i)")
    case True
    with nh have chk by blast
    with True used nt have "m' = m" "r = None" by (simp_all add: next_table_def)
    moreover have "walk m cr3 (p @ [i]) = None" using True by (simp add: walk_append p(3))
    ultimately show ?thesis using inv by (simp add: descends_def)
  next
    case False
    with used nt have "m' = m" "r = Some (entry_addr (read_entry m s i))" by (auto simp: next_table_def)
    with False used inv show ?thesis by (simp add: descends_def walk_append p(3))
  qed
qed

section \<open>The tables as a map from pages to entries\<close>

declare walk.simps(2) [simp del]


definition page_entry :: "'e Machine_scheme \<Rightarrow> u64 \<Rightarrow> u64 \<Rightarrow> u64 option" where
  "page_entry m cr3 v = (if user_page v then leaf m cr3 (page_path v) else None)"

abbreviation l1_path :: "u64 \<Rightarrow> nat list" where
  "l1_path v \<equiv> [l4_idx v, l3_idx v, l2_idx v]"

lemma page_entry_path: "page_path w = page_path v \<Longrightarrow> page_entry m cr3 w = page_entry m cr3 v"
  by (simp add: page_entry_def page_path_def)

lemma page_path_snoc: "page_path v = l1_path v @ [l1_idx v]"
  by (simp add: page_path_def)

lemma page_path_ok [simp]: "length (page_path v) = 4" "user_page v \<Longrightarrow> user_path (page_path v)"
  by (simp_all add: page_path_def)

lemma descend_same_pages: "descends R used m cr3 p m' r \<Longrightarrow> page_entry m' cr3 = page_entry m cr3"
  by (rule ext) (simp add: descends_def page_entry_def)

lemma descend_tree:
  assumes "descends R used m cr3 p m' r"
  shows "pt_inv R used m' cr3" "r = Some t \<Longrightarrow> walk m' cr3 p = Some t"
    "small_page m cr3 v \<Longrightarrow> small_page m' cr3 v" "keeps_frames used m m'"
  using assms by (auto simp: descends_def)

lemma write_leaf_pages:
  assumes inv: "pt_inv R used m cr3" and l1: "walk m cr3 (l1_path v) = Some l1" and up: "user_page v"
  shows "pt_inv R used (write_entry m l1 (l1_idx v) e) cr3"
    "page_entry (write_entry m l1 (l1_idx v) e) cr3 w =
      (if page_path w = page_path v then if is_unused e then None else Some e else page_entry m cr3 w)"
    "keeps_frames used m (write_entry m l1 (l1_idx v) e)"
proof -
  from inv have wf: "pt_wf m cr3" and sep: "used \<inter> pfn ` tables m cr3 = {}" by (simp_all add: pt_inv_def)
  have "l1 \<in> tables m cr3" using walk_in_tables [OF _ l1] up by simp
  moreover from this have "page_aligned l1" using wf by (auto simp: pt_wf_def tables_aligned)
  ultimately show "keeps_frames used m (write_entry m l1 (l1_idx v) e)"
    using sep write_entry_other_frame [of l1 "l1_idx v"] by (fastforce simp: keeps_frames_def)
  note L = leaf_write [OF wf _ _ l1, where i = "l1_idx v" and e = e, simplified, OF up]
  have "tables (write_entry m l1 (l1_idx v) e) cr3 = tables m cr3"
    using L(1) by (auto simp: tables_def)
  with inv L(3) show "pt_inv R used (write_entry m l1 (l1_idx v) e) cr3"
    by (simp add: pt_inv_def apart_def write_entry_def)
  show "page_entry (write_entry m l1 (l1_idx v) e) cr3 w =
      (if page_path w = page_path v then if is_unused e then None else Some e else page_entry m cr3 w)"
    using L(2) [of "page_path w"] up by (auto simp: page_entry_def page_path_def)
qed

text \<open>With a free frame in the pool an allocation succeeds and takes one.\<close>

lemma allocate_nonempty:
  assumes "pool_ok p" and "frames_of p \<noteq> {#}"
  obtains p' a where "allocate p = (p', Some a)" "size (frames_of p) = Suc (size (frames_of p'))"
proof -
  from assms(2) obtain f where "f \<in># frames_of p" by auto
  then obtain order a where "order < length (pool_free p)" "a \<in> set (pool_free p ! order)"
    by (rule pool_frame_in_block)
  moreover have "length (pool_free p) = Suc BUDDY_MAX_ORDER" using assms(1) by (simp add: pool_ok_def lists_aligned_def)
  ultimately have "\<not> (\<forall>i. 0 \<le> i \<longrightarrow> i \<le> BUDDY_MAX_ORDER \<longrightarrow> pool_free p ! i = [])" by (auto intro!: exI [of _ order])
  then obtain fs b where t: "take_block (pool_free p) 0 = (fs, Some b)"
    using take_block_None [of "pool_free p" 0] by (metis option.exhaust surj_pair)
  then obtain p' where a: "allocate p = (p', Some b)" by (simp add: allocate_def)
  then have "frames_of p = block_frames b 0 + frames_of p'"
    using allocate_order_Some(4) [of p 0 p' b] assms(1) by (simp add: allocate_is_order_0)
  with that a show thesis by simp
qed

lemma find_l1_walk:
  assumes "pt_wf m cr3" and "small_page m cr3 v"
  shows "find_l1 m cr3 v = walk m cr3 (l1_path v)"
proof -
  have "\<not> huge (read_entry m cr3 (l4_idx v))" using assms(1) by (simp add: pt_wf_def)
  with assms(2) show ?thesis by (simp add: find_l1_def small_page_def walk.simps Let_def)
qed

lemma page_entry_eq:
  "page_entry m cr3 v = (if \<not> user_page v then None else case walk m cr3 (l1_path v) of None \<Rightarrow> None
     | Some l1 \<Rightarrow> let e = read_entry m l1 (l1_idx v) in if is_unused e then None else Some e)"
  unfolding page_entry_def page_path_snoc leaf_snoc by simp

lemma page_entry_get:
  assumes "pt_wf m cr3"
  shows "user_page v \<Longrightarrow> get_page_flags_in_table m cr3 v = map_option entry_flags (page_entry m cr3 v)"
    "page_entry m cr3 v = Some e \<Longrightarrow> get_mapped_frame m cr3 v = Some (entry_addr e)"
    "small_page m cr3 v \<Longrightarrow> get_mapped_frame m cr3 v = map_option entry_addr (page_entry m cr3 v)"
proof -
  have "\<not> huge (read_entry m cr3 (l4_idx v))" "phys_mem_offset m \<noteq> 0" using assms by (simp_all add: pt_wf_def)
  then show "user_page v \<Longrightarrow> get_page_flags_in_table m cr3 v = map_option entry_flags (page_entry m cr3 v)"
    "page_entry m cr3 v = Some e \<Longrightarrow> get_mapped_frame m cr3 v = Some (entry_addr e)"
    "small_page m cr3 v \<Longrightarrow> get_mapped_frame m cr3 v = map_option entry_addr (page_entry m cr3 v)"
    apply -
    subgoal by (auto simp: page_entry_eq get_page_flags_in_table_def walk.simps Let_def)
    subgoal by (auto simp: page_entry_eq get_mapped_frame_def walk.simps Let_def split: if_splits)
    subgoal by (auto simp: page_entry_eq get_mapped_frame_def small_page_def walk.simps Let_def)
    done
qed

lemma map_page_present:
  assumes "pt_wf m cr3" and "walk m cr3 (l1_path v) = Some l1"
  shows "map_page_in_table rc m cr3 v frame fl = write_entry m l1 (l1_idx v) (set_addr frame fl)"
proof -
  have "\<not> huge (read_entry m cr3 (l4_idx v))" "phys_mem_offset m \<noteq> 0" using assms(1) by (simp_all add: pt_wf_def)
  with assms(2) show ?thesis
    by (auto simp: map_page_in_table_def next_table_def walk.simps Let_def split: if_splits)
qed

lemma unmap_page_pages:
  assumes inv: "pt_inv R used m cr3" and small: "small_page m cr3 v"
  shows "pt_inv R used (unmap_page_in_table m cr3 v) cr3"
    "page_entry (unmap_page_in_table m cr3 v) cr3 =
      (\<lambda>w. if page_path w = page_path v then None else page_entry m cr3 w)"
proof -
  have f: "find_l1 m cr3 v = walk m cr3 (l1_path v)" and off: "phys_mem_offset m \<noteq> 0"
    using inv small by (auto simp: find_l1_walk pt_inv_def pt_wf_def)
  have "pt_inv R used (unmap_page_in_table m cr3 v) cr3 \<and> page_entry (unmap_page_in_table m cr3 v) cr3 =
      (\<lambda>w. if page_path w = page_path v then None else page_entry m cr3 w)"
  proof (cases "walk m cr3 (l1_path v)")
    case None
    then have "page_entry m cr3 v = None" by (simp add: page_entry_eq)
    then have "page_entry m cr3 w = None" if "page_path w = page_path v" for w
      using page_entry_path [OF that, of m cr3] by simp
    with None inv show ?thesis by (simp add: unmap_page_in_table_def f fun_eq_iff)
  next
    case (Some l1)
    with write_leaf_pages [OF inv Some small_user [OF small], of 0] off show ?thesis
      by (simp add: unmap_page_in_table_def f fun_eq_iff is_unused_def)
  qed
  then show "pt_inv R used (unmap_page_in_table m cr3 v) cr3"
    "page_entry (unmap_page_in_table m cr3 v) cr3 =
      (\<lambda>w. if page_path w = page_path v then None else page_entry m cr3 w)" by blast+
qed

lemma update_flags_pages:
  assumes inv: "pt_inv R used m cr3" and small: "small_page m cr3 v" and fl: "flags_contain fl PRESENT"
  shows "pt_inv R used (update_page_flags_in_table m cr3 v fl) cr3"
    "page_entry (update_page_flags_in_table m cr3 v fl) cr3 =
      (\<lambda>w. if page_path w = page_path v then map_option (\<lambda>e. set_addr (entry_addr e) fl) (page_entry m cr3 w)
            else page_entry m cr3 w)"
proof -
  have f: "find_l1 m cr3 v = walk m cr3 (l1_path v)" and off: "phys_mem_offset m \<noteq> 0"
    using inv small by (auto simp: find_l1_walk pt_inv_def pt_wf_def)
  have same: "page_entry m cr3 w = page_entry m cr3 v" if "page_path w = page_path v" for w
    using that by (rule page_entry_path)
  let ?m' = "update_page_flags_in_table m cr3 v fl"
  have "pt_inv R used ?m' cr3 \<and> page_entry ?m' cr3 =
      (\<lambda>w. if page_path w = page_path v then map_option (\<lambda>e. set_addr (entry_addr e) fl) (page_entry m cr3 w)
            else page_entry m cr3 w)"
  proof (cases "page_entry m cr3 v")
    case None
    then have "?m' = m" using off small_user [OF small]
      by (auto simp: update_page_flags_in_table_def f page_entry_eq Let_def split: option.splits if_splits)
    moreover have "page_entry m cr3 w = None" if "page_path w = page_path v" for w
      using same [OF that] None by simp
    ultimately show ?thesis using inv by (simp add: fun_eq_iff)
  next
    case (Some e)
    then obtain l1 where l1: "walk m cr3 (l1_path v) = Some l1" "read_entry m l1 (l1_idx v) = e" "\<not> is_unused e"
      by (auto simp: page_entry_eq Let_def split: option.splits if_splits)
    then have "?m' = write_entry m l1 (l1_idx v) (set_addr (entry_addr e) fl)"
      using off by (simp add: update_page_flags_in_table_def f Let_def)
    with write_leaf_pages [OF inv l1(1) small_user [OF small], of "set_addr (entry_addr e) fl"] present_not_unused [OF fl]
      Some same [THEN trans, OF _ Some]
    show ?thesis by (simp add: fun_eq_iff)
  qed
  then show "pt_inv R used ?m' cr3" "page_entry ?m' cr3 =
      (\<lambda>w. if page_path w = page_path v then map_option (\<lambda>e. set_addr (entry_addr e) fl) (page_entry m cr3 w)
            else page_entry m cr3 w)" by blast+
qed

text \<open>A level with a free frame and no huge entry always leads to a table.\<close>

abbreviation free_frames :: "'e Machine_scheme \<Rightarrow> nat" where
  "free_frames m \<equiv> size (frames_of (frame_pool m))"

lemma next_table_succeeds:
  assumes "pool_ok (frame_pool m)" and "0 < free_frames m" and "chk \<longrightarrow> \<not> huge (read_entry m s i)"
  obtains m' t where "next_table rc m s i chk = (m', Some t)" "free_frames m \<le> Suc (free_frames m')"
proof (cases "is_unused (read_entry m s i)")
  case True
  have "frames_of (frame_pool m) \<noteq> {#}" using assms(2) by auto
  then obtain p a where a: "allocate (frame_pool m) = (p, Some a)" "free_frames m = Suc (size (frames_of p))"
    by (rule allocate_nonempty [OF assms(1)])
  then have "allocate_physical_frame rc m = (m\<lparr>frame_pool := p\<rparr>, Some a)"
    by (simp add: allocate_physical_frame_def pool_allocate_def split: prod.splits)
  with a True that show thesis
    by (simp add: next_table_def allocate_page_table_frame_def Let_def write_entry_def zero_physical_frame_def)
next
  case False
  with assms(3) that show thesis by (auto simp: next_table_def)
qed

lemma map_page_succeeds:
  assumes inv: "pt_inv R used m cr3" and rc: "reclaim_ok R rc" and small: "small_page m cr3 v"
    and free: "3 \<le> free_frames m"
  obtains n l1 where "pt_inv R used n cr3" "page_entry n cr3 = page_entry m cr3"
      "walk n cr3 (l1_path v) = Some l1" "\<And>w. small_page m cr3 w \<Longrightarrow> small_page n cr3 w"
      "free_frames m \<le> 3 + free_frames n" "keeps_frames used m n"
      "map_page_in_table rc m cr3 v frame fl = write_entry n l1 (l1_idx v) (set_addr frame fl)"
proof -
  have ok: "pool_ok (frame_pool m)" if "pt_inv R used m cr3" for m using that by (simp add: pt_inv_def apart_def)
  have off: "phys_mem_offset m \<noteq> 0" using inv by (simp add: pt_inv_def pt_wf_def)
  obtain m1 l3 where 1: "next_table rc m cr3 (l4_idx v) False = (m1, Some l3)" "free_frames m \<le> Suc (free_frames m1)"
    using next_table_succeeds [OF ok [OF inv]] free by (metis not_numeral_le_zero not_gr_zero)
  have D1: "descends R used m cr3 [l4_idx v] m1 (Some l3)"
    using next_table_spec [OF inv rc, of "[]", OF _ _ _ _ _ 1(1)] by simp
  note T1 = descend_tree [OF D1]
  have "\<not> huge (read_entry m1 l3 (l3_idx v))" using T1(2,3) small by (simp add: small_page_def)
  moreover have "0 < free_frames m1" using 1(2) free by simp
  ultimately obtain m2 l2 where 2: "next_table rc m1 l3 (l3_idx v) True = (m2, Some l2)" "free_frames m1 \<le> Suc (free_frames m2)"
    using next_table_succeeds [OF ok [OF T1(1)]] by metis
  have D2: "descends R used m1 cr3 [l4_idx v, l3_idx v] m2 (Some l2)"
    using next_table_spec [OF T1(1) rc, of "[l4_idx v]", OF _ _ T1(2) [OF refl] _ _ 2(1)] small_user [OF small] by simp
  note T2 = descend_tree [OF D2]
  have "\<not> huge (read_entry m2 l2 (l2_idx v))" using T2(2,3) T1(3) small by (simp add: small_page_def)
  moreover have "0 < free_frames m2" using 1(2) 2(2) free by simp
  ultimately obtain m3 l1 where 3: "next_table rc m2 l2 (l2_idx v) True = (m3, Some l1)" "free_frames m2 \<le> Suc (free_frames m3)"
    using next_table_succeeds [OF ok [OF T2(1)]] by metis
  have D3: "descends R used m2 cr3 (l1_path v) m3 (Some l1)"
    using next_table_spec [OF T2(1) rc, of "[l4_idx v, l3_idx v]", OF _ _ T2(2) [OF refl] _ _ 3(1)] small_user [OF small] by simp
  note T3 = descend_tree [OF D3]
  show thesis
  proof (rule that [OF T3(1) _ T3(2) [OF refl]])
    show "page_entry m3 cr3 = page_entry m cr3"
      using descend_same_pages [OF D1] descend_same_pages [OF D2] descend_same_pages [OF D3] by simp
    show "small_page m3 cr3 w" if "small_page m cr3 w" for w
      using that T1(3) T2(3) T3(3) by simp
    show "free_frames m \<le> 3 + free_frames m3" using 1(2) 2(2) 3(2) by simp
    show "keeps_frames used m m3" using T1(4) T2(4) T3(4) by (blast intro: keeps_frames_trans)
    show "map_page_in_table rc m cr3 v frame fl = write_entry m3 l1 (l1_idx v) (set_addr frame fl)"
      using 1(1) 2(1) 3(1) off by (simp add: map_page_in_table_def)
  qed
qed

lemma write_leaf_frame:
  assumes "pt_inv R used m cr3" and "walk m cr3 (l1_path v) = Some l1" and "user_page v"
  shows "small_page m cr3 w \<Longrightarrow> small_page (write_entry m l1 (l1_idx v) e) cr3 w"
    "free_frames (write_entry m l1 (l1_idx v) e) = free_frames m"
  using leaf_write(4) [OF _ _ _ assms(2), where i = "l1_idx v" and e = e and v = w] assms(1,3)
  by (simp_all add: pt_inv_def) (simp add: write_entry_def)

lemma find_l1_frame:
  assumes "pt_inv R used m cr3" and "small_page m cr3 v" and "find_l1 m cr3 v = Some l1"
  shows "small_page m cr3 w \<Longrightarrow> small_page (write_entry m l1 (l1_idx v) e) cr3 w"
    "free_frames (write_entry m l1 (l1_idx v) e) = free_frames m"
  using write_leaf_frame [OF assms(1), of v l1] assms small_user [OF assms(2)] by (simp_all add: find_l1_walk pt_inv_def)

text \<open>Mapping a page with frames to spare: one entry changes, and no byte of the frames in use.\<close>

lemma map_page_maps:
  fixes v frame :: u64
  assumes inv: "pt_inv R used m cr3" and rc: "reclaim_ok R rc" and small: "small_page m cr3 v"
    and free: "3 \<le> free_frames m" and fl: "flags_contain fl PRESENT"
  defines "m' \<equiv> map_page_in_table rc m cr3 v frame fl"
  shows "pt_inv R used m' cr3"
    "page_entry m' cr3 = (\<lambda>w. if page_path w = page_path v then Some (set_addr frame fl) else page_entry m cr3 w)"
    "small_page m cr3 w \<Longrightarrow> small_page m' cr3 w" "free_frames m \<le> 3 + free_frames m'" "keeps_frames used m m'"
proof -
  obtain n l1 where n: "pt_inv R used n cr3" "page_entry n cr3 = page_entry m cr3"
      "walk n cr3 (l1_path v) = Some l1" "\<forall>w. small_page m cr3 w \<longrightarrow> small_page n cr3 w"
      "free_frames m \<le> 3 + free_frames n" "keeps_frames used m n"
      "map_page_in_table rc m cr3 v frame fl = write_entry n l1 (l1_idx v) (set_addr frame fl)"
    using map_page_succeeds [OF inv rc small free] by metis
  note W = write_leaf_pages [OF n(1,3) small_user [OF small]] and F = write_leaf_frame [OF n(1,3) small_user [OF small]]
  show "pt_inv R used m' cr3"
    "page_entry m' cr3 = (\<lambda>w. if page_path w = page_path v then Some (set_addr frame fl) else page_entry m cr3 w)"
    using W n present_not_unused [OF fl] by (simp_all add: m'_def fun_eq_iff)
  show "small_page m cr3 w \<Longrightarrow> small_page m' cr3 w" "free_frames m \<le> 3 + free_frames m'"
    using F n by (simp_all add: m'_def)
  show "keeps_frames used m m'" using keeps_frames_trans [OF n(6) W(3)] n(7) by (simp add: m'_def)
qed

lemma unmap_keeps_frames:
  assumes "pt_inv R used m cr3" and "small_page m cr3 v"
  shows "keeps_frames used m (unmap_page_in_table m cr3 v)"
proof -
  have "find_l1 m cr3 v = walk m cr3 (l1_path v)" using assms by (auto simp: find_l1_walk pt_inv_def pt_wf_def)
  with write_leaf_pages(3) [OF assms(1) _ small_user [OF assms(2)]] show ?thesis
    by (simp add: unmap_page_in_table_def split: option.split)
qed

lemma update_flags_keeps_frames:
  assumes "pt_inv R used m cr3" and "small_page m cr3 v"
  shows "keeps_frames used m (update_page_flags_in_table m cr3 v fl)"
proof -
  have "find_l1 m cr3 v = walk m cr3 (l1_path v)" using assms by (auto simp: find_l1_walk pt_inv_def pt_wf_def)
  with write_leaf_pages(3) [OF assms(1) _ small_user [OF assms(2)]] show ?thesis
    by (simp add: update_page_flags_in_table_def Let_def split: option.split)
qed

text \<open>A frame taken from the pool joins the frames in use.\<close>

lemma allocate_inv:
  assumes inv: "pt_inv R used m cr3" and rc: "reclaim_ok R rc" and a: "allocate_physical_frame rc m = (m', Some f)"
  shows "pt_inv R (insert (pfn f) used) m' cr3" "same_memory m m'" "frame_addr f" "pfn f \<notin> used" "pfn f \<notin> pfn ` tables m cr3"
proof -
  from inv have "apart R m (used \<union> pfn ` tables m cr3)" by (simp add: pt_inv_def)
  from allocate_physical_frame_out [OF this rc a]
  have out: "same_memory m m'" "frame_addr f" "pfn f \<notin> used" "pfn f \<notin> pfn ` tables m cr3"
    "apart R m' (insert (pfn f) (used \<union> pfn ` tables m cr3))" by (simp_all add: handed_out_def)
  then show "same_memory m m'" "frame_addr f" "pfn f \<notin> used" "pfn f \<notin> pfn ` tables m cr3" by simp_all
  show "pt_inv R (insert (pfn f) used) m' cr3"
    using inv out same_memory_tree [OF out(1)] by (simp add: pt_inv_def)
qed

lemma allocate_takes_one:
  assumes "pool_ok (frame_pool m)" and "0 < free_frames m"
  obtains m' f where "allocate_physical_frame rc m = (m', Some f)" "free_frames m = Suc (free_frames m')"
    "Machine.more m' = Machine.more m"
proof -
  have "frames_of (frame_pool m) \<noteq> {#}" using assms(2) by auto
  then obtain p a where a: "allocate (frame_pool m) = (p, Some a)" "free_frames m = Suc (size (frames_of p))"
    by (rule allocate_nonempty [OF assms(1)])
  show thesis
    by (rule that [of "m\<lparr>frame_pool := p\<rparr>" a])
      (use a in \<open>simp_all add: allocate_physical_frame_def pool_allocate_def split: prod.splits\<close>)
qed

section \<open>Runs of page-table operations\<close>

datatype pt_op = MapPage u64 u64 u64 | UnmapPage u64 | SetFlags u64 u64

fun pt_step :: "'e reclaim \<Rightarrow> u64 \<Rightarrow> pt_op \<Rightarrow> 'e Machine_scheme \<Rightarrow> 'e Machine_scheme" where
  "pt_step rc cr3 (MapPage v frame fl) m = map_page_in_table rc m cr3 v frame fl"
| "pt_step rc cr3 (UnmapPage v) m = unmap_page_in_table m cr3 v"
| "pt_step rc cr3 (SetFlags v fl) m = update_page_flags_in_table m cr3 v fl"

text \<open>The specification: a map from pages to entries.\<close>

fun pt_spec :: "pt_op \<Rightarrow> (u64 \<Rightarrow> u64 option) \<Rightarrow> u64 \<Rightarrow> u64 option" where
  "pt_spec (MapPage v frame fl) M = (\<lambda>w. if page_path w = page_path v then Some (set_addr frame fl) else M w)"
| "pt_spec (UnmapPage v) M = (\<lambda>w. if page_path w = page_path v then None else M w)"
| "pt_spec (SetFlags v fl) M =
     (\<lambda>w. if page_path w = page_path v then map_option (\<lambda>e. set_addr (entry_addr e) fl) (M w) else M w)"

fun pt_op_ok :: "'e Machine_scheme \<Rightarrow> u64 \<Rightarrow> pt_op \<Rightarrow> bool" where
  "pt_op_ok m cr3 (MapPage v frame fl) \<longleftrightarrow> small_page m cr3 v \<and> flags_contain fl PRESENT"
| "pt_op_ok m cr3 (UnmapPage v) \<longleftrightarrow> small_page m cr3 v"
| "pt_op_ok m cr3 (SetFlags v fl) \<longleftrightarrow> small_page m cr3 v \<and> flags_contain fl PRESENT"

lemma pt_step_refines:
  assumes inv: "pt_inv R used m cr3" and rc: "reclaim_ok R rc" and ok: "pt_op_ok m cr3 op" and free: "3 \<le> free_frames m"
  shows "pt_inv R used (pt_step rc cr3 op m) cr3"
    "page_entry (pt_step rc cr3 op m) cr3 = pt_spec op (page_entry m cr3)"
    "small_page m cr3 w \<Longrightarrow> small_page (pt_step rc cr3 op m) cr3 w"
    "free_frames m \<le> 3 + free_frames (pt_step rc cr3 op m)"
proof -
  let ?m' = "pt_step rc cr3 op m"
  have "pt_inv R used ?m' cr3 \<and> page_entry ?m' cr3 = pt_spec op (page_entry m cr3)
    \<and> (small_page m cr3 w \<longrightarrow> small_page ?m' cr3 w) \<and> free_frames m \<le> 3 + free_frames ?m'"
  proof (cases op)
    case (MapPage v frame fl)
    with ok have v: "small_page m cr3 v" "flags_contain fl PRESENT" by simp_all
    from map_page_maps [OF inv rc v(1) free v(2)] show ?thesis by (simp add: MapPage)
  next
    case (UnmapPage v)
    with ok have v: "small_page m cr3 v" by simp
    have "(small_page m cr3 w \<longrightarrow> small_page ?m' cr3 w) \<and> free_frames ?m' = free_frames m"
      using find_l1_frame(1) [OF inv v, where w = w] find_l1_frame(2) [OF inv v] by (simp add: UnmapPage unmap_page_in_table_def split: option.split)
    with unmap_page_pages [OF inv v] show ?thesis by (simp add: UnmapPage)
  next
    case (SetFlags v fl)
    with ok have v: "small_page m cr3 v" "flags_contain fl PRESENT" by simp_all
    have "(small_page m cr3 w \<longrightarrow> small_page ?m' cr3 w) \<and> free_frames ?m' = free_frames m"
      using find_l1_frame(1) [OF inv v(1), where w = w] find_l1_frame(2) [OF inv v(1)]
      by (simp add: SetFlags update_page_flags_in_table_def Let_def split: option.split)
    with update_flags_pages [OF inv v] show ?thesis by (simp add: SetFlags)
  qed
  then show "pt_inv R used ?m' cr3" "page_entry ?m' cr3 = pt_spec op (page_entry m cr3)"
    "small_page m cr3 w \<Longrightarrow> small_page ?m' cr3 w" "free_frames m \<le> 3 + free_frames ?m'" by simp_all
qed

lemma pt_run_refines:
  assumes "pt_inv R used m cr3" and "reclaim_ok R rc" and "\<forall>op \<in> set ops. pt_op_ok m cr3 op"
    and "3 * length ops \<le> free_frames m"
  shows "pt_inv R used (fold (pt_step rc cr3) ops m) cr3
    \<and> page_entry (fold (pt_step rc cr3) ops m) cr3 = fold pt_spec ops (page_entry m cr3)"
  using assms
proof (induction ops arbitrary: m)
  case (Cons op ops)
  then have op: "pt_op_ok m cr3 op" "3 \<le> free_frames m" by simp_all
  note S = pt_step_refines [OF Cons.prems(1,2) op]
  have "\<forall>op' \<in> set ops. pt_op_ok (pt_step rc cr3 op m) cr3 op'"
  proof
    fix op' assume "op' \<in> set ops"
    with Cons.prems(3) have "pt_op_ok m cr3 op'" by simp
    with S(3) show "pt_op_ok (pt_step rc cr3 op m) cr3 op'" by (cases op') simp_all
  qed
  moreover have "3 * length ops \<le> free_frames (pt_step rc cr3 op m)" using S(4) Cons.prems(4) by simp
  ultimately show ?case using Cons.IH [OF S(1) Cons.prems(2)] S(2) by simp
qed simp

section \<open>Properties\<close>

text \<open>
  C1: Page tables refine a map from pages to entries. Start from a tree whose lower half, the
  part of a process, is well-formed and whose tables are not in the pool, with at least three
  free frames per operation. After any sequence of mappings, unmappings and flag changes on pages
  of the lower half that no huge page covers, each page's entry is the one that the same sequence
  gives on a plain map; the readers \<open>get_page_flags_in_table\<close> and \<open>get_mapped_frame\<close> return its
  flags and its frame; and the tree is well-formed again. In particular an operation on one page changes no other page, although the
  tables are bytes of the memory in which they are built.
\<close>

theorem page_table_refines_map:
  assumes "pt_inv R used m cr3" and "reclaim_ok R rc"
    and "\<forall>op \<in> set ops. pt_op_ok m cr3 op" and "3 * length ops \<le> free_frames m"
    and "m' = fold (pt_step rc cr3) ops m" and "user_page v"
  shows "pt_inv R used m' cr3 \<and> page_entry m' cr3 = fold pt_spec ops (page_entry m cr3)
    \<and> get_page_flags_in_table m' cr3 v = map_option entry_flags (fold pt_spec ops (page_entry m cr3) v)
    \<and> (\<forall>e. fold pt_spec ops (page_entry m cr3) v = Some e \<longrightarrow> get_mapped_frame m' cr3 v = Some (entry_addr e))"
proof -
  have inv: "pt_inv R used m' cr3" and pages: "page_entry m' cr3 = fold pt_spec ops (page_entry m cr3)"
    using pt_run_refines [OF assms(1-4)] by (simp_all add: assms(5))
  then have "pt_wf m' cr3" by (simp add: pt_inv_def)
  from page_entry_get [OF this, where v = v] inv pages assms(6) show ?thesis by simp
qed

text \<open>A machine with one empty table at \<open>0x1000\<close> and three free frames.\<close>

definition pt_demo :: Machine where
  "pt_demo = \<lparr>phys_mem = (\<lambda>a. 0),
     frame_pool = add_frame (add_frame (add_frame PhysicalFramePool_new 0x2000) 0x3000) 0x4000,
     phys_mem_offset = 0x10000000000, kernel_cr3 = 0, kernel_l4_template = 0\<rparr>"

lemma pt_demo_reads: "read_entry pt_demo t i = 0"
  by (simp add: read_entry_def pt_demo_def load_bytes_def map_replicate_const of_le_zeros)

lemma pt_demo_walk: "walk pt_demo t p = (if p = [] then Some t else None)"
  by (cases p) (simp_all add: walk.simps pt_demo_reads is_unused_def)

lemma pt_demo_pool:
  "pool_ok (frame_pool pt_demo)" "frames_of (frame_pool pt_demo) = {# 2, 3, 4 #}"
proof -
  note N = add_frame_spec [OF new_ok(1), of "0x2000"]
  note N2 = add_frame_spec [OF N(1), of "0x3000"]
  note N3 = add_frame_spec [OF N2(1), of "0x4000"]
  from N3(1) show "pool_ok (frame_pool pt_demo)" by (simp add: pt_demo_def)
  show "frames_of (frame_pool pt_demo) = {# 2, 3, 4 #}"
    using N3(2) N2(2) N(2) new_ok(2) by (simp add: pt_demo_def pfn_def)
qed

lemma pt_demo_inv: "pt_inv (\<lambda>_. {#}) {} pt_demo 0x1000"
proof -
  have "pt_wf pt_demo 0x1000"
    by (auto simp: pt_wf_def pt_demo_reads pt_demo_walk page_aligned_def split: if_splits)
      (simp add: pt_demo_def)
  moreover have "tables pt_demo 0x1000 = {0x1000}" by (auto simp: tables_def pt_demo_walk)
  ultimately show ?thesis
    by (simp add: pt_inv_def apart_def pt_demo_pool pfn_def)
qed

theorem page_table_refines_map_witness:
  "get_mapped_frame (fold (pt_step (id, id, id) 0x1000) [MapPage 0x400000 0x9000 (PRESENT OR WRITABLE)] pt_demo)
     0x1000 0x400123 = Some 0x9000"
proof -
  let ?op = "MapPage 0x400000 0x9000 (PRESENT OR WRITABLE)"
  have r: "reclaim_ok (\<lambda>_. {#}) (id, id, id)" by (simp add: reclaims_def)
  have ok: "\<forall>op \<in> set [?op]. pt_op_ok pt_demo 0x1000 op"
    by (simp add: small_page_def pt_demo_walk flag_defs l4_idx_def)
  have free: "3 * length [?op] \<le> free_frames pt_demo" by (simp add: pt_demo_pool)
  have "page_path 0x400123 = page_path 0x400000"
    by (simp add: page_path_def l4_idx_def l3_idx_def l2_idx_def l1_idx_def)
  then have "fold pt_spec [?op] (page_entry pt_demo 0x1000) 0x400123 = Some (set_addr 0x9000 (PRESENT OR WRITABLE))"
    by simp
  moreover have "entry_addr (set_addr 0x9000 (PRESENT OR WRITABLE)) = 0x9000"
    by (simp add: entry_addr_def set_addr_def flag_defs)
  moreover have "user_page 0x400123" by (simp add: l4_idx_def)
  ultimately show ?thesis
    using page_table_refines_map [OF pt_demo_inv r ok free refl, where v = "0x400123"] by simp
qed

section \<open>Unmapping under a huge page\<close>

text \<open>
  Neither \<open>unmap_page_in_table\<close> nor \<open>update_page_flags_in_table\<close> tests for huge pages: unmapping
  an address that a 2 MiB page covers writes into the memory of that page.
\<close>

lemma unmap_corrupts_huge_page:
  assumes "pt_wf m cr3" and "walk m cr3 [l4_idx v, l3_idx v] = Some l2"
    and "read_entry m l2 (l2_idx v) = e" and "huge e"
  shows "unmap_page_in_table m cr3 v = write_entry m (entry_addr e) (l1_idx v) 0"
proof -
  have "\<not> is_unused e" using assms(4) by (auto simp: is_unused_def)
  with assms show ?thesis
    by (auto simp: unmap_page_in_table_def find_l1_def pt_wf_def walk.simps Let_def split: if_splits)
qed

end
