(* ===== verification/User_Memory.thy ===== *)
theory User_Memory
  imports Page_Table
begin

text \<open>
  \<open>src/kernel/src/mm/vmm/user.rs\<close>: copies between the kernel and the user memory of a process,
  page by page through its tables. The look-up of the process is in \<open>Address_Space\<close>; here the
  address \<open>cr3\<close> of its top table is an argument.
\<close>

definition translate_vaddr :: "'e Machine_scheme \<Rightarrow> u64 \<Rightarrow> u64 \<Rightarrow> u64 option" where
  "translate_vaddr m cr3 vaddr =
     (let e4 = read_entry m cr3 (l4_idx vaddr) in
      if is_unused e4 then None
      else let e3 = read_entry m (entry_addr e4) (l3_idx vaddr) in
      if is_unused e3 then None
      else if huge e3 then Some (entry_addr e3 + (vaddr AND 0x3FFFFFFF))
      else let e2 = read_entry m (entry_addr e3) (l2_idx vaddr) in
      if is_unused e2 then None
      else if huge e2 then Some (entry_addr e2 + (vaddr AND 0x1FFFFF))
      else let e1 = read_entry m (entry_addr e2) (l1_idx vaddr) in
      if is_unused e1 then None else Some (entry_addr e1))"

definition page_of :: "u64 \<Rightarrow> u64" where "page_of a = a AND NOT 0xFFF"
definition offset_of :: "u64 \<Rightarrow> nat" where "offset_of a = unat (a AND 0xFFF)"

lemma offset_of_eq: "offset_of a = unat a mod 4096"
proof -
  have "a AND 0xFFF = take_bit 12 a" by (simp add: take_bit_eq_mask mask_eq_exp_minus_1)
  then show ?thesis by (simp add: offset_of_def unsigned_take_bit_eq take_bit_nat_def)
qed

lemma offset_less: "offset_of a < 4096"
  by (simp add: offset_of_eq)

lemma unat_page_of: "unat (page_of a) = unat a div 4096 * 4096"
  unfolding page_of_def mask_12 by (simp add: unat_and_not_mask)

text \<open>The size of the part of a copy that lies in the page of its first byte.\<close>

definition chunk_size :: "u64 \<Rightarrow> nat \<Rightarrow> nat" where
  "chunk_size a left = min (4096 - offset_of a) left"

lemma chunk_pos: "0 < left \<Longrightarrow> 0 < chunk_size a left"
  using offset_less [of a] by (simp add: chunk_size_def)

function write_user_loop :: "'e Machine_scheme \<Rightarrow> u64 \<Rightarrow> u64 \<Rightarrow> u8 list \<Rightarrow> nat \<Rightarrow> 'e Machine_scheme" where
  "write_user_loop m cr3 vaddr data written =
     (if written < length data then
        let a = vaddr + of_nat written;
            chunk = chunk_size a (length data - written);
            m' = (case translate_vaddr m cr3 (page_of a) of
                    Some phys \<Rightarrow> m\<lparr>phys_mem := store_bytes (phys + of_nat (offset_of a))
                                  (take chunk (drop written data)) (phys_mem m)\<rparr>
                  | None \<Rightarrow> m) in
        write_user_loop m' cr3 vaddr data (written + chunk)
      else m)"
  by pat_completeness auto
termination
  by (relation "measure (\<lambda>(m, cr3, vaddr, data, written). length data - written)")
    (auto simp: chunk_pos intro: diff_less_mono2)

definition write_user_pages :: "'e Machine_scheme \<Rightarrow> u64 \<Rightarrow> u64 \<Rightarrow> u8 list \<Rightarrow> 'e Machine_scheme" where
  "write_user_pages m cr3 vaddr data =
     (if phys_mem_offset m = 0 then m else write_user_loop m cr3 vaddr data 0)"

function read_user_loop :: "'e Machine_scheme \<Rightarrow> u64 \<Rightarrow> u64 \<Rightarrow> u8 list \<Rightarrow> nat \<Rightarrow> u8 list" where
  "read_user_loop m cr3 vaddr buf done =
     (if done < length buf then
        let a = vaddr + of_nat done;
            chunk = chunk_size a (length buf - done);
            bs = (case translate_vaddr m cr3 (page_of a) of
                    Some phys \<Rightarrow> load_bytes (phys + of_nat (offset_of a)) chunk (phys_mem m)
                  | None \<Rightarrow> replicate chunk 0) in
        read_user_loop m cr3 vaddr (splice_at done bs buf) (done + chunk)
      else buf)"
  by pat_completeness auto
termination
proof (relation "measure (\<lambda>(m, cr3, vaddr, buf, done). length buf - done)", goal_cases)
  case (2 m cr3 vaddr buf d a chunk bs)
  then have "length bs = chunk" "d + chunk \<le> length buf" "0 < chunk"
    by (auto simp: chunk_size_def chunk_pos offset_less split: option.splits)
  with 2(1) show ?case by simp
qed simp

definition read_user_pages :: "'e Machine_scheme \<Rightarrow> u64 \<Rightarrow> u64 \<Rightarrow> u8 list \<Rightarrow> u8 list" where
  "read_user_pages m cr3 vaddr buf =
     (if phys_mem_offset m = 0 then buf else read_user_loop m cr3 vaddr buf 0)"

declare write_user_loop.simps [simp del] read_user_loop.simps [simp del]

section \<open>User memory byte by byte\<close>

text \<open>The physical address of a user address, and the byte a read finds there.\<close>

definition phys_of :: "'e Machine_scheme \<Rightarrow> u64 \<Rightarrow> u64 \<Rightarrow> u64 option" where
  "phys_of m cr3 a = map_option (\<lambda>p. p + of_nat (offset_of a)) (translate_vaddr m cr3 (page_of a))"

definition user_byte :: "'e Machine_scheme \<Rightarrow> u64 \<Rightarrow> u64 \<Rightarrow> u8" where
  "user_byte m cr3 a = (case phys_of m cr3 a of None \<Rightarrow> 0 | Some x \<Rightarrow> phys_mem m x)"

lemma same_page:
  assumes "k < 4096 - offset_of a"
  shows "page_of (a + of_nat k) = page_of a" "offset_of (a + of_nat k) = offset_of a + k"
proof -
  define q r where "q = unat a div 4096" and "r = unat a mod 4096"
  then have a: "unat a = q * 4096 + r" by simp
  have k: "r + k < 4096" using assms by (simp add: offset_of_eq r_def)
  have "unat a < 2 ^ 64" using unsigned_less [of a] by simp
  then have "q < 2 ^ 52" by (simp add: q_def)
  with k have "unat a + k < 2 ^ 64" unfolding a by simp
  then have s: "unat (a + of_nat k) = q * 4096 + (r + k)" by (subst unat_plus_small) (simp_all add: a)
  have "unat (a + of_nat k) div 4096 = q" "unat (a + of_nat k) mod 4096 = r + k"
    unfolding s using k by simp_all
  then show "page_of (a + of_nat k) = page_of a" "offset_of (a + of_nat k) = offset_of a + k"
    by (simp_all add: word_unat_eq_iff unat_page_of offset_of_eq q_def r_def)
qed

lemma load_chunk:
  assumes "k \<le> 4096 - offset_of a"
  shows "(case translate_vaddr m cr3 (page_of a) of
      Some phys \<Rightarrow> load_bytes (phys + of_nat (offset_of a)) k (phys_mem m) | None \<Rightarrow> replicate k 0)
    = map (\<lambda>i. user_byte m cr3 (a + of_nat i)) [0..<k]"
proof (rule nth_equalityI)
  fix i assume "i < length (case translate_vaddr m cr3 (page_of a) of
      Some phys \<Rightarrow> load_bytes (phys + of_nat (offset_of a)) k (phys_mem m) | None \<Rightarrow> replicate k 0)"
  then have i: "i < k" by (simp split: option.splits)
  with assms have "page_of (a + of_nat i) = page_of a" "offset_of (a + of_nat i) = offset_of a + i"
    by (simp_all add: same_page)
  with i show "(case translate_vaddr m cr3 (page_of a) of
      Some phys \<Rightarrow> load_bytes (phys + of_nat (offset_of a)) k (phys_mem m) | None \<Rightarrow> replicate k 0) ! i
      = map (\<lambda>i. user_byte m cr3 (a + of_nat i)) [0..<k] ! i"
    by (simp add: load_bytes_def user_byte_def phys_of_def add.assoc split: option.split)
qed (simp split: option.split)

lemma read_user_loop_eq:
  "d \<le> length buf \<Longrightarrow> read_user_loop m cr3 v buf d =
     take d buf @ map (\<lambda>i. user_byte m cr3 (v + of_nat i)) [d..<length buf]"
proof (induction m cr3 v buf d rule: read_user_loop.induct)
  case (1 m cr3 v buf d)
  show ?case
  proof (cases "d < length buf")
    case True
    let ?a = "v + of_nat d" and ?k = "chunk_size (v + of_nat d) (length buf - d)"
    let ?bs = "map (\<lambda>i. user_byte m cr3 (?a + of_nat i)) [0..<?k]"
    have k: "?k \<le> 4096 - offset_of ?a" "d + ?k \<le> length buf" using True by (simp_all add: chunk_size_def)
    have "read_user_loop m cr3 v buf d = read_user_loop m cr3 v (splice_at d ?bs buf) (d + ?k)"
      using True by (subst read_user_loop.simps) (simp add: Let_def load_chunk [OF k(1)])
    also have "\<dots> = take (d + ?k) (splice_at d ?bs buf) @
        map (\<lambda>i. user_byte m cr3 (v + of_nat i)) [d + ?k..<length buf]"
      using 1(1) [OF True refl refl refl] k True by (simp add: load_chunk [OF k(1)])
    also have "take (d + ?k) (splice_at d ?bs buf) = take d buf @ ?bs"
      using k True by (simp add: splice_at_def)
    also have "?bs = map (\<lambda>i. user_byte m cr3 (v + of_nat i)) [d..<d + ?k]"
      by (rule nth_equalityI) (simp_all add: add.assoc)
    finally have "read_user_loop m cr3 v buf d = take d buf @ map (\<lambda>i. user_byte m cr3 (v + of_nat i)) [d..<d + ?k]
        @ map (\<lambda>i. user_byte m cr3 (v + of_nat i)) [d + ?k..<length buf]" by simp
    moreover have "[d..<d + ?k] @ [d + ?k..<length buf] = [d..<length buf]"
      using k(2) by (metis le_add1 le_Suc_ex upt_add_eq_append)
    ultimately show ?thesis by (simp flip: map_append)
  qed (use 1(2) in \<open>simp add: read_user_loop.simps\<close>)
qed

text \<open>A read returns the bytes at the addresses it names, and zeros where nothing is mapped.\<close>

lemma read_user_pages_eq:
  "phys_mem_offset m \<noteq> 0 \<Longrightarrow> read_user_pages m cr3 v buf =
     map (\<lambda>i. user_byte m cr3 (v + of_nat i)) [0..<length buf]"
  by (simp add: read_user_pages_def read_user_loop_eq)

section \<open>Writing to user memory\<close>

text \<open>
  The pages of a range are mapped, each to a frame of its own that holds no table.
\<close>

definition user_range :: "'e Machine_scheme \<Rightarrow> u64 \<Rightarrow> u64 \<Rightarrow> nat \<Rightarrow> bool" where
  "user_range m cr3 v n \<longleftrightarrow>
     (\<forall>i < n. \<exists>e. page_entry m cr3 (v + of_nat i) = Some e \<and> entry_addr e \<notin> tables m cr3)
     \<and> (\<forall>i < n. \<forall>j < n. \<forall>e e'. page_entry m cr3 (v + of_nat i) = Some e \<longrightarrow> page_entry m cr3 (v + of_nat j) = Some e'
          \<longrightarrow> entry_addr e = entry_addr e' \<longrightarrow> page_of (v + of_nat i) = page_of (v + of_nat j))"

lemma user_range_entry:
  assumes "user_range m cr3 v n" and "i < n"
  obtains e where "page_entry m cr3 (v + of_nat i) = Some e" "entry_addr e \<notin> tables m cr3"
  using assms unfolding user_range_def by blast

lemma user_range_frame:
  assumes "user_range m cr3 v n" and "i < n" "j < n"
    and "page_entry m cr3 (v + of_nat i) = Some e" "page_entry m cr3 (v + of_nat j) = Some e'"
    and "entry_addr e = entry_addr e'"
  shows "page_of (v + of_nat i) = page_of (v + of_nat j)"
  using assms unfolding user_range_def by meson

lemma page_path_page: "page_path (page_of a) = page_path a"
proof -
  have "drop_bit k (page_of a) = drop_bit k a" if "12 \<le> k" for k
    using that unfolding page_of_def mask_12
    by (intro bit_word_eqI) (auto simp: bit_simps dest: bit_imp_le_length)
  then show ?thesis by (simp add: page_path_def l4_idx_def l3_idx_def l2_idx_def l1_idx_def)
qed

lemma page_entry_page: "page_entry m cr3 (page_of a) = page_entry m cr3 a"
  by (rule page_entry_path) (rule page_path_page)

lemma translate_entry:
  assumes "pt_wf m cr3" and "page_entry m cr3 v = Some e"
  shows "translate_vaddr m cr3 v = Some (entry_addr e)"
proof -
  have "\<not> huge (read_entry m cr3 (l4_idx v))" using assms(1) by (simp add: pt_wf_def)
  with assms(2) show ?thesis
    by (auto simp: page_entry_eq translate_vaddr_def walk.simps Let_def split: if_splits)
qed

lemma phys_of_entry:
  assumes "pt_wf m cr3" and "page_entry m cr3 a = Some e"
  shows "phys_of m cr3 a = Some (entry_addr e + of_nat (offset_of a))"
  using translate_entry [OF assms(1), of "page_of a"] assms(2) by (simp add: phys_of_def page_entry_page)

text \<open>A tree depends only on the bytes of its tables.\<close>

lemma pfn_offset: "page_aligned t \<Longrightarrow> i < 4096 \<Longrightarrow> pfn (t + of_nat i) = pfn t"
  by (auto simp: pfn_def unat_frame_offset page_aligned_iff elim!: dvdE)

lemma keeps_read_entry:
  assumes "keeps_frames used m m'" "page_aligned t" "pfn t \<in> used" "j < 512"
  shows "read_entry m' t j = read_entry m t j"
proof -
  have "phys_mem m' (t + 8 * of_nat j + of_nat i) = phys_mem m (t + 8 * of_nat j + of_nat i)" if "i < 8" for i
  proof -
    have "t + 8 * of_nat j + of_nat i = t + of_nat (8 * j + i)" by simp
    moreover have "pfn (t + of_nat (8 * j + i)) = pfn t" using that assms(2,4) by (intro pfn_offset) simp_all
    ultimately show ?thesis using assms(1,3) unfolding keeps_frames_def by metis
  qed
  then show ?thesis unfolding read_entry_def load_bytes_def by (auto intro!: arg_cong [where f = u64_of_le])
qed

lemma keeps_tree:
  assumes wf: "pt_wf m cr3" and k: "keeps_frames used m m'" "pfn ` tables m cr3 \<subseteq> used"
    and off: "phys_mem_offset m' \<noteq> 0"
  shows "pt_wf m' cr3" "tables m' cr3 = tables m cr3" "page_entry m' cr3 = page_entry m cr3"
    "small_page m cr3 v \<Longrightarrow> small_page m' cr3 v"
proof -
  have reads: "read_entry m' t j = read_entry m t j" if "t \<in> tables m cr3" "j < 512" for t j
    using that k wf by (intro keeps_read_entry [OF k(1)]) (auto simp: pt_wf_def tables_aligned)
  have walks: "walk m' cr3 p = walk m cr3 p" if "table_path p" for p
  proof (rule walk_cong)
    fix q j r u assume q: "p = q @ j # r" "walk m cr3 q = Some u"
    with that show "read_entry m' u j = read_entry m u j" by (intro reads walk_in_tables [of q]) auto
  qed
  then show tabs: "tables m' cr3 = tables m cr3" by (auto simp: tables_def)
  have "cr3 \<in> tables m cr3" using walk_in_tables [of "[]" m cr3 cr3] by simp
  with wf walks reads off show "pt_wf m' cr3" unfolding pt_wf_def by simp
  have t: "t \<in> tables m cr3" if "walk m cr3 [l4_idx v] = Some t \<or> walk m cr3 [l4_idx v, l3_idx v] = Some t" "user_page v" for t
    using that walk_in_tables [of "[l4_idx v]"] walk_in_tables [of "[l4_idx v, l3_idx v]"] by auto
  then show "small_page m cr3 v \<Longrightarrow> small_page m' cr3 v" unfolding small_page_def by (simp add: walks reads)
  show "page_entry m' cr3 = page_entry m cr3"
  proof
    fix w
    show "page_entry m' cr3 w = page_entry m cr3 w"
    proof (cases "user_page w \<and> walk m cr3 (l1_path w) \<noteq> None")
      case True
      then obtain l1 where l1: "walk m cr3 (l1_path w) = Some l1" by auto
      with True have "l1 \<in> tables m cr3" by (intro walk_in_tables [of "l1_path w"]) simp_all
      with True l1 walks [of "l1_path w"] reads [of l1 "l1_idx w"] show ?thesis by (simp add: page_entry_eq)
    qed (use walks [of "l1_path w"] in \<open>auto simp: page_entry_eq\<close>)
  qed
qed

text \<open>A write to a frame that holds no table leaves the tree of tables alone.\<close>

lemma store_keeps_frames:
  assumes "page_aligned f" "i + length bs \<le> 4096" "pfn f \<notin> used"
  shows "keeps_frames used m (m\<lparr>phys_mem := store_bytes (f + of_nat i) bs (phys_mem m)\<rparr>)"
  unfolding keeps_frames_def using assms by (auto intro!: store_other_frame)

lemma aligned_pfn_inject: "page_aligned f \<Longrightarrow> page_aligned g \<Longrightarrow> pfn f = pfn g \<longleftrightarrow> f = g"
  by (auto simp: pfn_def page_aligned_iff word_unat_eq_iff elim!: dvdE)

lemma data_write_tree:
  assumes wf: "pt_wf m cr3" and f: "page_aligned f" "f \<notin> tables m cr3" "i + length bs \<le> 4096"
  defines "m' \<equiv> m\<lparr>phys_mem := store_bytes (f + of_nat i) bs (phys_mem m)\<rparr>"
  shows "pt_wf m' cr3" "tables m' cr3 = tables m cr3" "page_entry m' cr3 = page_entry m cr3"
proof -
  have "pfn f \<notin> pfn ` tables m cr3"
    using f(1,2) wf by (auto simp: aligned_pfn_inject pt_wf_def dest: tables_aligned)
  from keeps_tree [OF wf store_keeps_frames [OF f(1,3) this] subset_refl] wf
  show "pt_wf m' cr3" "tables m' cr3 = tables m cr3" "page_entry m' cr3 = page_entry m cr3"
    by (simp_all add: m'_def pt_wf_def)
qed

lemma frame_offset_inject:
  assumes "page_aligned f" "page_aligned g" "i < 4096" "j < 4096" "f + of_nat i = g + of_nat j"
  shows "f = g \<and> i = j"
proof -
  have e: "unat f + i = unat g + j"
    using assms by (metis unat_frame_offset)
  have "f = g"
  proof (rule ccontr)
    assume "f \<noteq> g"
    with aligned_frames_apart [OF assms(1,2)] e assms(3,4) show False by simp
  qed
  with e show ?thesis by simp
qed

lemma page_offset_inject: "page_of a = page_of b \<Longrightarrow> offset_of a = offset_of b \<Longrightarrow> a = b"
proof -
  assume "page_of a = page_of b" "offset_of a = offset_of b"
  then have "unat a div 4096 * 4096 = unat b div 4096 * 4096" "unat a mod 4096 = unat b mod 4096"
    using unat_page_of [of a] unat_page_of [of b] by (simp_all add: offset_of_eq)
  then have "unat a = unat b" by (metis div_mult_mod_eq)
  then show ?thesis by (simp add: word_unat_eq_iff)
qed

lemma user_range_inject:
  assumes wf: "pt_wf m cr3" and r: "user_range m cr3 v n" "n \<le> 2 ^ 64" and ij: "i < n" "j < n"
    and x: "phys_of m cr3 (v + of_nat i) = Some x" "phys_of m cr3 (v + of_nat j) = Some x"
  shows "i = j"
proof -
  obtain e where e: "page_entry m cr3 (v + of_nat i) = Some e" by (rule user_range_entry [OF r(1) ij(1)])
  obtain e' where e': "page_entry m cr3 (v + of_nat j) = Some e'" by (rule user_range_entry [OF r(1) ij(2)])
  have "entry_addr e + of_nat (offset_of (v + of_nat i)) = entry_addr e' + of_nat (offset_of (v + of_nat j))"
    using x phys_of_entry [OF wf e] phys_of_entry [OF wf e'] by simp
  from frame_offset_inject [OF _ _ offset_less offset_less this]
  have same: "entry_addr e = entry_addr e'" "offset_of (v + of_nat i) = offset_of (v + of_nat j)" by simp_all
  from page_offset_inject [OF user_range_frame [OF r(1) ij e e' same(1)] same(2)]
  have "of_nat i = (of_nat j :: u64)" by simp
  moreover have "unat (of_nat i :: u64) = i" "unat (of_nat j :: u64) = j"
    using ij r(2) by (simp_all add: unat_of_nat_small)
  ultimately show ?thesis by metis
qed

text \<open>The effect of a write from byte \<open>d\<close> on.\<close>

definition wrote :: "'e Machine_scheme \<Rightarrow> u64 \<Rightarrow> u64 \<Rightarrow> u8 list \<Rightarrow> nat \<Rightarrow> 'e Machine_scheme \<Rightarrow> bool" where
  "wrote m cr3 v data d m' \<longleftrightarrow> pt_wf m' cr3 \<and> page_entry m' cr3 = page_entry m cr3 \<and> tables m' cr3 = tables m cr3
     \<and> (\<forall>i x. d \<le> i \<longrightarrow> i < length data \<longrightarrow> phys_of m cr3 (v + of_nat i) = Some x \<longrightarrow> phys_mem m' x = data ! i)
     \<and> (\<forall>x. (\<forall>i. d \<le> i \<longrightarrow> i < length data \<longrightarrow> phys_of m cr3 (v + of_nat i) \<noteq> Some x) \<longrightarrow> phys_mem m' x = phys_mem m x)"

text \<open>One chunk, stored in a frame \<open>f\<close> that holds no table.\<close>

lemma chunk_bytes:
  assumes f: "page_aligned f" and k: "k \<le> 4096 - offset_of a" "d + k \<le> length data"
  shows "i < k \<Longrightarrow> store_bytes (f + of_nat (offset_of a)) (take k (drop d data)) g
      (f + of_nat (offset_of (a + of_nat i))) = data ! (d + i)"
    and "(\<And>i. i < k \<Longrightarrow> x \<noteq> f + of_nat (offset_of (a + of_nat i))) \<Longrightarrow>
      store_bytes (f + of_nat (offset_of a)) (take k (drop d data)) g x = g x"
proof -
  let ?b = "f + of_nat (offset_of a)" and ?bs = "take k (drop d data)"
  have len: "length ?bs = k" using k(2) by simp
  have b: "unat ?b = unat f + offset_of a" using f offset_less by (rule unat_frame_offset)
  have room: "unat ?b + length ?bs \<le> 2 ^ 64" using frame_room [OF f] k(1) offset_less [of a] by (simp add: b len)
  show "store_bytes ?b ?bs g (f + of_nat (offset_of (a + of_nat i))) = data ! (d + i)" if i: "i < k"
  proof -
    have "offset_of (a + of_nat i) = offset_of a + i" using i k(1) by (intro same_page) simp
    moreover from this have "unat (f + of_nat (offset_of (a + of_nat i))) = unat f + (offset_of a + i)"
      using unat_frame_offset [OF f offset_less, of "a + of_nat i"] by simp
    ultimately show ?thesis using i k(2) by (simp add: store_bytes_apply [OF room] b len)
  qed
  show "store_bytes ?b ?bs g x = g x" if x: "\<And>i. i < k \<Longrightarrow> x \<noteq> f + of_nat (offset_of (a + of_nat i))"
  proof (rule ccontr)
    assume "store_bytes ?b ?bs g x \<noteq> g x"
    then have r: "unat ?b \<le> unat x" "unat x < unat ?b + k"
      by (auto simp: store_bytes_apply [OF room] len split: if_splits)
    define i where "i = unat x - unat ?b"
    with r have i: "i < k" "unat x = unat ?b + i" by simp_all
    then have "offset_of (a + of_nat i) = offset_of a + i" using k(1) by (intro same_page) simp
    moreover from this have "unat (f + of_nat (offset_of (a + of_nat i))) = unat f + (offset_of a + i)"
      using unat_frame_offset [OF f offset_less, of "a + of_nat i"] by simp
    ultimately have "x = f + of_nat (offset_of (a + of_nat i))" using i(2) b by (simp add: word_unat_eq_iff)
    with x [OF i(1)] show False by simp
  qed
qed

lemma wroteD:
  assumes "wrote m cr3 v data d m'"
  shows "pt_wf m' cr3" "page_entry m' cr3 = page_entry m cr3" "tables m' cr3 = tables m cr3"
    and "d \<le> i \<Longrightarrow> i < length data \<Longrightarrow> phys_of m cr3 (v + of_nat i) = Some x \<Longrightarrow> phys_mem m' x = data ! i"
    and "(\<And>i. d \<le> i \<Longrightarrow> i < length data \<Longrightarrow> phys_of m cr3 (v + of_nat i) \<noteq> Some x) \<Longrightarrow> phys_mem m' x = phys_mem m x"
  using assms by (simp_all add: wrote_def)

lemma wrote_same_tree:
  assumes "pt_wf m cr3" "user_range m cr3 v n" "pt_wf m' cr3" "page_entry m' cr3 = page_entry m cr3" "i < n"
  shows "phys_of m' cr3 (v + of_nat i) = phys_of m cr3 (v + of_nat i)"
proof -
  obtain e where e: "page_entry m cr3 (v + of_nat i) = Some e" by (rule user_range_entry [OF assms(2,5)])
  with phys_of_entry [OF assms(1) e] phys_of_entry [OF assms(3)] assms(4) show ?thesis by simp
qed

lemma wrote_step:
  assumes wf: "pt_wf m cr3" and r: "user_range m cr3 v (length data)" "length data \<le> 2 ^ 64"
    and d: "d < length data"
  defines "a \<equiv> v + of_nat d"
  defines "k \<equiv> chunk_size a (length data - d)"
  assumes e: "page_entry m cr3 a = Some e" "entry_addr e \<notin> tables m cr3"
  defines "m1 \<equiv> m\<lparr>phys_mem := store_bytes (entry_addr e + of_nat (offset_of a)) (take k (drop d data)) (phys_mem m)\<rparr>"
  assumes w: "wrote m1 cr3 v data (d + k) m'"
  shows "wrote m cr3 v data d m'"
proof -
  have k: "k \<le> 4096 - offset_of a" "d + k \<le> length data" using d by (simp_all add: k_def chunk_size_def)
  have f: "page_aligned (entry_addr e)" by simp
  have "offset_of a + length (take k (drop d data)) \<le> 4096" using k offset_less [of a] by simp
  note tree = data_write_tree [OF wf f e(2) this, folded m1_def]
  have here: "phys_of m cr3 (v + of_nat (d + j)) = Some (entry_addr e + of_nat (offset_of (a + of_nat j)))" if "j < k" for j
  proof -
    have "page_of (a + of_nat j) = page_of a" using that k by (intro same_page) simp
    then have "page_entry m cr3 (a + of_nat j) = Some e" by (metis e(1) page_entry_page)
    from phys_of_entry [OF wf this] show ?thesis by (simp add: a_def add.assoc)
  qed
  note phys = wrote_same_tree [OF wf r(1) tree(1,3)]
  have "phys_mem m' x = data ! i"
    if i: "d \<le> i" "i < length data" and x: "phys_of m cr3 (v + of_nat i) = Some x" for i x
  proof (cases "d + k \<le> i")
    case True
    with wroteD(4) [OF w] i x phys show ?thesis by simp
  next
    case False
    define j where "j = i - d"
    with False i have j: "i = d + j" "j < k" by auto
    have "phys_of m1 cr3 (v + of_nat i') \<noteq> Some x" if "d + k \<le> i'" "i' < length data" for i'
      using user_range_inject [OF wf r i(2) that(2) x] phys [OF that(2)] that False by auto
    then have "phys_mem m' x = phys_mem m1 x" by (rule wroteD(5) [OF w])
    with chunk_bytes(1) [OF f k j(2), of "phys_mem m"] here [OF j(2)] x j show ?thesis by (simp add: m1_def)
  qed
  moreover have "phys_mem m' x = phys_mem m x"
    if x: "\<And>i. d \<le> i \<Longrightarrow> i < length data \<Longrightarrow> phys_of m cr3 (v + of_nat i) \<noteq> Some x" for x
  proof -
    have "phys_mem m' x = phys_mem m1 x" using x phys by (intro wroteD(5) [OF w]) simp
    moreover have "x \<noteq> entry_addr e + of_nat (offset_of (a + of_nat j))" if "j < k" for j
      using x [of "d + j"] here [OF that] that k(2) by auto
    then have "phys_mem m1 x = phys_mem m x" using chunk_bytes(2) [OF f k] by (simp add: m1_def)
    ultimately show ?thesis by simp
  qed
  ultimately show ?thesis unfolding wrote_def using wroteD(1-3) [OF w] tree by auto
qed

lemma write_user_loop_wrote:
  "pt_wf m cr3 \<Longrightarrow> user_range m cr3 v (length data) \<Longrightarrow> length data \<le> 2 ^ 64 \<Longrightarrow>
     wrote m cr3 v data d (write_user_loop m cr3 v data d)"
proof (induction m cr3 v data d rule: write_user_loop.induct)
  case (1 m cr3 v data d)
  show ?case
  proof (cases "d < length data")
    case True
    let ?a = "v + of_nat d"
    let ?k = "chunk_size ?a (length data - d)"
    obtain e where e: "page_entry m cr3 ?a = Some e" "entry_addr e \<notin> tables m cr3"
      by (rule user_range_entry [OF 1(3) True])
    have t: "translate_vaddr m cr3 (page_of ?a) = Some (entry_addr e)"
      using e(1) by (intro translate_entry [OF 1(2)]) (simp add: page_entry_page)
    let ?m = "m\<lparr>phys_mem := store_bytes (entry_addr e + of_nat (offset_of ?a)) (take ?k (drop d data)) (phys_mem m)\<rparr>"
    have "offset_of ?a + length (take ?k (drop d data)) \<le> 4096"
      using offset_less [of ?a] by (simp add: chunk_size_def)
    note tree = data_write_tree [OF 1(2) entry_addr_aligned e(2) this]
    have "user_range ?m cr3 v (length data)" using 1(3) unfolding user_range_def tree(2,3) .
    then have "wrote ?m cr3 v data (d + ?k) (write_user_loop ?m cr3 v data (d + ?k))"
      using 1(1) [OF True refl refl refl] tree(1) 1(4) unfolding t option.case by blast
    from wrote_step [OF 1(2-4) True e this] show ?thesis
      using True t by (subst write_user_loop.simps) (simp add: Let_def)
  qed (use 1(2) in \<open>simp add: write_user_loop.simps wrote_def\<close>)
qed

lemma write_user_loop_offset:
  "phys_mem_offset (write_user_loop m cr3 v data d) = phys_mem_offset m"
proof (induction m cr3 v data d rule: write_user_loop.induct)
  case (1 m cr3 v data d)
  show ?case
  proof (cases "d < length data")
    case True
    from 1 [OF True refl refl refl] True show ?thesis
      by (subst write_user_loop.simps) (simp add: Let_def split: option.split)
  qed (simp add: write_user_loop.simps)
qed

text \<open>
  C8: A read of user memory returns what a write put there, for any length and any alignment, so
  also across page boundaries; and a read of mapped memory no byte of which shares a physical
  address with the written bytes returns what it returned before.
\<close>

theorem user_memory_roundtrip:
  assumes "pt_wf m cr3" and "phys_mem_offset m \<noteq> 0"
    and "user_range m cr3 v (length data)" and "length data \<le> 2 ^ 64"
    and "m' = write_user_pages m cr3 v data"
  shows "(length buf = length data \<longrightarrow> read_user_pages m' cr3 v buf = data)
    \<and> ((\<forall>j < length buf. page_entry m cr3 (w + of_nat j) \<noteq> None \<and>
          (\<forall>i < length data. phys_of m cr3 (v + of_nat i) \<noteq> phys_of m cr3 (w + of_nat j)))
        \<longrightarrow> read_user_pages m' cr3 w buf = read_user_pages m cr3 w buf)"
proof -
  have m': "m' = write_user_loop m cr3 v data 0" using assms(2,5) by (simp add: write_user_pages_def)
  have w: "wrote m cr3 v data 0 m'" unfolding m' using assms(1,3,4) by (rule write_user_loop_wrote)
  have off: "phys_mem_offset m' \<noteq> 0" using assms(2) by (simp add: m' write_user_loop_offset)
  have byte: "user_byte m' cr3 a = phys_mem m' (entry_addr e + of_nat (offset_of a))"
    if "page_entry m cr3 a = Some e" for a e
    using phys_of_entry [OF wroteD(1) [OF w]] wroteD(2) [OF w] that by (simp add: user_byte_def)
  have "user_byte m' cr3 (v + of_nat i) = data ! i" if i: "i < length data" for i
  proof -
    obtain e where e: "page_entry m cr3 (v + of_nat i) = Some e" by (rule user_range_entry [OF assms(3) i])
    with wroteD(4) [OF w _ i phys_of_entry [OF assms(1) e]] show ?thesis by (simp add: byte)
  qed
  then have "length buf = length data \<longrightarrow> read_user_pages m' cr3 v buf = data"
    by (auto simp: read_user_pages_eq off intro!: nth_equalityI)
  moreover have "user_byte m' cr3 (w + of_nat j) = user_byte m cr3 (w + of_nat j)"
    if j: "page_entry m cr3 (w + of_nat j) \<noteq> None"
      "\<forall>i < length data. phys_of m cr3 (v + of_nat i) \<noteq> phys_of m cr3 (w + of_nat j)" for j
  proof -
    obtain e where e: "page_entry m cr3 (w + of_nat j) = Some e" using j(1) by blast
    from j(2) have "phys_mem m' (entry_addr e + of_nat (offset_of (w + of_nat j)))
        = phys_mem m (entry_addr e + of_nat (offset_of (w + of_nat j)))"
      by (intro wroteD(5) [OF w]) (simp add: phys_of_entry [OF assms(1) e])
    then show ?thesis by (simp add: byte [OF e]) (simp add: user_byte_def phys_of_entry [OF assms(1) e])
  qed
  then have "(\<forall>j < length buf. page_entry m cr3 (w + of_nat j) \<noteq> None \<and>
          (\<forall>i < length data. phys_of m cr3 (v + of_nat i) \<noteq> phys_of m cr3 (w + of_nat j)))
      \<longrightarrow> read_user_pages m' cr3 w buf = read_user_pages m cr3 w buf"
    using off assms(2) by (simp add: read_user_pages_eq)
  ultimately show ?thesis by blast
qed

text \<open>Two pages at \<open>0x400000\<close>, mapped to the frames \<open>0x9000\<close> and \<open>0x7000\<close>.\<close>

definition um_demo :: Machine where
  "um_demo = write_entry (write_entry (write_entry (write_entry (write_entry pt_demo
     0x1000 0 0x2007) 0x2000 0 0x3007) 0x3000 2 0x4007) 0x4000 0 0x9007) 0x4000 1 0x7007"

lemma um_demo_read:
  assumes "page_aligned t" "j < 512"
  shows "read_entry um_demo t j = (if t = 0x1000 \<and> j = 0 then 0x2007 else if t = 0x2000 \<and> j = 0 then 0x3007
    else if t = 0x3000 \<and> j = 2 then 0x4007 else if t = 0x4000 \<and> j = 0 then 0x9007
    else if t = 0x4000 \<and> j = 1 then 0x7007 else 0)"
proof -
  have "page_aligned 0x1000" "page_aligned 0x2000" "page_aligned 0x3000" "page_aligned 0x4000"
    by (simp_all add: page_aligned_def)
  with assms show ?thesis by (simp add: um_demo_def read_write_entry pt_demo_reads)
qed

lemma um_demo_entries:
  "entry_addr 0x2007 = 0x2000" "entry_addr 0x3007 = 0x3000" "entry_addr 0x4007 = 0x4000"
  "entry_addr 0x9007 = 0x9000" "entry_addr 0x7007 = 0x7000"
  "\<not> huge 0x2007" "\<not> huge 0x3007" "\<not> huge 0x4007" "\<not> huge 0x9007" "\<not> huge 0x7007"
  by (simp_all add: entry_addr_def huge_def entry_flags_def HUGE_PAGE_def)

lemmas um_demo_simps = um_demo_read um_demo_entries page_aligned_def is_unused_def walk.simps(2) Let_def

lemma um_demo_down:
  assumes "i < 512"
  shows "walk um_demo 0x1000 (i # p) = (if i = 0 then walk um_demo 0x2000 p else None)"
    "walk um_demo 0x2000 (i # p) = (if i = 0 then walk um_demo 0x3000 p else None)"
    "walk um_demo 0x3000 (i # p) = (if i = 2 then walk um_demo 0x4000 p else None)"
  using assms by (simp_all add: um_demo_simps)

lemma um_demo_walk:
  assumes "table_path p" "walk um_demo 0x1000 p = Some t"
  shows "(p, t) \<in> {([], 0x1000), ([0], 0x2000), ([0, 0], 0x3000), ([0, 0, 2], 0x4000)}"
proof -
  consider "p = []" | i where "p = [i]" | i j where "p = [i, j]" | i j k where "p = [i, j, k]"
    using assms(1) by (cases p rule: remdups_adj.cases; cases "tl (tl p)") auto
  then show ?thesis using assms by cases (auto simp: um_demo_down split: if_splits)
qed

lemma um_demo_offset: "phys_mem_offset um_demo \<noteq> 0"
  by (simp add: um_demo_def write_entry_def pt_demo_def)

lemma um_demo_wf: "pt_wf um_demo 0x1000"
proof -
  have "p = q" if "table_path p" "table_path q" "walk um_demo 0x1000 p = Some t" "walk um_demo 0x1000 q = Some t" for p q t
    using um_demo_walk [OF that(1,3)] um_demo_walk [OF that(2,4)] by auto
  moreover note um_demo_offset
  moreover have "page_aligned 0x1000" "\<forall>i < 512. \<not> huge (read_entry um_demo 0x1000 i)" by (simp_all add: um_demo_simps)
  ultimately show ?thesis unfolding pt_wf_def by blast
qed

lemma um_demo_tables: "tables um_demo 0x1000 \<subseteq> {0x1000, 0x2000, 0x3000, 0x4000}"
  unfolding tables_def using um_demo_walk by blast

lemma um_demo_pages:
  "page_entry um_demo 0x1000 0x400FFF = Some 0x9007" "page_entry um_demo 0x1000 0x401000 = Some 0x7007"
  by (simp_all add: page_entry_eq um_demo_simps l4_idx_def l3_idx_def l2_idx_def l1_idx_def)

theorem user_memory_roundtrip_witness:
  "read_user_pages (write_user_pages um_demo 0x1000 0x400FFF [1, 2]) 0x1000 0x400FFF [0, 0] = [1, 2]"
proof -
  have two: "i < length [1, 2 :: u8] \<longleftrightarrow> i = 0 \<or> i = 1" for i by auto
  have "user_range um_demo 0x1000 0x400FFF (length [1, 2 :: u8])"
    unfolding user_range_def two using um_demo_tables by (auto simp: um_demo_pages um_demo_entries)
  from user_memory_roundtrip [OF um_demo_wf um_demo_offset this _ refl, where buf = "[0, 0]"] show ?thesis
    by simp
qed

end
