(* ===== verification/Swap.thy ===== *)
theory Swap
  imports Btree "HOL-Library.Product_Lexorder"
begin

text \<open>
  \<open>src/kernel/src/mm/swap.rs\<close>: swap areas with their slot bitmaps, the encoding of a slot as a
  page-table entry, and the manager that stores the pages of processes in slots. Page contents are
  kept in memory (\<open>slot_data\<close>), as the source does until a disk area exists; its disk routines and
  the probe of the block devices call the file system and are not modelled.
\<close>

section \<open>Areas\<close>

datatype SwapType = Partition | File

record SwapArea =
  area_no :: nat
  swap_type :: SwapType
  swap_path :: string
  total_slots :: nat
  used_slots :: nat
  swap_priority :: i32
  area_active :: bool
  slot_map :: "u8 list"

definition SwapArea_new :: "nat \<Rightarrow> string \<Rightarrow> SwapType \<Rightarrow> nat \<Rightarrow> i32 \<Rightarrow> SwapArea" where
  "SwapArea_new i path kind total_pages priority =
     \<lparr>area_no = i, swap_type = kind, swap_path = path, total_slots = total_pages, used_slots = 0,
      swap_priority = priority, area_active = False, slot_map = replicate ((total_pages + 7) div 8) 0\<rparr>"

text \<open>
  The two loops of \<open>alloc_slot\<close>: \<open>None\<close> when the inner loop ends without returning, \<open>Some r\<close> when
  the function returns \<open>r\<close>.
\<close>

fun scan_bits :: "nat \<Rightarrow> u8 \<Rightarrow> nat \<Rightarrow> nat list \<Rightarrow> nat option option" where
  "scan_bits n_slots b byte_idx [] = None"
| "scan_bits n_slots b byte_idx (k # ks) =
     (let slot = byte_idx * 8 + k in
      if n_slots \<le> slot then Some None
      else if b AND push_bit k 1 = 0 then Some (Some slot)
      else scan_bits n_slots b byte_idx ks)"

fun scan_bytes :: "nat \<Rightarrow> u8 list \<Rightarrow> nat \<Rightarrow> nat option" where
  "scan_bytes n_slots [] byte_idx = None"
| "scan_bytes n_slots (b # bs) byte_idx =
     (if b \<noteq> 0xFF then
        (case scan_bits n_slots b byte_idx [0..<8] of
           Some r \<Rightarrow> r
         | None \<Rightarrow> scan_bytes n_slots bs (Suc byte_idx))
      else scan_bytes n_slots bs (Suc byte_idx))"

definition set_slot :: "nat \<Rightarrow> u8 list \<Rightarrow> u8 list" where
  "set_slot slot bs = bs[slot div 8 := bs ! (slot div 8) OR push_bit (slot mod 8) 1]"

definition alloc_slot :: "SwapArea \<Rightarrow> SwapArea \<times> nat option" where
  "alloc_slot a =
     (case scan_bytes (total_slots a) (slot_map a) 0 of
        None \<Rightarrow> (a, None)
      | Some slot \<Rightarrow> (a\<lparr>slot_map := set_slot slot (slot_map a), used_slots := used_slots a + 1\<rparr>, Some slot))"

definition free_slot :: "nat \<Rightarrow> SwapArea \<Rightarrow> SwapArea exec" where
  "free_slot slot a =
     (if total_slots a \<le> slot then Done a
      else let byte_idx = slot div 8; b = slot mod 8 in
        if length (slot_map a) \<le> byte_idx then Panic
        else if has_bits (slot_map a ! byte_idx) (push_bit b 1) then
          Done (a\<lparr>slot_map := (slot_map a)[byte_idx := slot_map a ! byte_idx AND NOT (push_bit b 1)],
                  used_slots := usub (used_slots a) 1\<rparr>)
        else Done a)"

definition is_slot_used :: "SwapArea \<Rightarrow> nat \<Rightarrow> bool exec" where
  "is_slot_used a slot =
     (if total_slots a \<le> slot then Done False
      else if length (slot_map a) \<le> slot div 8 then Panic
      else Done (has_bits (slot_map a ! (slot div 8)) (push_bit (slot mod 8) 1)))"

definition free_slots :: "SwapArea \<Rightarrow> nat" where
  "free_slots a = usub (total_slots a) (used_slots a)"

section \<open>Entries\<close>

text \<open>\<open>SwapEntry\<close> is a \<open>u64\<close>.\<close>

definition SwapEntry_new :: "nat \<Rightarrow> nat \<Rightarrow> u64" where
  "SwapEntry_new area_id slot =
     (push_bit 1 1 OR push_bit 2 (of_nat (area_id AND 0x1F))) OR push_bit 7 (of_nat slot)"

definition is_swap_entry :: "u64 \<Rightarrow> bool" where
  "is_swap_entry pte \<longleftrightarrow> pte AND 1 = 0 \<and> pte AND 2 \<noteq> 0"

definition entry_area_id :: "u64 \<Rightarrow> nat" where
  "entry_area_id e = unat (drop_bit 2 e AND 0x1F)"

definition entry_slot :: "u64 \<Rightarrow> nat" where
  "entry_slot e = unat (drop_bit 7 e)"

section \<open>The manager\<close>

record PageInfo =
  phys_addr :: u64
  virt_addr :: u64
  page_pid :: u32
  access_count :: u32
  last_access_tick :: u64
  dirty :: bool
  pinned :: bool

record SwapManager =
  areas :: "SwapArea list"
  total_swap_pages :: nat
  used_swap_pages :: nat
  swapped_pages :: "(u32 \<times> u64, u64) btree"
  slot_data :: "(nat \<times> nat, u8 list) btree"
  lru_pages :: "PageInfo list"
  swappiness :: u32
  pages_swapped_in :: u64
  pages_swapped_out :: u64

definition SwapManager_new :: SwapManager where
  "SwapManager_new = \<lparr>areas = [], total_swap_pages = 0, used_swap_pages = 0, swapped_pages = [],
     slot_data = [], lru_pages = [], swappiness = 60, pages_swapped_in = 0, pages_swapped_out = 0\<rparr>"

definition swapon :: "string \<Rightarrow> SwapType \<Rightarrow> nat \<Rightarrow> i32 \<Rightarrow> SwapManager \<Rightarrow> SwapManager \<times> (string + nat)" where
  "swapon path kind size_bytes priority s =
     (if 32 \<le> length (areas s) then (s, Inl ''too many swap areas'')
      else let total_pages = size_bytes div 4096 in
      if total_pages = 0 then (s, Inl ''swap area too small'')
      else let i = length (areas s);
               area = (SwapArea_new i path kind total_pages priority)\<lparr>area_active := True\<rparr> in
        (s\<lparr>total_swap_pages := total_swap_pages s + total_pages, areas := areas s @ [area]\<rparr>, Inr i))"

definition swapoff :: "string \<Rightarrow> SwapManager \<Rightarrow> SwapManager \<times> (string + unit)" where
  "swapoff path s =
     (case position (\<lambda>a. swap_path a = path \<and> area_active a) (areas s) of
        None \<Rightarrow> (s, Inl ''swap area not found or not active'')
      | Some i \<Rightarrow>
          let a = areas s ! i in
          if 0 < used_slots a then (s, Inl ''swap area has pages in use, page them in first'')
          else (s\<lparr>areas := (areas s)[i := a\<lparr>area_active := False\<rparr>],
                  total_swap_pages := usub (total_swap_pages s) (total_slots a)\<rparr>, Inr ()))"

text \<open>The search of \<open>alloc_swap_slot\<close>: the first area of the highest priority with a free slot.\<close>

fun best_area :: "(nat \<times> i32) option \<Rightarrow> nat \<Rightarrow> SwapArea list \<Rightarrow> (nat \<times> i32) option" where
  "best_area best i [] = best"
| "best_area best i (a # as) =
     (if \<not> area_active a \<or> free_slots a = 0 then best_area best (Suc i) as
      else case best of
        None \<Rightarrow> best_area (Some (i, swap_priority a)) (Suc i) as
      | Some (_, bp) \<Rightarrow>
          if bp < swap_priority a then best_area (Some (i, swap_priority a)) (Suc i) as
          else best_area best (Suc i) as)"

definition alloc_swap_slot :: "SwapManager \<Rightarrow> SwapManager \<times> u64 option" where
  "alloc_swap_slot s =
     (case best_area None 0 (areas s) of
        None \<Rightarrow> (s, None)
      | Some (idx, _) \<Rightarrow>
          (case alloc_slot (areas s ! idx) of
             (a, None) \<Rightarrow> (s\<lparr>areas := (areas s)[idx := a]\<rparr>, None)
           | (a, Some slot) \<Rightarrow>
               (s\<lparr>areas := (areas s)[idx := a], used_swap_pages := used_swap_pages s + 1\<rparr>,
                Some (SwapEntry_new idx slot))))"

definition free_swap_slot :: "u64 \<Rightarrow> SwapManager \<Rightarrow> SwapManager exec" where
  "free_swap_slot entry s =
     (let area_id = entry_area_id entry; slot = entry_slot entry in
      if area_id < length (areas s) then
        exec_bind (free_slot slot (areas s ! area_id)) (\<lambda>a.
          Done (s\<lparr>areas := (areas s)[area_id := a], used_swap_pages := usub (used_swap_pages s) 1\<rparr>))
      else Done s)"

definition page_bytes :: "u8 list \<Rightarrow> u8 list" where
  "page_bytes data = (let n = min (length data) 4096 in take n data @ replicate (4096 - n) 0)"

definition page_out :: "u32 \<Rightarrow> u64 \<Rightarrow> u8 list \<Rightarrow> SwapManager \<Rightarrow> SwapManager \<times> u64 option" where
  "page_out pid vaddr data s =
     (case alloc_swap_slot s of
        (s, None) \<Rightarrow> (s, None)
      | (s, Some entry) \<Rightarrow>
          (s\<lparr>slot_data := bt_insert (entry_area_id entry, entry_slot entry) (page_bytes data) (slot_data s),
             swapped_pages := bt_insert (pid, vaddr) entry (swapped_pages s),
             pages_swapped_out := pages_swapped_out s + 1\<rparr>, Some entry))"

definition page_in :: "u32 \<Rightarrow> u64 \<Rightarrow> SwapManager \<Rightarrow> (SwapManager \<times> u8 list option) exec" where
  "page_in pid vaddr s =
     (case bt_get (swapped_pages s) (pid, vaddr) of
        None \<Rightarrow> Done (s, None)
      | Some entry \<Rightarrow>
          let k = (entry_area_id entry, entry_slot entry);
              data = (case bt_get (slot_data s) k of Some d \<Rightarrow> d | None \<Rightarrow> replicate 4096 0);
              s' = s\<lparr>swapped_pages := bt_remove (pid, vaddr) (swapped_pages s), slot_data := bt_remove k (slot_data s)\<rparr> in
          exec_bind (free_swap_slot entry s') (\<lambda>s.
            Done (s\<lparr>pages_swapped_in := pages_swapped_in s + 1\<rparr>, Some data)))"

definition is_swapped :: "u32 \<Rightarrow> u64 \<Rightarrow> SwapManager \<Rightarrow> bool" where
  "is_swapped pid vaddr s \<longleftrightarrow> bt_get (swapped_pages s) (pid, vaddr) \<noteq> None"

definition track_page :: "PageInfo \<Rightarrow> SwapManager \<Rightarrow> SwapManager" where
  "track_page info s = (if pinned info then s else s\<lparr>lru_pages := lru_pages s @ [info]\<rparr>)"

definition track_anon_page :: "u32 \<Rightarrow> u64 \<Rightarrow> u64 \<Rightarrow> SwapManager \<Rightarrow> SwapManager" where
  "track_anon_page pid vaddr phys s =
     track_page \<lparr>phys_addr = phys, virt_addr = vaddr, page_pid = pid, access_count = 0,
       last_access_tick = 0, dirty = True, pinned = False\<rparr> s"

text \<open>The loop of \<open>select_victim\<close>: best index and score so far; the multiplication is on \<open>u64\<close>.\<close>

definition page_score :: "PageInfo \<Rightarrow> u64" where
  "page_score p = ucast (access_count p) * 1000 + last_access_tick p"

fun victim_scan :: "nat \<times> u64 \<times> bool \<Rightarrow> nat \<Rightarrow> PageInfo list \<Rightarrow> nat \<times> u64 \<times> bool" where
  "victim_scan acc i [] = acc"
| "victim_scan (best_idx, best_score, found) i (p # ps) =
     (if pinned p then victim_scan (best_idx, best_score, found) (Suc i) ps
      else if page_score p < best_score then victim_scan (i, page_score p, True) (Suc i) ps
      else victim_scan (best_idx, best_score, found) (Suc i) ps)"

definition select_victim :: "SwapManager \<Rightarrow> SwapManager \<times> PageInfo option" where
  "select_victim s =
     (if lru_pages s = [] then (s, None)
      else case victim_scan (0, - 1, False) 0 (lru_pages s) of
        (best_idx, _, found) \<Rightarrow>
          if \<not> found then (s, None)
          else (s\<lparr>lru_pages := remove_at best_idx (lru_pages s)\<rparr>, Some (lru_pages s ! best_idx)))"

definition set_range_pinned :: "u32 \<Rightarrow> u64 \<Rightarrow> u64 \<Rightarrow> bool \<Rightarrow> SwapManager \<Rightarrow> SwapManager" where
  "set_range_pinned pid start len pin s =
     (let stop = (case checked_add start len of Some e \<Rightarrow> e | None \<Rightarrow> - 1) in
      s\<lparr>lru_pages := map (\<lambda>p. if page_pid p = pid \<and> start \<le> virt_addr p \<and> virt_addr p < stop
                              then p\<lparr>pinned := pin\<rparr> else p) (lru_pages s)\<rparr>)"

record SwapStats =
  stats_total :: nat
  stats_used :: nat
  stats_free :: nat
  stats_in :: u64
  stats_out :: u64
  stats_areas :: nat

definition swap_stats :: "SwapManager \<Rightarrow> SwapStats" where
  "swap_stats s = \<lparr>stats_total = total_swap_pages s, stats_used = used_swap_pages s,
     stats_free = usub (total_swap_pages s) (used_swap_pages s), stats_in = pages_swapped_in s,
     stats_out = pages_swapped_out s, stats_areas = length (filter area_active (areas s))\<rparr>"

definition set_swappiness :: "u32 \<Rightarrow> SwapManager \<Rightarrow> SwapManager" where
  "set_swappiness val s = s\<lparr>swappiness := min val 100\<rparr>"

text \<open>\<open>parse_swap_header\<close>: the field \<open>last_page\<close> of a swap header.\<close>

definition parse_swap_header :: "u8 list \<Rightarrow> nat" where
  "parse_swap_header data =
     (if 1040 \<le> length data then unat (u32_of_le (take 4 (drop 1028 data))) + 1 else 0)"

section \<open>The bitmap as a set of slots\<close>

definition slot_used :: "SwapArea \<Rightarrow> nat \<Rightarrow> bool" where
  "slot_used a s \<longleftrightarrow> s < total_slots a \<and> bit (slot_map a ! (s div 8)) (s mod 8)"

definition area_ok :: "SwapArea \<Rightarrow> bool" where
  "area_ok a \<longleftrightarrow> length (slot_map a) = (total_slots a + 7) div 8 \<and> total_slots a < 2 ^ 57
     \<and> used_slots a = card {s. slot_used a s}"

lemma test_bit_and: "b AND 2 ^ k = 0 \<longleftrightarrow> \<not> bit b k" for b :: u8
  using bit_iff_and_push_bit_not_eq_0 [of b k] by (simp add: push_bit_of_1)

lemma full_byte: "k < 8 \<Longrightarrow> bit (0xFF :: u8) k"
  by (auto simp: less_Suc_eq eval_nat_numeral(2-) bit_numeral_rec)

lemma scan_bits_cases:
  assumes "scan_bits n b i ks = r"
  shows "r = Some (Some slot) \<Longrightarrow> \<exists>k \<in> set ks. slot = i * 8 + k \<and> slot < n \<and> \<not> bit b k"
    and "r = None \<Longrightarrow> \<forall>k \<in> set ks. bit b k"
    and "r = Some None \<Longrightarrow> ks = [m..<8] \<Longrightarrow> \<forall>k. m \<le> k \<longrightarrow> k < 8 \<longrightarrow> i * 8 + k < n \<longrightarrow> bit b k"
proof -
  show "r = Some (Some slot) \<Longrightarrow> \<exists>k \<in> set ks. slot = i * 8 + k \<and> slot < n \<and> \<not> bit b k"
    using assms by (induction ks) (auto simp: Let_def test_bit_and split: if_splits)
  show "r = None \<Longrightarrow> \<forall>k \<in> set ks. bit b k"
    using assms by (induction ks) (auto simp: Let_def test_bit_and split: if_splits)
  show "\<forall>k. m \<le> k \<longrightarrow> k < 8 \<longrightarrow> i * 8 + k < n \<longrightarrow> bit b k" if "r = Some None" "ks = [m..<8]"
    using that assms
  proof (induction ks arbitrary: m)
    case (Cons k ks)
    then have "[m..<8] = k # ks" by simp
    then have k: "k = m" "ks = [Suc m..<8]" by (auto simp: upt_eq_Cons_conv)
    show ?case
    proof (cases "n \<le> i * 8 + k")
      case True
      with k show ?thesis by auto
    next
      case False
      with Cons.prems(1,3) have "bit b k" "scan_bits n b i ks = r"
        by (simp_all add: Let_def test_bit_and split: if_splits)
      with Cons.IH [OF Cons.prems(1) k(2)] show ?thesis by (metis k(1) le_neq_implies_less Suc_leI)
    qed
  qed simp
qed

text \<open>The scan finds a clear bit, and finds one whenever there is one below the number of slots.\<close>

lemma scan_bytes_Some:
  "scan_bytes n bs i = Some slot \<Longrightarrow>
     slot < n \<and> i \<le> slot div 8 \<and> slot div 8 - i < length bs \<and> \<not> bit (bs ! (slot div 8 - i)) (slot mod 8)"
proof (induction bs arbitrary: i)
  case (Cons b bs)
  show ?case
  proof (cases "b \<noteq> 0xFF \<and> scan_bits n b i [0..<8] \<noteq> None")
    case True
    with Cons.prems have "scan_bits n b i [0..<8] = Some (Some slot)" by auto
    from scan_bits_cases(1) [OF this refl] obtain k where "k < 8" "slot = i * 8 + k" "slot < n" "\<not> bit b k" by auto
    then show ?thesis by simp
  next
    case False
    with Cons.prems have "scan_bytes n bs (Suc i) = Some slot" by (auto split: if_splits)
    from Cons.IH [OF this] have "slot < n" "Suc i \<le> slot div 8" "slot div 8 - Suc i < length bs"
      "\<not> bit (bs ! (slot div 8 - Suc i)) (slot mod 8)" by simp_all
    moreover then have "slot div 8 - i = Suc (slot div 8 - Suc i)" by simp
    ultimately show ?thesis by simp
  qed
qed simp

lemma scan_bytes_None:
  "scan_bytes n bs i = None \<Longrightarrow> i \<le> s div 8 \<Longrightarrow> s div 8 - i < length bs \<Longrightarrow> s < n \<Longrightarrow>
     bit (bs ! (s div 8 - i)) (s mod 8)"
proof (induction bs arbitrary: i)
  case (Cons b bs)
  have s: "s = (s div 8) * 8 + s mod 8" "s mod 8 < 8" by simp_all
  show ?case
  proof (cases "s div 8 = i")
    case True
    have "bit b (s mod 8)"
    proof (cases "b = 0xFF")
      case False
      with Cons.prems(1) consider "scan_bits n b i [0..<8] = None" | "scan_bits n b i [0..<8] = Some None"
        by (auto split: if_splits option.splits)
      then show ?thesis
        using scan_bits_cases(2) [of n b i "[0..<8]"] scan_bits_cases(3) [of n b i "[0..<8]" "Some None" 0] s True Cons.prems(4)
        by cases auto
    qed (simp only: full_byte s(2))
    with True show ?thesis by simp
  next
    case False
    with Cons.prems(2) have i: "Suc i \<le> s div 8" "s div 8 - i = Suc (s div 8 - Suc i)" by simp_all
    have "scan_bytes n bs (Suc i) = None"
    proof (cases "b \<noteq> 0xFF \<and> scan_bits n b i [0..<8] \<noteq> None")
      case True
      with Cons.prems(1) have r: "scan_bits n b i [0..<8] = Some None" by auto
      then obtain k where "k < 8" "n \<le> i * 8 + k"
      proof -
        have "\<exists>k \<in> set ks. n \<le> i * 8 + k" if "scan_bits n b i ks = Some None" for ks
          using that by (induction ks) (auto simp: Let_def split: if_splits)
        from this [OF r] that show ?thesis by auto
      qed
      moreover have "i * 8 + 8 \<le> s" using i(1) by presburger
      ultimately show ?thesis using Cons.prems(4) by simp
    qed (use Cons.prems(1) in \<open>auto split: if_splits\<close>)
    from Cons.IH [OF this i(1)] Cons.prems(3,4) i(2) show ?thesis by simp
  qed
qed simp

lemma area_ok_byte: "area_ok a \<Longrightarrow> s < total_slots a \<Longrightarrow> s div 8 < length (slot_map a)"
  by (simp add: area_ok_def)

lemma finite_used [simp]: "finite {s. slot_used a s}"
  by (rule finite_subset [of _ "{..<total_slots a}"]) (auto simp: slot_used_def)

text \<open>Writing one bit changes one slot.\<close>

lemma slot_update:
  assumes "s div 8 < length bs" and b: "\<And>k. k < 8 \<Longrightarrow> bit (b :: u8) k \<longleftrightarrow> (if k = s mod 8 then v else bit (bs ! (s div 8)) k)"
  shows "bit (bs[s div 8 := b] ! (t div 8)) (t mod 8) \<longleftrightarrow> (if t = s then v else bit (bs ! (t div 8)) (t mod 8))"
proof (cases "t div 8 = s div 8")
  case True
  then have "t = s \<longleftrightarrow> t mod 8 = s mod 8" by (metis div_mult_mod_eq)
  with True assms show ?thesis by simp
qed (use assms(1) in auto)

lemma set_slot_used:
  assumes "area_ok a" "s < total_slots a"
  shows "slot_used (a\<lparr>slot_map := set_slot s (slot_map a), used_slots := u\<rparr>) t \<longleftrightarrow> t = s \<or> slot_used a t"
proof -
  have "bit (set_slot s (slot_map a) ! (t div 8)) (t mod 8) \<longleftrightarrow>
      (if t = s then True else bit (slot_map a ! (t div 8)) (t mod 8))"
    unfolding set_slot_def using area_ok_byte [OF assms]
    by (rule slot_update) (auto simp: bit_simps)
  with assms(2) show ?thesis by (auto simp: slot_used_def)
qed

lemma alloc_slot_Some:
  assumes "area_ok a" "alloc_slot a = (a', Some s)"
  shows "area_ok a'" "s < total_slots a" "\<not> slot_used a s" "slot_used a' t \<longleftrightarrow> t = s \<or> slot_used a t"
    "used_slots a' = Suc (used_slots a)" "total_slots a' = total_slots a" "area_active a' = area_active a"
proof -
  from assms(2) have sc: "scan_bytes (total_slots a) (slot_map a) 0 = Some s"
    and a': "a' = a\<lparr>slot_map := set_slot s (slot_map a), used_slots := Suc (used_slots a)\<rparr>"
    by (auto simp: alloc_slot_def split: option.splits)
  from scan_bytes_Some [OF sc] show s: "s < total_slots a" "\<not> slot_used a s" by (simp_all add: slot_used_def)
  show u: "slot_used a' t \<longleftrightarrow> t = s \<or> slot_used a t" for t
    unfolding a' by (rule set_slot_used [OF assms(1) s(1)])
  then have "{t. slot_used a' t} = insert s {t. slot_used a t}" by auto
  with s(2) assms(1) show "area_ok a'" by (simp add: area_ok_def) (simp add: a' set_slot_def)
qed (use assms(2) in \<open>auto simp: alloc_slot_def split: option.splits\<close>)

lemma alloc_slot_None:
  assumes "area_ok a" "alloc_slot a = (a', None)"
  shows "a' = a" "free_slots a = 0"
proof -
  from assms(2) show "a' = a" by (auto simp: alloc_slot_def split: option.splits)
  from assms(2) have "scan_bytes (total_slots a) (slot_map a) 0 = None" by (auto simp: alloc_slot_def split: option.splits)
  from scan_bytes_None [OF this] area_ok_byte [OF assms(1)]
  have "{s. slot_used a s} = {..<total_slots a}" by (auto simp: slot_used_def)
  with assms(1) show "free_slots a = 0" by (simp add: free_slots_def area_ok_def)
qed

lemma used_le_total: "area_ok a \<Longrightarrow> used_slots a \<le> total_slots a"
proof -
  have "card {s. slot_used a s} \<le> card {..<total_slots a}" by (rule card_mono) (auto simp: slot_used_def)
  then show "area_ok a \<Longrightarrow> used_slots a \<le> total_slots a" by (simp add: area_ok_def)
qed

text \<open>Freeing a slot in use never panics and clears exactly that slot.\<close>

lemma free_slot_used:
  assumes "area_ok a" "slot_used a s"
  obtains a' where "free_slot s a = Done a'" "area_ok a'" "\<forall>t. slot_used a' t \<longleftrightarrow> t \<noteq> s \<and> slot_used a t"
    "Suc (used_slots a') = used_slots a" "total_slots a' = total_slots a" "area_active a' = area_active a"
proof -
  let ?b = "slot_map a ! (s div 8) AND NOT (push_bit (s mod 8) 1)"
  let ?a = "a\<lparr>slot_map := (slot_map a)[s div 8 := ?b], used_slots := usub (used_slots a) 1\<rparr>"
  from assms(2) have s: "s < total_slots a" "bit (slot_map a ! (s div 8)) (s mod 8)" by (simp_all add: slot_used_def)
  note len = area_ok_byte [OF assms(1) s(1)]
  have "card {s. slot_used a s} > 0" using assms(2) by (auto simp: card_gt_0_iff)
  then have pos: "0 < used_slots a" using assms(1) by (simp add: area_ok_def)
  have "bit ((slot_map a)[s div 8 := ?b] ! (t div 8)) (t mod 8) \<longleftrightarrow>
      (if t = s then False else bit (slot_map a ! (t div 8)) (t mod 8))" for t
    using len by (rule slot_update) (auto simp: bit_simps)
  then have u: "slot_used ?a t \<longleftrightarrow> t \<noteq> s \<and> slot_used a t" for t by (auto simp: slot_used_def)
  then have "{t. slot_used ?a t} = {t. slot_used a t} - {s}" by auto
  then have card: "card {t. slot_used ?a t} = card {t. slot_used a t} - 1" using assms(2) by simp
  show ?thesis
  proof (rule that)
    show "free_slot s a = Done ?a" using s len by (simp add: free_slot_def test_bit_and Let_def)
    show "area_ok ?a" unfolding area_ok_def card using assms(1) pos by (simp add: area_ok_def)
  qed (use u pos in simp_all)
qed

section \<open>Entries\<close>

lemma bit_small: "n < 2 ^ m \<Longrightarrow> bit n k \<Longrightarrow> k < m" for n :: nat
  by (metis bit_take_bit_iff take_bit_nat_eq_self)

lemma bit_31: "bit (31 :: nat) k \<longleftrightarrow> k < 5"
proof -
  have "31 = (mask 5 :: nat)" by (simp add: mask_eq_exp_minus_1)
  moreover have "bit (mask 5 :: nat) k \<longleftrightarrow> k < 5" by (auto simp: bit_mask_iff)
  ultimately show "bit (31 :: nat) k \<longleftrightarrow> k < 5" by metis
qed

lemma entry_roundtrip:
  assumes "a < 32" "s < 2 ^ 57"
  shows "entry_area_id (SwapEntry_new a s) = a" "entry_slot (SwapEntry_new a s) = s" "is_swap_entry (SwapEntry_new a s)"
proof -
  have ba: "bit a k \<Longrightarrow> k < 5" and bs: "bit s k \<Longrightarrow> k < 57" for k
    using bit_small [of a 5 k] bit_small [of s 57 k] assms by simp_all
  have bits: "bit (SwapEntry_new a s) n \<longleftrightarrow> n = 1 \<or> (2 \<le> n \<and> bit a (n - 2)) \<or> (7 \<le> n \<and> bit s (n - 7))" for n
    using ba [of "n - 2"] bs [of "n - 7"]
    by (auto simp: SwapEntry_new_def bit_simps bit_31)
  have "drop_bit 2 (SwapEntry_new a s) AND 0x1F = take_bit 5 (drop_bit 2 (SwapEntry_new a s))"
    by (simp add: take_bit_eq_mask mask_eq_exp_minus_1)
  also have "\<dots> = of_nat a"
    by (rule bit_word_eqI) (auto simp: bits bit_simps dest: ba)
  finally have "drop_bit 2 (SwapEntry_new a s) AND 0x1F = of_nat a" .
  then show "entry_area_id (SwapEntry_new a s) = a" using assms(1) by (simp add: entry_area_id_def unat_of_nat_small)
  have "drop_bit 7 (SwapEntry_new a s) = of_nat s"
    by (rule bit_word_eqI) (auto simp: bits bit_simps dest: ba)
  then show "entry_slot (SwapEntry_new a s) = s" using assms(2) by (simp add: entry_slot_def unat_of_nat_small)
  show "is_swap_entry (SwapEntry_new a s)"
    using bits [of 0] bits [of 1] bit_iff_and_push_bit_not_eq_0 [of "SwapEntry_new a s" 0]
      bit_iff_and_push_bit_not_eq_0 [of "SwapEntry_new a s" 1]
    by (simp add: is_swap_entry_def)
qed

section \<open>The manager as a store of pages\<close>

definition usable :: "SwapArea \<Rightarrow> bool" where
  "usable a \<longleftrightarrow> area_active a \<and> free_slots a \<noteq> 0"

lemma best_area_spec:
  "best_area best i as = r \<Longrightarrow>
     (r = best \<or> (\<exists>j < length as. usable (as ! j) \<and> r = Some (i + j, swap_priority (as ! j))))
     \<and> (\<forall>a \<in> set as. usable a \<longrightarrow> (\<exists>n p. r = Some (n, p) \<and> swap_priority a \<le> p))
     \<and> (\<forall>b bp. best = Some (b, bp) \<longrightarrow> (\<exists>n p. r = Some (n, p) \<and> bp \<le> p))"
proof (induction as arbitrary: best i)
  case (Cons a as)
  have shift: "\<exists>j < length (a # as). usable ((a # as) ! j) \<and> r = Some (i + j, swap_priority ((a # as) ! j))"
    if "\<exists>j < length as. usable (as ! j) \<and> r = Some (Suc i + j, swap_priority (as ! j))"
    using that by (metis Suc_less_eq add_Suc add_Suc_right length_Cons nth_Cons_Suc)
  have "(\<not> usable a \<or> (\<exists>b bp. best = Some (b, bp) \<and> swap_priority a \<le> bp)) \<and> best_area best (Suc i) as = r
      \<or> usable a \<and> (\<forall>b bp. best = Some (b, bp) \<longrightarrow> bp < swap_priority a)
        \<and> best_area (Some (i, swap_priority a)) (Suc i) as = r"
    using Cons.prems by (auto simp: usable_def split: if_splits option.splits)
  then show ?case
  proof
    assume a: "(\<not> usable a \<or> (\<exists>b bp. best = Some (b, bp) \<and> swap_priority a \<le> bp)) \<and> best_area best (Suc i) as = r"
    with Cons.IH [of best "Suc i"] have IH: "(r = best \<or> (\<exists>j < length as. usable (as ! j) \<and> r = Some (Suc i + j, swap_priority (as ! j))))"
      "\<forall>a \<in> set as. usable a \<longrightarrow> (\<exists>n p. r = Some (n, p) \<and> swap_priority a \<le> p)"
      "\<forall>b bp. best = Some (b, bp) \<longrightarrow> (\<exists>n p. r = Some (n, p) \<and> bp \<le> p)" by blast+
    have "usable a \<longrightarrow> (\<exists>n p. r = Some (n, p) \<and> swap_priority a \<le> p)" using a IH(3) by fastforce
    with IH shift show ?case by auto
  next
    assume a: "usable a \<and> (\<forall>b bp. best = Some (b, bp) \<longrightarrow> bp < swap_priority a)
        \<and> best_area (Some (i, swap_priority a)) (Suc i) as = r"
    with Cons.IH [of "Some (i, swap_priority a)" "Suc i"]
    have IH: "(r = Some (i, swap_priority a) \<or> (\<exists>j < length as. usable (as ! j) \<and> r = Some (Suc i + j, swap_priority (as ! j))))"
      "\<forall>a \<in> set as. usable a \<longrightarrow> (\<exists>n p. r = Some (n, p) \<and> swap_priority a \<le> p)"
      "\<exists>n p. r = Some (n, p) \<and> swap_priority a \<le> p" by blast+
    have "\<exists>j < length (a # as). usable ((a # as) ! j) \<and> r = Some (i + j, swap_priority ((a # as) ! j))"
      using IH(1) a shift by (metis add_0_right length_greater_0_conv list.distinct(1) nth_Cons_0)
    with IH(2,3) a show ?case by fastforce
  qed
qed simp

abbreviation slot_of :: "u64 \<Rightarrow> nat \<times> nat" where
  "slot_of e \<equiv> (entry_area_id e, entry_slot e)"

text \<open>Each page swapped out has a slot of its own, in use and with data.\<close>

definition entries_ok :: "SwapArea list \<Rightarrow> (nat \<times> nat, u8 list) btree \<Rightarrow> (u32 \<times> u64, u64) btree \<Rightarrow> bool" where
  "entries_ok as data pages \<longleftrightarrow>
     (\<forall>k e. bt_get pages k = Some e \<longrightarrow> entry_area_id e < length as \<and> slot_used (as ! entry_area_id e) (entry_slot e)
        \<and> bt_get data (slot_of e) \<noteq> None)
     \<and> (\<forall>k k' e e'. bt_get pages k = Some e \<longrightarrow> bt_get pages k' = Some e' \<longrightarrow> slot_of e = slot_of e' \<longrightarrow> k = k')"

definition swap_inv :: "SwapManager \<Rightarrow> bool" where
  "swap_inv s \<longleftrightarrow> length (areas s) \<le> 32 \<and> (\<forall>a \<in> set (areas s). area_ok a \<and> (\<not> area_active a \<longrightarrow> used_slots a = 0))
     \<and> used_swap_pages s = sum_list (map used_slots (areas s))
     \<and> total_swap_pages s = sum_list (map total_slots (filter area_active (areas s)))
     \<and> entries_ok (areas s) (slot_data s) (swapped_pages s)"

definition swap_view :: "SwapManager \<Rightarrow> u32 \<times> u64 \<Rightarrow> u8 list option" where
  "swap_view s k = Option.bind (bt_get (swapped_pages s) k) (\<lambda>e. bt_get (slot_data s) (slot_of e))"

lemma entries_okD:
  assumes "entries_ok as data pages" "bt_get pages k = Some e"
  shows "entry_area_id e < length as" "slot_used (as ! entry_area_id e) (entry_slot e)" "bt_get data (slot_of e) \<noteq> None"
    "bt_get pages k' = Some e' \<Longrightarrow> slot_of e = slot_of e' \<Longrightarrow> k' = k"
  using assms unfolding entries_ok_def by metis+

lemma entries_ok_mono:
  assumes E: "entries_ok as data pages" and "length as \<le> length as'"
    and "\<And>i t. i < length as \<Longrightarrow> slot_used (as ! i) t \<Longrightarrow> slot_used (as' ! i) t"
  shows "entries_ok as' data pages"
  unfolding entries_ok_def
proof (intro conjI allI impI)
  fix k e assume e: "bt_get pages k = Some e"
  from entries_okD(1-3) [OF E e] assms(2,3)
  show "entry_area_id e < length as'" "slot_used (as' ! entry_area_id e) (entry_slot e)" "bt_get data (slot_of e) \<noteq> None"
    by simp_all
  fix k' e' assume "bt_get pages k' = Some e'" "slot_of e = slot_of e'"
  then show "k = k'" by (rule entries_okD(4) [OF E e, symmetric])
qed

lemma entries_ok_insert:
  assumes E: "entries_ok as data pages" and fresh: "\<And>k e'. bt_get pages k = Some e' \<Longrightarrow> slot_of e' \<noteq> slot_of e"
    and e: "entry_area_id e < length as'" "slot_used (as' ! entry_area_id e) (entry_slot e)"
    and as': "length as' = length as" "\<And>i t. i < length as \<Longrightarrow> slot_used (as ! i) t \<Longrightarrow> slot_used (as' ! i) t"
  shows "entries_ok as' (bt_insert (slot_of e) d data) (bt_insert k e pages)"
  unfolding entries_ok_def
proof (intro conjI allI impI)
  fix k' e' assume k': "bt_get (bt_insert k e pages) k' = Some e'"
  then consider "e' = e" | "bt_get pages k' = Some e'" by (cases "k' = k") simp_all
  then have "entry_area_id e' < length as' \<and> slot_used (as' ! entry_area_id e') (entry_slot e')
    \<and> bt_get (bt_insert (slot_of e) d data) (slot_of e') \<noteq> None"
  proof cases
    case 2
    with as' entries_okD(1-3) [OF E 2] show ?thesis by simp
  qed (use e in simp)
  then show "entry_area_id e' < length as'" "slot_used (as' ! entry_area_id e') (entry_slot e')"
    "bt_get (bt_insert (slot_of e) d data) (slot_of e') \<noteq> None" by blast+
  fix k'' e'' assume k'': "bt_get (bt_insert k e pages) k'' = Some e''" "slot_of e' = slot_of e''"
  show "k' = k''"
  proof (cases "k' = k")
    case True
    then have "e' = e" using k' by simp
    with k'' fresh [of k'' e''] True show ?thesis by (cases "k'' = k") simp_all
  next
    case False
    then have k1: "bt_get pages k' = Some e'" using k' by simp
    show ?thesis
    proof (cases "k'' = k")
      case True
      with k'' fresh [OF k1] show ?thesis by simp
    next
      case False
      with k'' entries_okD(4) [OF E k1, of k'' e''] show ?thesis by simp
    qed
  qed
qed

lemma entries_ok_remove:
  assumes E: "entries_ok as data pages" and e: "bt_get pages k = Some e"
    and as': "length as' = length as"
      "\<And>i t. i < length as \<Longrightarrow> (i, t) \<noteq> slot_of e \<Longrightarrow> slot_used (as ! i) t \<Longrightarrow> slot_used (as' ! i) t"
  shows "entries_ok as' (bt_remove (slot_of e) data) (bt_remove k pages)"
  unfolding entries_ok_def
proof (intro conjI allI impI)
  fix k' e' assume "bt_get (bt_remove k pages) k' = Some e'"
  then have k': "k' \<noteq> k" "bt_get pages k' = Some e'" by (simp_all split: if_splits)
  have ne: "slot_of e' \<noteq> slot_of e" using entries_okD(4) [OF E e k'(2)] k'(1) by metis
  with as'(1) as'(2) [OF entries_okD(1) [OF E k'(2)] ne] entries_okD(1-3) [OF E k'(2)]
  show "entry_area_id e' < length as'" "slot_used (as' ! entry_area_id e') (entry_slot e')"
    "bt_get (bt_remove (slot_of e) data) (slot_of e') \<noteq> None" by simp_all
  fix k'' e'' assume "bt_get (bt_remove k pages) k'' = Some e''" "slot_of e' = slot_of e''"
  with entries_okD(4) [OF E k'(2), of k'' e''] show "k' = k''" by (simp split: if_splits)
qed

lemma sum_list_update_nat:
  "i < length xs \<Longrightarrow> f x = Suc (f (xs ! i)) \<Longrightarrow> sum_list (map f (xs[i := x])) = Suc (sum_list (map f xs))"
  for f :: "'a \<Rightarrow> nat"
  by (induction xs arbitrary: i) (auto split: nat.splits)

lemma update_same_actives:
  "i < length as \<Longrightarrow> total_slots a = total_slots (as ! i) \<Longrightarrow> area_active a = area_active (as ! i) \<Longrightarrow>
     map total_slots (filter area_active (as[i := a])) = map total_slots (filter area_active as)"
  by (induction as arbitrary: i) (auto split: nat.splits)

text \<open>A slot is handed out exactly when an active area has one left.\<close>

lemma used_is_total:
  assumes "\<forall>a \<in> set as. area_ok a \<and> (\<not> area_active a \<longrightarrow> used_slots a = 0)"
  shows "sum_list (map used_slots as) \<le> sum_list (map total_slots (filter area_active as))
    \<and> (sum_list (map used_slots as) = sum_list (map total_slots (filter area_active as)) \<longleftrightarrow> (\<forall>a \<in> set as. \<not> usable a))"
  using assms
proof (induction as)
  case (Cons a as)
  then have "used_slots a \<le> total_slots a" using used_le_total by simp
  with Cons show ?case by (auto simp: usable_def free_slots_def)
qed simp

lemma alloc_swap_slot_None:
  assumes "swap_inv s" "alloc_swap_slot s = (s', None)"
  shows "s' = s" "used_swap_pages s = total_swap_pages s"
proof -
  note B = best_area_spec [OF refl, of None 0 "areas s"]
  have none: "best_area None 0 (areas s) = None"
  proof (rule ccontr)
    assume "best_area None 0 (areas s) \<noteq> None"
    with B obtain i where i: "i < length (areas s)" "usable (areas s ! i)"
      "best_area None 0 (areas s) = Some (i, swap_priority (areas s ! i))" by auto
    then have "area_ok (areas s ! i)" using assms(1) by (simp add: swap_inv_def)
    moreover obtain a where "alloc_slot (areas s ! i) = (a, None)"
      using assms(2) i(3) by (auto simp: alloc_swap_slot_def split: prod.splits option.splits)
    ultimately show False using alloc_slot_None i(2) by (metis usable_def)
  qed
  with assms(2) show "s' = s" by (simp add: alloc_swap_slot_def)
  from B none have "\<forall>a \<in> set (areas s). \<not> usable a" by auto
  then show "used_swap_pages s = total_swap_pages s"
    using used_is_total [of "areas s"] assms(1) by (simp add: swap_inv_def)
qed

lemma alloc_swap_slot_Some:
  assumes inv: "swap_inv s" and al: "alloc_swap_slot s = (s', Some e)"
  obtains i slot a where "e = SwapEntry_new i slot" "slot_of e = (i, slot)" "i < length (areas s)" "usable (areas s ! i)"
    "alloc_slot (areas s ! i) = (a, Some slot)" "\<forall>b \<in> set (areas s). usable b \<longrightarrow> swap_priority b \<le> swap_priority (areas s ! i)"
    "s' = s\<lparr>areas := (areas s)[i := a], used_swap_pages := used_swap_pages s + 1\<rparr>"
proof -
  note B = best_area_spec [OF refl, of None 0 "areas s"]
  have some: "best_area None 0 (areas s) \<noteq> None" using al by (auto simp: alloc_swap_slot_def split: option.splits)
  with B obtain i where i: "i < length (areas s)" "usable (areas s ! i)"
    "best_area None 0 (areas s) = Some (i, swap_priority (areas s ! i))" by auto
  with al obtain a slot where a: "alloc_slot (areas s ! i) = (a, Some slot)" "e = SwapEntry_new i slot"
    "s' = s\<lparr>areas := (areas s)[i := a], used_swap_pages := used_swap_pages s + 1\<rparr>"
    by (auto simp: alloc_swap_slot_def split: prod.splits option.splits)
  have ok: "area_ok (areas s ! i)" "i < 32" using i(1) inv by (auto simp: swap_inv_def)
  then have "slot < 2 ^ 57" using alloc_slot_Some(2) [OF ok(1) a(1)] by (simp add: area_ok_def)
  with entry_roundtrip [OF ok(2) this] a(2) have "slot_of e = (i, slot)" by simp
  moreover have "\<forall>b \<in> set (areas s). usable b \<longrightarrow> swap_priority b \<le> swap_priority (areas s ! i)" using B i(3) by auto
  ultimately show ?thesis using that a i by blast
qed

lemma page_out_Some:
  assumes inv: "swap_inv s" and po: "page_out pid v data s = (s', Some e)"
  shows "swap_inv s'" "swap_view s' = (swap_view s)((pid, v) \<mapsto> page_bytes data)"
proof -
  from po obtain s1 where al: "alloc_swap_slot s = (s1, Some e)"
    and s': "s' = s1\<lparr>slot_data := bt_insert (slot_of e) (page_bytes data) (slot_data s1),
             swapped_pages := bt_insert (pid, v) e (swapped_pages s1), pages_swapped_out := pages_swapped_out s1 + 1\<rparr>"
    by (auto simp: page_out_def split: prod.splits option.splits)
  obtain i slot a where A: "slot_of e = (i, slot)" "i < length (areas s)" "usable (areas s ! i)"
    "alloc_slot (areas s ! i) = (a, Some slot)" "s1 = s\<lparr>areas := (areas s)[i := a], used_swap_pages := used_swap_pages s + 1\<rparr>"
    by (rule alloc_swap_slot_Some [OF inv al])
  have ok: "area_ok (areas s ! i)" using A(2) inv by (simp add: swap_inv_def)
  note S = alloc_slot_Some [OF ok A(4)]
  have E: "entries_ok (areas s) (slot_data s) (swapped_pages s)" using inv by (simp add: swap_inv_def)
  have eq: "entry_area_id e = i" "entry_slot e = slot" using A(1) by simp_all
  have fresh: "slot_of e' \<noteq> slot_of e" if "bt_get (swapped_pages s) k = Some e'" for k e'
    using entries_okD(2) [OF E that] S(3) by (auto simp: eq)
  have "entries_ok ((areas s)[i := a]) (bt_insert (slot_of e) (page_bytes data) (slot_data s))
      (bt_insert (pid, v) e (swapped_pages s))"
    by (rule entries_ok_insert [OF E fresh]) (use A(2) S(4) in \<open>simp_all add: eq nth_list_update\<close>)
  moreover have "\<forall>b \<in> set ((areas s)[i := a]). area_ok b \<and> (\<not> area_active b \<longrightarrow> used_slots b = 0)"
  proof
    fix b assume "b \<in> set ((areas s)[i := a])"
    then have "b = a \<or> b \<in> set (areas s)" using set_update_subset_insert by fastforce
    with inv S(1,7) A(3) show "area_ok b \<and> (\<not> area_active b \<longrightarrow> used_slots b = 0)"
      by (auto simp: swap_inv_def usable_def)
  qed
  ultimately show "swap_inv s'"
    using inv A(2) S(5,6,7) by (simp add: swap_inv_def s' A(5) sum_list_update_nat update_same_actives)
  show "swap_view s' = (swap_view s)((pid, v) \<mapsto> page_bytes data)"
  proof
    fix k
    show "swap_view s' k = ((swap_view s)((pid, v) \<mapsto> page_bytes data)) k"
    proof (cases "bt_get (swapped_pages s) k")
      case (Some e')
      with fresh [OF Some] show ?thesis by (auto simp: swap_view_def s' A(5))
    qed (simp add: swap_view_def s' A(5))
  qed
qed

lemma page_in_Done:
  assumes inv: "swap_inv s"
  obtains s' where "page_in pid v s = Done (s', swap_view s (pid, v))" "swap_inv s'"
    "swap_view s' = (swap_view s)((pid, v) := None)"
proof (cases "bt_get (swapped_pages s) (pid, v)")
  case None
  then have "swap_view s (pid, v) = None" "page_in pid v s = Done (s, None)"
    by (simp_all add: page_in_def swap_view_def)
  with that [OF _ inv] show ?thesis by (simp add: fun_upd_idem)
next
  case (Some e)
  have E: "entries_ok (areas s) (slot_data s) (swapped_pages s)" using inv by (simp add: swap_inv_def)
  note D = entries_okD [OF E Some]
  let ?i = "entry_area_id e"
  have ok: "area_ok (areas s ! ?i)" using D(1) inv by (simp add: swap_inv_def)
  obtain a where F: "free_slot (entry_slot e) (areas s ! ?i) = Done a" "area_ok a"
    "\<forall>t. slot_used a t \<longleftrightarrow> t \<noteq> entry_slot e \<and> slot_used (areas s ! ?i) t"
    "Suc (used_slots a) = used_slots (areas s ! ?i)" "total_slots a = total_slots (areas s ! ?i)"
    "area_active a = area_active (areas s ! ?i)"
    by (rule free_slot_used [OF ok D(2)])
  let ?s = "s\<lparr>swapped_pages := bt_remove (pid, v) (swapped_pages s), slot_data := bt_remove (slot_of e) (slot_data s),
     areas := (areas s)[?i := a], used_swap_pages := usub (used_swap_pages s) 1, pages_swapped_in := pages_swapped_in s + 1\<rparr>"
  have sum: "sum_list (map used_slots (areas s)) = Suc (sum_list (map used_slots ((areas s)[?i := a])))"
    using sum_list_update_nat [of ?i "(areas s)[?i := a]" used_slots "areas s ! ?i"] D(1) F(4) by simp
  have result: "page_in pid v s = Done (?s, swap_view s (pid, v))"
    using Some D(1,3) F(1) by (auto simp: page_in_def free_swap_slot_def swap_view_def Let_def)
  have others: "slot_of e' \<noteq> slot_of e" if "bt_get (swapped_pages s) k = Some e'" "k \<noteq> (pid, v)" for k e'
    using D(4) [OF that(1)] that(2) by metis
  have entries: "entries_ok ((areas s)[?i := a]) (bt_remove (slot_of e) (slot_data s)) (bt_remove (pid, v) (swapped_pages s))"
  proof (rule entries_ok_remove [OF E Some])
    fix j t assume "j < length (areas s)" "(j, t) \<noteq> slot_of e" "slot_used (areas s ! j) t"
    with F(3) show "slot_used ((areas s)[?i := a] ! j) t" by (cases "j = ?i") simp_all
  qed simp
  have areas: "\<forall>b \<in> set ((areas s)[?i := a]). area_ok b \<and> (\<not> area_active b \<longrightarrow> used_slots b = 0)"
  proof
    fix b assume "b \<in> set ((areas s)[?i := a])"
    then have "b = a \<or> b \<in> set (areas s)" using set_update_subset_insert by fastforce
    moreover have "area_active a \<or> used_slots (areas s ! ?i) = 0" using F(6) inv D(1) by (auto simp: swap_inv_def)
    then have "\<not> area_active a \<longrightarrow> used_slots a = 0" using F(4) by simp
    ultimately show "area_ok b \<and> (\<not> area_active b \<longrightarrow> used_slots b = 0)" using inv F(2) by (auto simp: swap_inv_def)
  qed
  have inv': "swap_inv ?s"
    using inv D(1) F(5,6) sum entries areas by (simp add: swap_inv_def update_same_actives)
  have "swap_view ?s = (swap_view s)((pid, v) := None)"
  proof
    fix k
    show "swap_view ?s k = ((swap_view s)((pid, v) := None)) k"
    proof (cases "bt_get (swapped_pages s) k")
      case (Some e')
      with others [OF Some] show ?thesis by (cases "k = (pid, v)") (simp_all add: swap_view_def del: prod.inject)
    qed (simp add: swap_view_def)
  qed
  from that [OF result inv' this] show ?thesis .
qed

lemma swapon_ok:
  assumes inv: "swap_inv s" and sz: "size_bytes < 2 ^ 64" and on: "swapon path kind size_bytes prio s = (s', r)"
  shows "swap_inv s'" "swap_view s' = swap_view s"
proof -
  let ?n = "size_bytes div 4096"
  let ?a = "(SwapArea_new (length (areas s)) path kind ?n prio)\<lparr>area_active := True\<rparr>"
  have "bit (replicate m (0 :: u8) ! i) j = False" if "i < m" for m i j using that by simp
  then have none: "\<not> slot_used ?a t" for t
    by (auto simp: slot_used_def SwapArea_new_def)
  have ok: "area_ok ?a" "used_slots ?a = 0" "total_slots ?a = ?n" "area_active ?a"
    using sz none by (simp_all add: area_ok_def) (simp_all add: SwapArea_new_def)
  have step: "s' = s \<or> s' = s\<lparr>total_swap_pages := total_swap_pages s + ?n, areas := areas s @ [?a]\<rparr> \<and> length (areas s) < 32"
    using on by (auto simp: swapon_def Let_def split: if_splits)
  have "entries_ok (areas s) (slot_data s) (swapped_pages s)" using inv by (simp add: swap_inv_def)
  then have "entries_ok (areas s @ [?a]) (slot_data s) (swapped_pages s)"
    by (rule entries_ok_mono) (simp_all add: nth_append)
  with step inv ok show "swap_inv s'" by (auto simp: swap_inv_def)
  from step show "swap_view s' = swap_view s" by (auto simp: swap_view_def fun_eq_iff)
qed

lemma swapoff_ok:
  assumes inv: "swap_inv s" and off: "swapoff path s = (s', r)"
  shows "swap_inv s'" "swap_view s' = swap_view s"
proof -
  have "swap_inv s' \<and> swap_view s' = swap_view s"
  proof (cases "s' = s")
    case False
    with off obtain i where i: "position (\<lambda>a. swap_path a = path \<and> area_active a) (areas s) = Some i"
      "used_slots (areas s ! i) = 0"
      "s' = s\<lparr>areas := (areas s)[i := (areas s ! i)\<lparr>area_active := False\<rparr>],
              total_swap_pages := usub (total_swap_pages s) (total_slots (areas s ! i))\<rparr>"
      by (auto simp: swapoff_def Let_def split: option.splits if_splits)
    from position_SomeD [OF i(1)] have li: "i < length (areas s)" "area_active (areas s ! i)" by simp_all
    let ?a = "(areas s ! i)\<lparr>area_active := False\<rparr>"
    have same: "slot_used ?a = slot_used (areas s ! i)" "used_slots ?a = used_slots (areas s ! i)"
      by (simp_all add: slot_used_def fun_eq_iff)
    have "area_ok (areas s ! i)" using inv li by (simp add: swap_inv_def)
    then have ok: "area_ok ?a" by (simp add: area_ok_def same)
    have areas: "\<forall>b \<in> set ((areas s)[i := ?a]). area_ok b \<and> (\<not> area_active b \<longrightarrow> used_slots b = 0)"
    proof
      fix b assume "b \<in> set ((areas s)[i := ?a])"
      then have "b = ?a \<or> b \<in> set (areas s)" using set_update_subset_insert by fastforce
      with ok i(2) inv show "area_ok b \<and> (\<not> area_active b \<longrightarrow> used_slots b = 0)" by (auto simp: swap_inv_def)
    qed
    have "entries_ok (areas s) (slot_data s) (swapped_pages s)" using inv by (simp add: swap_inv_def)
    then have entries: "entries_ok ((areas s)[i := ?a]) (slot_data s) (swapped_pages s)"
    proof (rule entries_ok_mono)
      fix j t assume "j < length (areas s)" "slot_used (areas s ! j) t"
      then show "slot_used ((areas s)[i := ?a] ! j) t" by (cases "j = i") (simp_all add: same)
    qed simp
    have used: "map used_slots ((areas s)[i := ?a]) = map used_slots (areas s)"
      using li by (simp add: map_update same list_update_same_conv)
    have total: "sum_list (map total_slots (filter area_active as))
        = total_slots (as ! j) + sum_list (map total_slots (filter area_active (as[j := (as ! j)\<lparr>area_active := False\<rparr>])))"
      if "j < length as" "area_active (as ! j)" for j as
      using that by (induction as arbitrary: j) (auto split: nat.splits)
    show ?thesis
      using inv areas entries used total [OF li] by (simp add: swap_inv_def i(3) swap_view_def fun_eq_iff)
  qed (use inv in simp)
  then show "swap_inv s'" "swap_view s' = swap_view s" by simp_all
qed

lemma lru_only: "swap_inv (s\<lparr>lru_pages := l\<rparr>) \<longleftrightarrow> swap_inv s" "swap_view (s\<lparr>lru_pages := l\<rparr>) = swap_view s"
  by (simp_all add: swap_inv_def swap_view_def fun_eq_iff)

section \<open>Every run of the swap manager\<close>

datatype swap_op = PageOut u32 u64 "u8 list" | PageIn u32 u64 | SwapOn string SwapType nat i32 | SwapOff string
  | TrackAnon u32 u64 u64 | SelectVictim | PinRange u32 u64 u64 bool

datatype swap_out = Stored | Refused | Fetched "u8 list option" | Quiet | Crashed

fun swap_step :: "swap_op \<Rightarrow> SwapManager \<Rightarrow> SwapManager \<times> swap_out" where
  "swap_step (PageOut pid v data) s = (case page_out pid v data s of (s', r) \<Rightarrow> (s', if r = None then Refused else Stored))"
| "swap_step (PageIn pid v) s = (case page_in pid v s of Panic \<Rightarrow> (s, Crashed) | Done (s', r) \<Rightarrow> (s', Fetched r))"
| "swap_step (SwapOn path kind n prio) s = (fst (swapon path kind n prio s), Quiet)"
| "swap_step (SwapOff path) s = (fst (swapoff path s), Quiet)"
| "swap_step (TrackAnon pid v phys) s = (track_anon_page pid v phys s, Quiet)"
| "swap_step SelectVictim s = (fst (select_victim s), Quiet)"
| "swap_step (PinRange pid start len pin) s = (set_range_pinned pid start len pin s, Quiet)"

fun swap_op_ok :: "swap_op \<Rightarrow> bool" where
  "swap_op_ok (SwapOn path kind n prio) \<longleftrightarrow> n < 2 ^ 64"
| "swap_op_ok _ \<longleftrightarrow> True"

text \<open>The specification: a map from pages to their contents.\<close>

fun swap_spec :: "swap_op \<Rightarrow> swap_out \<Rightarrow> (u32 \<times> u64 \<Rightarrow> u8 list option) \<Rightarrow> (u32 \<times> u64 \<Rightarrow> u8 list option) option" where
  "swap_spec (PageOut pid v data) Stored m = Some (m((pid, v) \<mapsto> page_bytes data))"
| "swap_spec (PageOut pid v data) Refused m = Some m"
| "swap_spec (PageIn pid v) (Fetched r) m = (if r = m (pid, v) then Some (m((pid, v) := None)) else None)"
| "swap_spec (PageOut _ _ _) _ m = None"
| "swap_spec (PageIn _ _) _ m = None"
| "swap_spec _ Quiet m = Some m"
| "swap_spec _ _ m = None"

lemma page_out_None:
  assumes "swap_inv s" "page_out pid v data s = (s', None)"
  shows "s' = s" "used_swap_pages s = total_swap_pages s"
proof -
  from assms(2) have "alloc_swap_slot s = (s', None)" by (auto simp: page_out_def split: prod.splits option.splits)
  from alloc_swap_slot_None [OF assms(1) this] show "s' = s" "used_swap_pages s = total_swap_pages s" .
qed

interpretation sw: simulation swap_step swap_spec swap_view swap_inv swap_op_ok
proof unfold_locales
  fix s op s' out assume inv: "swap_inv s" and ok: "swap_op_ok op" and st: "swap_step op s = (s', out)"
  show "swap_inv s' \<and> swap_spec op out (swap_view s) = Some (swap_view s')"
  proof (cases op)
    case (PageOut pid v data)
    obtain r where r: "page_out pid v data s = (s', r)" using st PageOut by (auto split: prod.splits)
    show ?thesis
    proof (cases r)
      case None
      with r have "s' = s" using page_out_None(1) [OF inv] by simp
      with None r st PageOut inv show ?thesis by simp
    next
      case (Some e)
      with page_out_Some [OF inv] r st PageOut show ?thesis by simp
    qed
  next
    case (PageIn pid v)
    obtain s1 where "page_in pid v s = Done (s1, swap_view s (pid, v))" "swap_inv s1"
      "swap_view s1 = (swap_view s)((pid, v) := None)" by (rule page_in_Done [OF inv])
    with st PageIn show ?thesis by auto
  next
    case (SwapOn path kind n prio)
    with ok st swapon_ok [OF inv] show ?thesis by (cases "swapon path kind n prio s") auto
  next
    case (SwapOff path)
    with st swapoff_ok [OF inv] show ?thesis by (cases "swapoff path s") auto
  next
    case SelectVictim
    with st inv show ?thesis
      by (auto simp: select_victim_def lru_only split: if_splits prod.splits)
  qed (use st inv in \<open>auto simp: track_anon_page_def track_page_def set_range_pinned_def Let_def lru_only\<close>)
qed

text \<open>
  C7: Swap stores pages. For every sequence of operations on the manager (areas switched on and
  off, pages tracked, chosen and pinned, pages written to and fetched from swap), a fetch returns
  exactly the bytes of the last successful write of that page of that process, padded to a page,
  and nothing if it has been fetched since; no operation panics; a write is refused only when
  every slot of the active areas is in use; and the usage counters equal the set bits of the slot bitmaps.
\<close>

theorem swap_refines_store:
  assumes "\<forall>op \<in> set ops. swap_op_ok op" and "run swap_step ops SwapManager_new = (s, outs)"
  shows "spec_run swap_spec ops outs Map.empty = Some (swap_view s)
    \<and> (snd (page_out pid v data s) = None \<longrightarrow> used_swap_pages s = total_swap_pages s)
    \<and> used_swap_pages s = (\<Sum>a \<leftarrow> areas s. card {t. slot_used a t})"
proof -
  have init: "swap_inv SwapManager_new" "swap_view SwapManager_new = Map.empty"
    by (simp_all add: swap_inv_def SwapManager_new_def entries_ok_def swap_view_def fun_eq_iff)
  have sim: "swap_inv s" "spec_run swap_spec ops outs Map.empty = Some (swap_view s)"
    using sw.run_simulates [OF init(1) _ assms(2)] assms(1) by (simp_all add: list_all_iff init(2))
  have "map used_slots (areas s) = map (\<lambda>a. card {t. slot_used a t}) (areas s)"
    by (rule map_cong) (use sim(1) in \<open>auto simp: swap_inv_def area_ok_def\<close>)
  then have "sum_list (map used_slots (areas s)) = (\<Sum>a \<leftarrow> areas s. card {t. slot_used a t})" by (rule arg_cong)
  then have "used_swap_pages s = (\<Sum>a \<leftarrow> areas s. card {t. slot_used a t})"
    using sim(1) by (simp add: swap_inv_def)
  with sim(2) page_out_None(2) [OF sim(1)] show ?thesis by (auto simp: prod_eq_iff)
qed

definition swap_demo :: "swap_op list" where
  "swap_demo = [SwapOn ''/dev/ram-swap'' File 32768 0, PageOut 7 0x400000 [1, 2, 3], PageIn 7 0x400000]"

lemma swap_demo_stores: "snd (page_out 7 0x400000 [1, 2, 3] (fst (swapon ''/dev/ram-swap'' File 32768 0 SwapManager_new))) \<noteq> None"
  by (simp add: page_out_def swapon_def SwapManager_new_def SwapArea_new_def alloc_swap_slot_def free_slots_def usub_def
      alloc_slot_def upt_rec)

theorem swap_refines_store_witness:
  "snd (run swap_step swap_demo SwapManager_new) = [Quiet, Stored, Fetched (Some (page_bytes [1, 2, 3]))]"
proof -
  obtain s outs where r: "run swap_step swap_demo SwapManager_new = (s, outs)" by fastforce
  have "\<forall>op \<in> set swap_demo. swap_op_ok op" by (simp add: swap_demo_def)
  from swap_refines_store [OF this r] have sp: "spec_run swap_spec swap_demo outs Map.empty = Some (swap_view s)" by simp
  from r swap_demo_stores obtain r3 where "outs = [Quiet, Stored, r3]"
    by (auto simp: swap_demo_def split: prod.splits if_splits)
  moreover from this r sp have "r3 = Fetched (Some (page_bytes [1, 2, 3]))"
    by (cases r3) (auto simp: swap_demo_def split: if_splits)
  ultimately show ?thesis using r by simp
qed

end
