(* ===== verification/Address_Space.thy ===== *)
theory Address_Space
  imports User_Memory Swap "HOL-Library.While_Combinator"
begin

text \<open>
  \<open>src/kernel/src/mm/vmm/space.rs\<close>: the address space of a process, its virtual memory areas
  (VMAs) and the frames behind them, and the policy against writable and executable mappings of
  \<open>security/hardening.rs\<close>. The methods take and return the machine (memory, frame pool, swap) and
  the address space. File contents come from the argument \<open>rd\<close>, which answers for the page cache
  and the file system; random numbers and the register \<open>CR3\<close> are arguments.
\<close>

section \<open>The machine and the policy on mappings\<close>

datatype WxPolicy = Permissive | Strict | JitCompat

record Vm = Machine +
  swap_manager :: SwapManager
  aslr_seed :: u64
  wx_policy :: WxPolicy
  wx_violations :: u64

type_synonym 'x vm = "'x Vm_scheme"
type_synonym 'x vm_reclaim = "'x Vm_ext reclaim"

text \<open>Every policy counts the violation; only \<open>Strict\<close> denies it.\<close>

definition check_wx_violation :: "'x vm \<Rightarrow> ProtFlags \<Rightarrow> 'x vm \<times> bool" where
  "check_wx_violation m prot =
     (if \<not> prot_write prot \<or> \<not> prot_execute prot then (m, False)
      else (m\<lparr>wx_violations := wx_violations m + 1\<rparr>,
            case wx_policy m of Permissive \<Rightarrow> False | Strict \<Rightarrow> True | JitCompat \<Rightarrow> False))"

definition set_wx_policy :: "WxPolicy \<Rightarrow> 'x vm \<Rightarrow> 'x vm" where
  "set_wx_policy policy m = m\<lparr>wx_policy := policy\<rparr>"

text \<open>\<open>crate::swap::track_anon_page\<close>.\<close>

definition track_anon :: "u32 \<Rightarrow> u64 \<Rightarrow> u64 \<Rightarrow> 'x vm \<Rightarrow> 'x vm" where
  "track_anon pid vaddr phys m = m\<lparr>swap_manager := track_anon_page pid vaddr phys (swap_manager m)\<rparr>"

definition fill_file_backed_page :: "(string \<Rightarrow> u64 \<Rightarrow> u8 list) \<Rightarrow> 'e Machine_scheme \<Rightarrow> string \<Rightarrow> u64 \<Rightarrow> u64 \<Rightarrow> 'e Machine_scheme" where
  "fill_file_backed_page rd m path off frame =
     (let bytes = rd path off in if 0 < length bytes then copy_to_physical_frame m frame bytes else m)"

section \<open>Areas\<close>

record AddressSpace =
  as_pid :: u32
  as_cr3 :: u64
  vmas :: "(u64, VirtualMemoryArea) btree"
  as_brk :: u64
  mmap_next :: u64
  owned_frames :: "u64 list"
  cow_pages :: "(u64, u64) btree"

definition AddressSpace_new ::
  "'x vm_reclaim \<Rightarrow> u64 \<Rightarrow> u64 option \<Rightarrow> u64 option \<Rightarrow> u32 \<Rightarrow> 'x vm \<Rightarrow> 'x vm \<times> AddressSpace option" where
  "AddressSpace_new rc current rnd1 rnd2 pid m0 =
     (case allocate_page_table_frame rc m0 of
        (m, None) \<Rightarrow> (m, None)
      | (m, Some cr3) \<Rightarrow>
          let m = clone_kernel_mappings m current cr3;
              (seed1, heap) = aslr_heap_start (aslr_seed m) rnd1;
              (seed2, top) = aslr_mmap_end seed1 rnd2 in
          (m\<lparr>aslr_seed := seed2\<rparr>,
           Some \<lparr>as_pid = pid, as_cr3 = cr3, vmas = [], as_brk = heap, mmap_next = top, owned_frames = [], cow_pages = []\<rparr>))"

definition add_vma :: "VirtualMemoryArea \<Rightarrow> AddressSpace \<Rightarrow> AddressSpace" where
  "add_vma v s = s\<lparr>vmas := bt_insert (vma_start v) v (vmas s)\<rparr>"

definition remove_vma :: "u64 \<Rightarrow> AddressSpace \<Rightarrow> AddressSpace \<times> VirtualMemoryArea option" where
  "remove_vma start s = (s\<lparr>vmas := bt_remove start (vmas s)\<rparr>, bt_get (vmas s) start)"

definition find_vma :: "AddressSpace \<Rightarrow> u64 \<Rightarrow> VirtualMemoryArea option" where
  "find_vma s addr =
     (case bt_le_back (vmas s) addr of
        None \<Rightarrow> None
      | Some (_, v) \<Rightarrow> if vma_contains v addr then Some v else None)"

text \<open>\<open>find_vma_mut\<close> returns a reference to the entry of this key.\<close>

definition find_vma_key :: "AddressSpace \<Rightarrow> u64 \<Rightarrow> u64 option" where
  "find_vma_key s addr =
     (case bt_le_back (vmas s) addr of
        None \<Rightarrow> None
      | Some (k, v) \<Rightarrow> if vma_contains v addr then Some k else None)"

definition is_region_free :: "AddressSpace \<Rightarrow> u64 \<Rightarrow> u64 \<Rightarrow> bool" where
  "is_region_free s start sz =
     (let stop = start + sz in \<forall>v \<in> set (bt_values (vmas s)). \<not> (vma_start v < stop \<and> start < vma_end v))"

text \<open>
  The search for another spot; \<open>None\<close> when the loop does not end. The pair holds the candidate and
  whether it was found free.
\<close>

definition find_spot :: "AddressSpace \<Rightarrow> u64 \<Rightarrow> u64 \<Rightarrow> (u64 \<times> bool) option" where
  "find_spot s sz addr =
     while_option (\<lambda>(c, found). \<not> found \<and> MMAP_REGION_START + sz \<le> c)
       (\<lambda>(c, _). (c - PAGE_SIZE, is_region_free s (c - PAGE_SIZE) sz)) (addr, False)"

text \<open>The outer \<open>None\<close> is a call that does not return.\<close>

definition allocate_mmap_region :: "u64 \<Rightarrow> AddressSpace \<Rightarrow> (AddressSpace \<times> u64 option) option" where
  "allocate_mmap_region size0 s0 =
     (let sz = page_align_up size0 in
      if mmap_next s0 < MMAP_REGION_START + sz then Some (s0, None)
      else let s = s0\<lparr>mmap_next := mmap_next s0 - sz\<rparr>; addr = mmap_next s in
        if is_region_free s addr sz then Some (s, Some addr)
        else map_option (\<lambda>(c, found). if found then (s\<lparr>mmap_next := c\<rparr>, Some c) else (s, None)) (find_spot s sz addr))"

section \<open>Mapping and unmapping\<close>

text \<open>The loop of \<open>MAP_POPULATE\<close>; the result is false when a frame is missing.\<close>

fun populate :: "'x vm_reclaim \<Rightarrow> ProtFlags \<Rightarrow> u64 list \<Rightarrow> 'x vm \<Rightarrow> AddressSpace \<Rightarrow> 'x vm \<times> AddressSpace \<times> bool" where
  "populate rc prot [] m s = (m, s, True)"
| "populate rc prot (page_addr # pages) m s =
     (case allocate_physical_frame rc m of
        (m, None) \<Rightarrow> (m, s, False)
      | (m, Some frame) \<Rightarrow>
          let s = s\<lparr>owned_frames := owned_frames s @ [frame]\<rparr>;
              m = map_page_in_table rc m (as_cr3 s) page_addr frame (to_page_flags prot);
              m = zero_physical_frame m frame;
              m = track_anon (as_pid s) page_addr frame m in
          populate rc prot pages m s)"

text \<open>The page addresses of \<open>for i in 0..n\<close>.\<close>

definition page_list :: "u64 \<Rightarrow> u64 \<Rightarrow> u64 list" where
  "page_list start n = map (\<lambda>i. start + of_nat i * PAGE_SIZE) [0..<unat n]"

definition mmap_choose :: "u64 \<Rightarrow> u64 \<Rightarrow> MmapFlags \<Rightarrow> AddressSpace \<Rightarrow> (AddressSpace \<times> u64 option) option" where
  "mmap_choose addr sz flags s =
     (if map_fixed flags \<and> addr \<noteq> 0 then Some (s, Some (page_align_down addr))
      else if addr \<noteq> 0 then
        (let aligned = page_align_down addr in
         if is_region_free s aligned sz then Some (s, Some aligned) else allocate_mmap_region sz s)
      else allocate_mmap_region sz s)"

definition mmap_anonymous ::
  "'x vm_reclaim \<Rightarrow> u64 \<Rightarrow> u64 \<Rightarrow> ProtFlags \<Rightarrow> MmapFlags \<Rightarrow> 'x vm \<Rightarrow> AddressSpace \<Rightarrow> ('x vm \<times> AddressSpace \<times> u64 option) option" where
  "mmap_anonymous rc addr size0 prot flags m0 s0 =
     (let sz = page_align_up size0; num_pages = sz div PAGE_SIZE in
      case check_wx_violation m0 prot of (m1, denied) \<Rightarrow>
      if denied then Some (m1, s0, None)
      else case mmap_choose addr sz flags s0 of
        None \<Rightarrow> None
      | Some (s1, None) \<Rightarrow> Some (m1, s1, None)
      | Some (s1, Some vaddr) \<Rightarrow>
          (case (if map_populate flags then populate rc prot (page_list vaddr num_pages) m1 s1 else (m1, s1, True)) of
             (m2, s2, False) \<Rightarrow> Some (m2, s2, None)
           | (m2, s2, True) \<Rightarrow>
               Some (m2, add_vma \<lparr>vma_start = vaddr, vma_end = vaddr + sz, vma_prot = prot,
                 vma_type = (if map_shared flags then Shared else Anonymous), vma_flags = flags, file_path = None,
                 file_offset = 0, vma_cow = False, ref_count = 1\<rparr> s2, Some vaddr)))"

text \<open>What \<open>mmap_file\<close> changes in the area.\<close>

definition as_file :: "string \<Rightarrow> u64 \<Rightarrow> VirtualMemoryArea \<Rightarrow> VirtualMemoryArea" where
  "as_file path offset v = v\<lparr>vma_type := FileBacked, file_path := Some path, file_offset := offset,
     vma_flags := (vma_flags v)\<lparr>map_anonymous := False\<rparr>\<rparr>"

definition mmap_file ::
  "(string \<Rightarrow> u64 \<Rightarrow> u8 list) \<Rightarrow> 'x vm_reclaim \<Rightarrow> u64 \<Rightarrow> u64 \<Rightarrow> ProtFlags \<Rightarrow> MmapFlags \<Rightarrow> string \<Rightarrow> u64 \<Rightarrow> 'x vm \<Rightarrow> AddressSpace
     \<Rightarrow> ('x vm \<times> AddressSpace \<times> u64 option) option" where
  "mmap_file rd rc addr sz prot flags path offset m0 s0 =
     (case mmap_anonymous rc addr sz prot flags m0 s0 of
        None \<Rightarrow> None
      | Some (m, s, None) \<Rightarrow> Some (m, s, None)
      | Some (m, s, Some vaddr) \<Rightarrow>
          let s = (case find_vma_key s vaddr of
                     None \<Rightarrow> s
                   | Some k \<Rightarrow> s\<lparr>vmas := bt_modify k (as_file path offset) (vmas s)\<rparr>);
              m = (if map_populate flags
                   then fold (\<lambda>i m. case get_mapped_frame m (as_cr3 s) (vaddr + of_nat i * PAGE_SIZE) of
                               None \<Rightarrow> m
                             | Some frame \<Rightarrow> fill_file_backed_page rd m path (offset + of_nat i * PAGE_SIZE) frame)
                          [0..<unat (page_align_up sz div PAGE_SIZE)] m
                   else m) in
          Some (m, s, Some vaddr))"

definition unmap_pages :: "u64 \<Rightarrow> u64 list \<Rightarrow> 'e Machine_scheme \<Rightarrow> 'e Machine_scheme" where
  "unmap_pages cr3 pages m = fold (\<lambda>p m. unmap_page_in_table m cr3 p) pages m"

text \<open>One VMA that overlaps the range \<open>addr .. stop\<close>: unmap the overlap and keep what lies outside.\<close>

definition munmap_one :: "u64 \<Rightarrow> u64 \<Rightarrow> u64 \<Rightarrow> 'e Machine_scheme \<times> AddressSpace \<Rightarrow> 'e Machine_scheme \<times> AddressSpace" where
  "munmap_one addr stop start ms =
     (case ms of (m, s0) \<Rightarrow>
      (case remove_vma start s0 of
         (s, None) \<Rightarrow> (m, s)
       | (s, Some v) \<Rightarrow>
           let unmap_start = max (vma_start v) addr; unmap_end = min (vma_end v) stop;
               m = unmap_pages (as_cr3 s) (page_list unmap_start ((unmap_end - unmap_start) div PAGE_SIZE)) m;
               s = (if vma_start v < addr then add_vma (v\<lparr>vma_end := addr\<rparr>) s else s);
               s = (if stop < vma_end v then add_vma (v\<lparr>vma_start := stop\<rparr>) s else s) in
           (m, s)))"

definition munmap :: "u64 \<Rightarrow> u64 \<Rightarrow> 'e Machine_scheme \<Rightarrow> AddressSpace \<Rightarrow> 'e Machine_scheme \<times> AddressSpace" where
  "munmap addr0 size0 m s =
     (let addr = page_align_down addr0; sz = page_align_up size0; stop = addr + sz;
          to_remove = map fst (filter (\<lambda>(_, v). vma_start v < stop \<and> addr < vma_end v) (vmas s)) in
      fold (munmap_one addr stop) to_remove (m, s))"

definition mprotect :: "u64 \<Rightarrow> u64 \<Rightarrow> ProtFlags \<Rightarrow> 'x vm \<Rightarrow> AddressSpace \<Rightarrow> 'x vm \<times> AddressSpace \<times> bool" where
  "mprotect addr0 size0 prot m0 s =
     (case check_wx_violation m0 prot of (m, denied) \<Rightarrow>
      if denied then (m, s, False)
      else let addr = page_align_down addr0; sz = page_align_up size0; stop = addr + sz in
        case Option.bind (find_vma_key s addr) (\<lambda>k. map_option (Pair k) (bt_get (vmas s) k)) of
          None \<Rightarrow> (m, s, False)
        | Some (k, v) \<Rightarrow>
            if vma_start v \<le> addr \<and> stop \<le> vma_end v then
              (fold (\<lambda>p m. update_page_flags_in_table m (as_cr3 s) p (to_page_flags prot)) (page_list addr (sz div PAGE_SIZE)) m,
               s\<lparr>vmas := bt_modify k (\<lambda>v. v\<lparr>vma_prot := prot\<rparr>) (vmas s)\<rparr>, True)
            else (m, s, False))"

abbreviation user_rw :: u64 where
  "user_rw \<equiv> PRESENT OR WRITABLE OR USER_ACCESSIBLE OR NO_EXECUTE"

text \<open>The loop of \<open>brk\<close> and \<open>map_stack\<close> over new pages; false when a frame is missing.\<close>

fun add_pages :: "'x vm_reclaim \<Rightarrow> u64 list \<Rightarrow> 'x vm \<Rightarrow> AddressSpace \<Rightarrow> 'x vm \<times> AddressSpace \<times> bool" where
  "add_pages rc [] m s = (m, s, True)"
| "add_pages rc (page_addr # pages) m s =
     (case allocate_physical_frame rc m of
        (m, None) \<Rightarrow> (m, s, False)
      | (m, Some frame) \<Rightarrow>
          let s = s\<lparr>owned_frames := owned_frames s @ [frame]\<rparr>;
              m = map_page_in_table rc m (as_cr3 s) page_addr frame user_rw;
              m = zero_physical_frame m frame in
          add_pages rc pages m s)"

definition brk :: "'x vm_reclaim \<Rightarrow> u64 \<Rightarrow> 'x vm \<Rightarrow> AddressSpace \<Rightarrow> 'x vm \<times> AddressSpace \<times> u64" where
  "brk rc new_brk0 m s =
     (if new_brk0 = 0 then (m, s, as_brk s)
      else let new_brk = page_align_up new_brk0 in
      if HEAP_MAX < new_brk then (m, s, as_brk s)
      else if as_brk s < new_brk then
        (let old_end = page_align_up (as_brk s); new_end = page_align_up new_brk in
         case add_pages rc (page_list old_end ((new_end - old_end) div PAGE_SIZE)) m s of
           (m, s, False) \<Rightarrow> (m, s, as_brk s)
         | (m, s, True) \<Rightarrow> (m, s\<lparr>as_brk := new_brk\<rparr>, new_brk))
      else if new_brk < as_brk s then
        (let old_end = page_align_up (as_brk s); new_end = page_align_up new_brk in
         (unmap_pages (as_cr3 s) (page_list new_end ((old_end - new_end) div PAGE_SIZE)) m, s\<lparr>as_brk := new_brk\<rparr>, new_brk))
      else (m, s\<lparr>as_brk := new_brk\<rparr>, new_brk))"

definition map_stack :: "'x vm_reclaim \<Rightarrow> u64 \<Rightarrow> u64 \<Rightarrow> 'x vm \<Rightarrow> AddressSpace \<Rightarrow> 'x vm \<times> AddressSpace \<times> u64 option" where
  "map_stack rc stack_top stack_size m s0 =
     (let stack_pages = stack_size div PAGE_SIZE;
          stack_bottom = stack_top - (stack_pages + STACK_GUARD_PAGES) * PAGE_SIZE;
          stack_start = stack_bottom + STACK_GUARD_PAGES * PAGE_SIZE;
          s = add_vma \<lparr>vma_start = stack_bottom, vma_end = stack_start, vma_prot = ProtFlags_NONE, vma_type = Guard,
                vma_flags = \<lparr>map_shared = False, map_anonymous = True, map_fixed = True, map_populate = False\<rparr>,
                file_path = None, file_offset = 0, vma_cow = False, ref_count = 1\<rparr> s0 in
      case add_pages rc (page_list stack_start stack_pages) m s of
        (m, s, False) \<Rightarrow> (m, s, None)
      | (m, s, True) \<Rightarrow>
          (m, add_vma \<lparr>vma_start = stack_start, vma_end = stack_top, vma_prot = ProtFlags_RW, vma_type = Stack,
                vma_flags = \<lparr>map_shared = False, map_anonymous = True, map_fixed = True, map_populate = True\<rparr>,
                file_path = None, file_offset = 0, vma_cow = False, ref_count = 1\<rparr> s, Some stack_top))"

section \<open>Copy on write\<close>

text \<open>\<open>cow_flags.remove(WRITABLE)\<close>.\<close>

definition cow_flags :: "ProtFlags \<Rightarrow> u64" where
  "cow_flags prot = to_page_flags prot AND NOT WRITABLE"

definition share_page ::
  "'x vm_reclaim \<Rightarrow> u64 \<Rightarrow> u64 \<Rightarrow> 'x vm \<times> AddressSpace \<Rightarrow> u64 \<Rightarrow> 'x vm \<times> AddressSpace" where
  "share_page rc parent_cr3 flags mc page_addr =
     (case mc of (m, child) \<Rightarrow>
      (case get_mapped_frame m parent_cr3 page_addr of
         None \<Rightarrow> (m, child)
       | Some phys_frame \<Rightarrow>
           let m = map_page_in_table rc m (as_cr3 child) page_addr phys_frame flags;
               m = update_page_flags_in_table m parent_cr3 page_addr flags in
           (m, child\<lparr>cow_pages := bt_insert page_addr phys_frame (cow_pages child)\<rparr>)))"

definition fork_vma :: "'x vm_reclaim \<Rightarrow> u64 \<Rightarrow> VirtualMemoryArea \<Rightarrow> 'x vm \<times> AddressSpace \<Rightarrow> 'x vm \<times> AddressSpace" where
  "fork_vma rc parent_cr3 v mc =
     (case mc of (m, child) \<Rightarrow>
      if vma_type v = Guard then (m, add_vma v child)
      else case foldl (share_page rc parent_cr3 (cow_flags (vma_prot v))) (m, child) (page_list (vma_start v) (vma_page_count v)) of
        (m, child) \<Rightarrow> (m, add_vma (v\<lparr>vma_cow := True, ref_count := 2\<rparr>) child))"

definition fork ::
  "'x vm_reclaim \<Rightarrow> u64 \<Rightarrow> u64 option \<Rightarrow> u64 option \<Rightarrow> u32 \<Rightarrow> 'x vm \<Rightarrow> AddressSpace \<Rightarrow> 'x vm \<times> AddressSpace option" where
  "fork rc current rnd1 rnd2 child_pid m s =
     (case AddressSpace_new rc current rnd1 rnd2 child_pid m of
        (m, None) \<Rightarrow> (m, None)
      | (m, Some child) \<Rightarrow>
          (case fold (fork_vma rc (as_cr3 s)) (bt_values (vmas s)) (m, child\<lparr>as_brk := as_brk s, mmap_next := mmap_next s\<rparr>) of
             (m, child) \<Rightarrow> (m, Some child)))"

abbreviation user_rwx :: u64 where
  "user_rwx \<equiv> PRESENT OR WRITABLE OR USER_ACCESSIBLE"

definition vma_page_flags :: "AddressSpace \<Rightarrow> u64 \<Rightarrow> u64" where
  "vma_page_flags s page_addr = (case find_vma s page_addr of Some v \<Rightarrow> to_page_flags (vma_prot v) | None \<Rightarrow> user_rwx)"

definition handle_cow_fault :: "'x vm_reclaim \<Rightarrow> u64 \<Rightarrow> 'x vm \<Rightarrow> AddressSpace \<Rightarrow> 'x vm \<times> AddressSpace \<times> bool" where
  "handle_cow_fault rc fault_addr m s =
     (let page_addr = page_align_down fault_addr in
      case bt_get (cow_pages s) page_addr of
        None \<Rightarrow> (m, s, False)
      | Some original_frame \<Rightarrow>
          (case allocate_physical_frame rc m of
             (m, None) \<Rightarrow> (m, s, False)
           | (m, Some new_frame) \<Rightarrow>
               let s = s\<lparr>owned_frames := owned_frames s @ [new_frame]\<rparr>;
                   m = copy_physical_frame m original_frame new_frame;
                   flags = vma_page_flags s page_addr;
                   m = unmap_page_in_table m (as_cr3 s) page_addr;
                   m = map_page_in_table rc m (as_cr3 s) page_addr new_frame flags in
               (m, s\<lparr>cow_pages := bt_remove page_addr (cow_pages s)\<rparr>, True)))"

section \<open>Page faults\<close>

definition handle_swap_in :: "'x vm_reclaim \<Rightarrow> u64 \<Rightarrow> 'x vm \<Rightarrow> AddressSpace \<Rightarrow> ('x vm \<times> AddressSpace \<times> bool) exec" where
  "handle_swap_in rc fault_addr m s =
     (let page_addr = page_align_down fault_addr in
      if \<not> is_swapped (as_pid s) page_addr (swap_manager m) then Done (m, s, False)
      else case pool_allocate m of
        (m, None) \<Rightarrow> Done (m, s, False)
      | (m, Some frame) \<Rightarrow>
          exec_bind (page_in (as_pid s) page_addr (swap_manager m)) (\<lambda>(sw, r).
            let m = m\<lparr>swap_manager := sw\<rparr> in
            case r of
              None \<Rightarrow> Done (m\<lparr>frame_pool := pool_free_frame (frame_pool m) frame\<rparr>, s, False)
            | Some data \<Rightarrow>
                let flags = vma_page_flags s page_addr;
                    s = s\<lparr>owned_frames := owned_frames s @ [frame]\<rparr>;
                    m = copy_to_physical_frame m frame data;
                    m = map_page_in_table rc m (as_cr3 s) page_addr frame flags in
                Done (track_anon (as_pid s) page_addr frame m, s, True)))"

definition demandable :: "MappingType \<Rightarrow> bool" where
  "demandable t \<longleftrightarrow> t \<in> {Anonymous, Data, Heap, Shared, FileBacked, Stack}"

definition handle_demand_fault ::
  "(string \<Rightarrow> u64 \<Rightarrow> u8 list) \<Rightarrow> 'x vm_reclaim \<Rightarrow> u64 \<Rightarrow> 'x vm \<Rightarrow> AddressSpace \<Rightarrow> 'x vm \<times> AddressSpace \<times> bool" where
  "handle_demand_fault rd rc fault_addr m s =
     (let page_addr = page_align_down fault_addr in
      case find_vma s page_addr of
        None \<Rightarrow> (m, s, False)
      | Some v \<Rightarrow>
          if vma_type v = Guard then (m, s, False)
          else if \<not> demandable (vma_type v) then (m, s, False)
          else if get_mapped_frame m (as_cr3 s) page_addr \<noteq> None then (m, s, False)
          else case allocate_physical_frame rc m of
            (m, None) \<Rightarrow> (m, s, False)
          | (m, Some frame) \<Rightarrow>
              let s = s\<lparr>owned_frames := owned_frames s @ [frame]\<rparr>;
                  m = map_page_in_table rc m (as_cr3 s) page_addr frame (to_page_flags (vma_prot v));
                  m = zero_physical_frame m frame;
                  m = (if vma_type v = FileBacked then
                         (case file_path v of
                            None \<Rightarrow> m
                          | Some path \<Rightarrow> fill_file_backed_page rd m path (file_offset v + (page_addr - vma_start v)) frame)
                       else track_anon (as_pid s) page_addr frame m) in
              (m, s, True))"

section \<open>Sizes, sharing, the end\<close>

definition total_vm_size :: "AddressSpace \<Rightarrow> u64" where
  "total_vm_size s = sum_list (map (\<lambda>v. vma_end v - vma_start v) (bt_values (vmas s)))"

definition total_rss :: "AddressSpace \<Rightarrow> u64" where
  "total_rss s = of_nat (length (owned_frames s)) * PAGE_SIZE"

definition share :: "u32 \<Rightarrow> AddressSpace \<Rightarrow> AddressSpace" where
  "share child_pid s = s\<lparr>as_pid := child_pid, owned_frames := []\<rparr>"

definition AddressSpace_drop :: "AddressSpace \<Rightarrow> 'e Machine_scheme \<Rightarrow> 'e Machine_scheme" where
  "AddressSpace_drop s m =
     (let m = fold (\<lambda>f m. free_physical_frame m f) (owned_frames s) m in
      if as_cr3 s \<noteq> 0 then free_physical_frame m (as_cr3 s) else m)"

section \<open>Well-formed areas\<close>

text \<open>Every area is keyed by its start, is not empty, is made of whole pages, and ends before the next starts.\<close>

definition area_ok :: "u64 \<times> VirtualMemoryArea \<Rightarrow> bool" where
  "area_ok = (\<lambda>(k, v). vma_start v = k \<and> k < vma_end v \<and> page_aligned k \<and> page_aligned (vma_end v))"

definition areas_ok :: "AddressSpace \<Rightarrow> bool" where
  "areas_ok s \<longleftrightarrow> bt_wf (vmas s) \<and> (\<forall>e \<in> set (vmas s). area_ok e
     \<and> (\<forall>e' \<in> set (vmas s). fst e < fst e' \<longrightarrow> vma_end (snd e) \<le> fst e'))"

lemma areas_ok_iff:
  "areas_ok s \<longleftrightarrow> bt_wf (vmas s) \<and> (\<forall>k v. bt_get (vmas s) k = Some v \<longrightarrow> area_ok (k, v))
     \<and> (\<forall>k v k' v'. bt_get (vmas s) k = Some v \<longrightarrow> bt_get (vmas s) k' = Some v' \<longrightarrow> k < k' \<longrightarrow> vma_end v \<le> k')"
proof (cases "bt_wf (vmas s)")
  case True
  show ?thesis unfolding areas_ok_def bt_get_iff [OF True] using True by fastforce
qed (simp add: areas_ok_def)

lemma areas_okD:
  assumes "areas_ok s" and "bt_get (vmas s) k = Some v"
  shows "vma_start v = k" "k < vma_end v" "page_aligned k" "page_aligned (vma_end v)"
    "bt_get (vmas s) k' = Some v' \<Longrightarrow> k < k' \<Longrightarrow> vma_end v \<le> k'"
  using assms by (auto simp: areas_ok_iff area_ok_def)

lemma areas_ok_wf: "areas_ok s \<Longrightarrow> bt_wf (vmas s)"
  by (simp add: areas_ok_def)

lemma find_vma_Some:
  assumes "areas_ok s"
  shows "find_vma s a = Some v \<longleftrightarrow> (\<exists>k. bt_get (vmas s) k = Some v) \<and> vma_contains v a"
proof
  assume "find_vma s a = Some v"
  then obtain k where k: "bt_le_back (vmas s) a = Some (k, v)" "vma_contains v a"
    by (auto simp: find_vma_def split: option.splits if_splits)
  with bt_le_back_Some [OF areas_ok_wf [OF assms] k(1)]
  show "(\<exists>k. bt_get (vmas s) k = Some v) \<and> vma_contains v a" by blast
next
  assume "(\<exists>k. bt_get (vmas s) k = Some v) \<and> vma_contains v a"
  then obtain k where k: "bt_get (vmas s) k = Some v" and c: "vma_contains v a" by blast
  note D = areas_okD [OF assms k]
  have mem: "(k, v) \<in> set (vmas s)" using k by (rule map_of_SomeD)
  have "k \<le> a" "a < vma_end v" using c D(1) by (auto simp: vma_contains_def)
  then have "bt_le_back (vmas s) a \<noteq> None" unfolding bt_le_back_None using mem by (metis fst_conv leD)
  then obtain j w where j: "bt_le_back (vmas s) a = Some (j, w)" by auto
  note B = bt_le_back_Some [OF areas_ok_wf [OF assms] j]
  have "k \<le> j" using B mem \<open>k \<le> a\<close> by force
  moreover have "\<not> k < j" using D(5) [of j w] B \<open>a < vma_end v\<close> by fastforce
  ultimately have "j = k" by simp
  with B k have "w = v" by simp
  with j c show "find_vma s a = Some v" by (simp add: find_vma_def)
qed

lemma find_vma_key_eq:
  assumes "areas_ok s"
  shows "find_vma_key s a = map_option vma_start (find_vma s a)"
proof (cases "bt_le_back (vmas s) a")
  case (Some e)
  obtain k v where e: "e = (k, v)" by force
  from bt_le_back_Some [OF areas_ok_wf [OF assms]] Some e have "bt_get (vmas s) k = Some v" by simp
  from areas_okD(1) [OF assms this] Some e show ?thesis by (simp add: find_vma_key_def find_vma_def)
qed (simp add: find_vma_key_def find_vma_def)

lemma find_vma_None:
  assumes "areas_ok s"
  shows "find_vma s a = None \<longleftrightarrow> (\<forall>k v. bt_get (vmas s) k = Some v \<longrightarrow> \<not> vma_contains v a)"
  using find_vma_Some [OF assms, of a] by (metis not_None_eq option.distinct(1))

lemma find_vma_at: "areas_ok s \<Longrightarrow> bt_get (vmas s) k = Some v \<Longrightarrow> vma_contains v a \<Longrightarrow> find_vma s a = Some v"
  using find_vma_Some by blast

section \<open>Insertion and removal of an area\<close>

lemma add_vma_simps [simp]:
  "vmas (add_vma v s) = bt_insert (vma_start v) v (vmas s)" "as_cr3 (add_vma v s) = as_cr3 s"
  "as_pid (add_vma v s) = as_pid s" "cow_pages (add_vma v s) = cow_pages s" "owned_frames (add_vma v s) = owned_frames s"
  "as_brk (add_vma v s) = as_brk s" "mmap_next (add_vma v s) = mmap_next s"
  by (simp_all add: add_vma_def)

text \<open>No area reaches into the range \<open>a .. b\<close>.\<close>

definition clear :: "AddressSpace \<Rightarrow> u64 \<Rightarrow> u64 \<Rightarrow> bool" where
  "clear s a b \<longleftrightarrow> (\<forall>k v. bt_get (vmas s) k = Some v \<longrightarrow> vma_end v \<le> a \<or> b \<le> k)"

lemma add_vma_ok:
  assumes ok: "areas_ok s" and v: "area_ok (vma_start v, v)" and free: "clear s (vma_start v) (vma_end v)"
  shows "areas_ok (add_vma v s)"
    "find_vma (add_vma v s) a = (if vma_contains v a then Some v else find_vma s a)"
proof -
  have v': "vma_start v < vma_end v" using v by (simp add: area_ok_def)
  have absent: "bt_get (vmas s) (vma_start v) = None"
  proof (cases "bt_get (vmas s) (vma_start v)")
    case (Some w)
    with free v' have "vma_end w \<le> vma_start v" by (fastforce simp: clear_def)
    with areas_okD(2) [OF ok Some] show ?thesis by simp
  qed
  show ok': "areas_ok (add_vma v s)"
    unfolding areas_ok_iff
  proof (intro conjI allI impI)
    fix k w assume "bt_get (vmas (add_vma v s)) k = Some w"
    then show "area_ok (k, w)" using v ok by (auto simp: areas_ok_iff split: if_splits)
  next
    fix k w k' w' assume g: "bt_get (vmas (add_vma v s)) k = Some w" "bt_get (vmas (add_vma v s)) k' = Some w'" "k < k'"
    show "vma_end w \<le> k'"
    proof (cases "k = vma_start v")
      case True
      with g have k': "bt_get (vmas s) k' = Some w'" "w = v" by (auto split: if_splits)
      with free areas_okD(2) [OF ok k'(1)] g(3) True show ?thesis by (fastforce simp: clear_def)
    next
      case False
      with g have k: "bt_get (vmas s) k = Some w" by simp
      show ?thesis
      proof (cases "k' = vma_start v")
        case True
        with k free g(3) v' show ?thesis by (fastforce simp: clear_def)
      next
        case False
        with g areas_okD(5) [OF ok k] show ?thesis by simp
      qed
    qed
  qed (use areas_ok_wf [OF ok] in simp)
  show "find_vma (add_vma v s) a = (if vma_contains v a then Some v else find_vma s a)"
  proof (cases "vma_contains v a")
    case True
    with find_vma_at [OF ok', of "vma_start v" v a] show ?thesis by simp
  next
    case out: False
    show ?thesis
    proof (cases "find_vma s a")
      case None
      then have "find_vma (add_vma v s) a = None"
        using out unfolding find_vma_None [OF ok] find_vma_None [OF ok'] by simp
      with None out show ?thesis by simp
    next
      case (Some w)
      then obtain k where k: "bt_get (vmas s) k = Some w" "vma_contains w a" using find_vma_Some [OF ok] by blast
      then have "k \<noteq> vma_start v" using absent by auto
      with k find_vma_at [OF ok', of k w a] Some out show ?thesis by simp
    qed
  qed
qed

lemma remove_area_ok:
  assumes ok: "areas_ok s" and v: "bt_get (vmas s) k = Some v"
  defines "s' \<equiv> s\<lparr>vmas := bt_remove k (vmas s)\<rparr>"
  shows "areas_ok s'" "find_vma s' a = (if vma_contains v a then None else find_vma s a)" "clear s' k (vma_end v)"
proof -
  show ok': "areas_ok s'"
    using ok unfolding areas_ok_iff s'_def by (auto split: if_splits)
  have other: "vma_end w \<le> k \<or> vma_end v \<le> j" if "bt_get (vmas s) j = Some w" "j \<noteq> k" for j w
    using that areas_okD(5) [OF ok v that(1)] areas_okD(5) [OF ok that(1) v] by (meson neqE)
  then show "clear s' k (vma_end v)" by (auto simp: clear_def s'_def split: if_splits)
  have sep: "\<not> vma_contains v a" if "bt_get (vmas s) j = Some w" "j \<noteq> k" "vma_contains w a" for j w
    using other [OF that(1,2)] that(3) areas_okD(1) [OF ok v] areas_okD(1) [OF ok that(1)]
    by (auto simp: vma_contains_def)
  show "find_vma s' a = (if vma_contains v a then None else find_vma s a)"
  proof (cases "\<exists>j w. j \<noteq> k \<and> bt_get (vmas s) j = Some w \<and> vma_contains w a")
    case True
    then obtain j w where j: "j \<noteq> k" "bt_get (vmas s) j = Some w" "vma_contains w a" by blast
    with sep have "\<not> vma_contains v a" by blast
    moreover have "find_vma s' a = Some w" using j by (intro find_vma_at [OF ok', of j]) (simp_all add: s'_def)
    ultimately show ?thesis using find_vma_at [OF ok j(2,3)] by simp
  next
    case False
    then have "find_vma s' a = None" unfolding find_vma_None [OF ok'] by (auto simp: s'_def split: if_splits)
    moreover have "find_vma s a = None" if "\<not> vma_contains v a"
      using False that v unfolding find_vma_None [OF ok] by (metis option.inject)
    ultimately show ?thesis by simp
  qed
qed

section \<open>The pages of a range\<close>

lemma page_list_mem:
  assumes al: "page_aligned a" "page_aligned b" and ab: "a \<le> b"
  shows "p \<in> set (page_list a ((b - a) div PAGE_SIZE)) \<longleftrightarrow> page_aligned p \<and> a \<le> p \<and> p < b"
proof -
  obtain i j where i: "unat a = 4096 * i" and j: "unat b = 4096 * j" using al by (auto simp: page_aligned_iff elim!: dvdE)
  have ij: "i \<le> j" using ab i j by (simp add: word_le_nat_alt)
  have n: "unat ((b - a) div PAGE_SIZE) = j - i"
    using ab i j by (simp add: unat_div unat_sub word_le_nat_alt)
  have at: "unat (a + of_nat k * PAGE_SIZE) = 4096 * (i + k)" if "k < j - i" for k
  proof -
    have "4096 * (i + k) < 2 ^ 64" using that j unat_64 [of b] by simp
    moreover have "unat (of_nat k * PAGE_SIZE :: u64) = 4096 * k"
      using that j unat_64 [of b] by (simp add: unat_word_ariths unat_of_nat_small)
    ultimately show ?thesis using i by (simp add: unat_word_ariths)
  qed
  show ?thesis
  proof
    assume "p \<in> set (page_list a ((b - a) div PAGE_SIZE))"
    then obtain k where k: "k < j - i" "p = a + of_nat k * PAGE_SIZE" by (auto simp: page_list_def n)
    with at [OF k(1)] show "page_aligned p \<and> a \<le> p \<and> p < b"
      by (simp add: page_aligned_iff word_le_nat_alt word_less_nat_alt i j)
  next
    assume p: "page_aligned p \<and> a \<le> p \<and> p < b"
    then obtain q where q: "unat p = 4096 * q" by (auto simp: page_aligned_iff elim!: dvdE)
    with p i j have "i \<le> q" "q < j" by (simp_all add: word_le_nat_alt word_less_nat_alt)
    then have "q - i < j - i" by linarith
    with at [of "q - i"] q \<open>i \<le> q\<close> have "p = a + of_nat (q - i) * PAGE_SIZE" by (simp add: word_unat_eq_iff)
    with \<open>q - i < j - i\<close> show "p \<in> set (page_list a ((b - a) div PAGE_SIZE))"
      unfolding page_list_def n by (auto intro!: image_eqI [where x = "q - i"])
  qed
qed

lemma page_align_down_page: "page_align_down a = page_of a"
  by (simp add: page_align_down_def page_of_def PAGE_SIZE_def)

text \<open>A range of whole pages contains an address when it contains the address's page.\<close>

lemma page_in_range:
  assumes "page_aligned a" "page_aligned b"
  shows "a \<le> page_of w \<and> page_of w < b \<longleftrightarrow> a \<le> w \<and> w < b"
proof -
  obtain i j where i: "unat a = 4096 * i" and j: "unat b = 4096 * j" using assms by (auto simp: page_aligned_iff elim!: dvdE)
  have "4096 * i \<le> unat w div 4096 * 4096 \<longleftrightarrow> 4096 * i \<le> unat w"
    using less_eq_div_iff_mult_less_eq [of 4096 i "unat w"] by (simp add: mult.commute)
  moreover have "unat w div 4096 * 4096 < 4096 * j \<longleftrightarrow> unat w < 4096 * j"
    using div_less_iff_less_mult [of 4096 "unat w" j] by (simp add: mult.commute)
  ultimately show ?thesis by (simp add: word_le_nat_alt word_less_nat_alt unat_page_of i j)
qed

lemma unat_idx:
  "unat (drop_bit n v AND 0x1FF) = unat v div 2 ^ n mod 512" for v :: u64
proof -
  have "drop_bit n v AND 0x1FF = take_bit 9 (drop_bit n v)"
    by (simp add: take_bit_eq_mask mask_eq_exp_minus_1)
  moreover have "unat (drop_bit n v) = unat v div 2 ^ n"
    using unat_64 [of v] by (simp only: unsigned_drop_bit_eq) (simp add: take_bit_nat_def drop_bit_eq_div)
  ultimately show ?thesis by (simp only: unsigned_take_bit_eq take_bit_nat_def) simp
qed

lemma page_path_inject:
  assumes "unat v < 2 ^ 48" "unat w < 2 ^ 48"
  shows "page_path v = page_path w \<longleftrightarrow> page_of v = page_of w"
proof
  assume p: "page_path v = page_path w"
  have split: "n div 4096 = n div 2 ^ 12 mod 512 + 512 * (n div 2 ^ 21 mod 512) + 512 * 512 * (n div 2 ^ 30 mod 512)
      + 512 * 512 * 512 * (n div 2 ^ 39 mod 512)" if "n < 2 ^ 48" for n :: nat
  proof -
    have "n div 2 ^ 21 = n div 4096 div 512" "n div 2 ^ 30 = n div 4096 div 512 div 512"
      "n div 2 ^ 39 = n div 4096 div 512 div 512 div 512" by (simp_all flip: div_mult2_eq)
    moreover have "n div 4096 div 512 div 512 div 512 < 512" using that by (simp flip: div_mult2_eq)
    moreover have "q = q mod 512 + 512 * (q div 512 mod 512) + 512 * 512 * (q div 512 div 512 mod 512)
        + 512 * 512 * 512 * (q div 512 div 512 div 512 mod 512)" if "q div 512 div 512 div 512 < 512" for q :: nat
      using mult_div_mod_eq [of 512 q] mult_div_mod_eq [of 512 "q div 512"]
        mult_div_mod_eq [of 512 "q div 512 div 512"] mod_less [OF that] by linarith
    ultimately show ?thesis by simp
  qed
  from p have "unat v div 4096 = unat w div 4096"
    unfolding split [OF assms(1)] split [OF assms(2)]
    by (simp add: page_path_def l4_idx_def l3_idx_def l2_idx_def l1_idx_def unat_idx)
  then show "page_of v = page_of w" by (simp add: word_unat_eq_iff unat_page_of)
next
  assume "page_of v = page_of w"
  then show "page_path v = page_path w" by (metis page_path_page)
qed

text \<open>Unmapping clears the pages of the list and no other.\<close>

lemma unmap_step:
  assumes "pt_inv R used m cr3" and "small_page m cr3 v" and "small_page m cr3 w"
  shows "small_page (unmap_page_in_table m cr3 v) cr3 w"
  using find_l1_frame(1) [OF assms(1,2) _ assms(3)] assms(3) by (simp add: unmap_page_in_table_def split: option.split)

lemma unmap_pages_entries:
  assumes "pt_inv R used m cr3" and "\<forall>p \<in> set pages. small_page m cr3 p"
  shows "pt_inv R used (unmap_pages cr3 pages m) cr3
    \<and> page_entry (unmap_pages cr3 pages m) cr3 w = (if page_path w \<in> page_path ` set pages then None else page_entry m cr3 w)
    \<and> (small_page m cr3 u \<longrightarrow> small_page (unmap_pages cr3 pages m) cr3 u)"
  using assms
proof (induction pages arbitrary: m)
  case (Cons p pages)
  then have p: "small_page m cr3 p" by simp
  note U = unmap_page_pages [OF Cons.prems(1) p]
  have "\<forall>q \<in> set pages. small_page (unmap_page_in_table m cr3 p) cr3 q"
    using unmap_step [OF Cons.prems(1) p] Cons.prems(2) by simp
  from Cons.IH [OF U(1) this] U(2) unmap_step [OF Cons.prems(1) p]
  show ?case by (auto simp: unmap_pages_def)
qed (simp add: unmap_pages_def)

lemma range_paths:
  fixes a b w :: u64
  assumes al: "page_aligned a" "page_aligned b" and ab: "a \<le> b" "unat b \<le> 2 ^ 48" and w: "unat w < 2 ^ 48"
  shows "page_path w \<in> page_path ` set (page_list a ((b - a) div PAGE_SIZE)) \<longleftrightarrow> a \<le> w \<and> w < b"
proof -
  let ?ps = "page_list a ((b - a) div PAGE_SIZE)"
  note mem = page_list_mem [OF al ab(1)]
  have "page_path w \<in> page_path ` set ?ps \<longleftrightarrow> a \<le> page_of w \<and> page_of w < b"
  proof
    assume "page_path w \<in> page_path ` set ?ps"
    then obtain p where p: "page_path w = page_path p" "page_aligned p" "a \<le> p" "p < b" using mem by auto
    then have "unat p < 2 ^ 48" using ab(2) by (simp add: word_less_nat_alt)
    with page_path_inject [OF w this] p have "page_of w = page_of p" by simp
    with p page_align_down_id [of p] show "a \<le> page_of w \<and> page_of w < b" by (simp add: page_align_down_page)
  next
    assume "a \<le> page_of w \<and> page_of w < b"
    moreover have "page_aligned (page_of w)" by (metis page_align_down_aligned page_align_down_page)
    ultimately have "page_of w \<in> set ?ps" using mem by blast
    then show "page_path w \<in> page_path ` set ?ps" by (metis imageI page_path_page)
  qed
  with page_in_range [OF al] show ?thesis by simp
qed

lemma unmap_range:
  fixes a b :: u64
  assumes inv: "pt_inv R used m cr3" and small: "\<And>p. a \<le> p \<Longrightarrow> p < b \<Longrightarrow> small_page m cr3 p"
    and al: "page_aligned a" "page_aligned b" and ab: "a \<le> b" "unat b \<le> 2 ^ 48"
  defines "m' \<equiv> unmap_pages cr3 (page_list a ((b - a) div PAGE_SIZE)) m"
  shows "pt_inv R used m' cr3" "small_page m cr3 u \<Longrightarrow> small_page m' cr3 u"
    "unat w < 2 ^ 48 \<Longrightarrow> page_entry m' cr3 w = (if a \<le> w \<and> w < b then None else page_entry m cr3 w)"
proof -
  have "\<forall>p \<in> set (page_list a ((b - a) div PAGE_SIZE)). small_page m cr3 p" using page_list_mem [OF al ab(1)] small by blast
  note E = unmap_pages_entries [OF inv this]
  show "pt_inv R used m' cr3" "small_page m cr3 u \<Longrightarrow> small_page m' cr3 u" using E [of w u] by (simp_all add: m'_def)
  show "unat w < 2 ^ 48 \<Longrightarrow> page_entry m' cr3 w = (if a \<le> w \<and> w < b then None else page_entry m cr3 w)"
    using E [of w u] range_paths [OF al ab] by (simp add: m'_def)
qed

section \<open>Unmapping a range\<close>

lemma clear_subset: "clear s a b \<Longrightarrow> a \<le> a' \<Longrightarrow> b' \<le> b \<Longrightarrow> clear s a' b'"
  by (fastforce simp: clear_def)

lemma clear_insert: "clear s a b \<Longrightarrow> vma_end v \<le> a \<or> b \<le> vma_start v \<Longrightarrow> clear (add_vma v s) a b"
  by (auto simp: clear_def)

text \<open>The part of an area on the side of the address \<open>a\<close>, once the range \<open>addr .. stop\<close> is cut out.\<close>

definition clip :: "u64 \<Rightarrow> u64 \<Rightarrow> u64 \<Rightarrow> VirtualMemoryArea \<Rightarrow> VirtualMemoryArea" where
  "clip addr stop a v = (if a < addr then v\<lparr>vma_end := min (vma_end v) addr\<rparr> else v\<lparr>vma_start := max (vma_start v) stop\<rparr>)"

lemma munmap_one_eq:
  assumes "bt_get (vmas s) k = Some v"
  shows "munmap_one addr stop k (m, s) =
    (unmap_pages (as_cr3 s) (page_list (max (vma_start v) addr)
       ((min (vma_end v) stop - max (vma_start v) addr) div PAGE_SIZE)) m,
     (let s1 = s\<lparr>vmas := bt_remove k (vmas s)\<rparr>;
          s2 = (if vma_start v < addr then add_vma (v\<lparr>vma_end := addr\<rparr>) s1 else s1) in
      if stop < vma_end v then add_vma (v\<lparr>vma_start := stop\<rparr>) s2 else s2))"
  using assms by (simp add: munmap_one_def remove_vma_def Let_def)

lemma munmap_one_areas:
  assumes ok: "areas_ok s" and v: "bt_get (vmas s) k = Some v" and meet: "k < stop" "addr < vma_end v"
    and al: "page_aligned addr" "page_aligned stop" "addr \<le> stop" and eq: "munmap_one addr stop k (m, s) = (m', s')"
  shows "areas_ok s'"
    "find_vma s' a = (if vma_contains v a then if addr \<le> a \<and> a < stop then None else Some (clip addr stop a v) else find_vma s a)"
    "j < stop \<Longrightarrow> j \<noteq> k \<Longrightarrow> bt_get (vmas s') j = bt_get (vmas s) j" "s' = s\<lparr>vmas := vmas s'\<rparr>"
proof -
  note D = areas_okD [OF ok v]
  let ?L = "v\<lparr>vma_end := addr\<rparr>" and ?R = "v\<lparr>vma_start := stop\<rparr>"
  define s1 where "s1 = s\<lparr>vmas := bt_remove k (vmas s)\<rparr>"
  define s2 where "s2 = (if vma_start v < addr then add_vma ?L s1 else s1)"
  have s': "s' = (if stop < vma_end v then add_vma ?R s2 else s2)"
    using eq by (auto simp: munmap_one_eq [OF v] s1_def s2_def Let_def)
  have R1: "areas_ok s1" "\<And>a. find_vma s1 a = (if vma_contains v a then None else find_vma s a)" "clear s1 k (vma_end v)"
    using remove_area_ok [OF ok v] by (simp_all add: s1_def)
  have clear1: "clear s1 k addr" "clear s1 stop (vma_end v)"
    using clear_subset [OF R1(3)] meet by auto
  have R2: "areas_ok s2"
    using add_vma_ok(1) [OF R1(1), of ?L] clear1(1) D(1,3) al(1) R1(1) by (simp add: s2_def area_ok_def)
  have F2: "find_vma s2 a = (if vma_contains v a then if addr \<le> a then None else Some ?L else find_vma s a)" for a
    using add_vma_ok(2) [OF R1(1), of ?L a] clear1(1) D(1,3) al(1) meet(2) R1(2)
    by (auto simp: s2_def area_ok_def vma_contains_def)
  have clear2: "clear s2 stop (vma_end v)" using clear_insert [OF clear1(2), of ?L] clear1(2) al(3) by (simp add: s2_def)
  show "areas_ok s'" using add_vma_ok(1) [OF R2, of ?R] clear2 al(2) D(4) R2 by (simp add: s' area_ok_def)
  have F3: "find_vma s' a = (if stop < vma_end v \<and> vma_contains ?R a then Some ?R else find_vma s2 a)"
    using add_vma_ok(2) [OF R2, of ?R a] clear2 al(2) D(4) by (simp add: s' area_ok_def)
  have "clip addr stop a v = (if a < addr then ?L else ?R)" using meet D(1) by (simp add: clip_def max_def min_def not_less)
  moreover have "vma_contains ?R a \<longleftrightarrow> stop \<le> a \<and> vma_contains v a" using meet(1) D(1) by (auto simp: vma_contains_def)
  ultimately show "find_vma s' a = (if vma_contains v a then if addr \<le> a \<and> a < stop then None else Some (clip addr stop a v) else find_vma s a)"
    using al(3) unfolding F3 F2 by (auto simp: vma_contains_def)
  show "bt_get (vmas s') j = bt_get (vmas s) j" if "j < stop" "j \<noteq> k"
    using that D(1) by (auto simp: s' s2_def s1_def)
  show "s' = s\<lparr>vmas := vmas s'\<rparr>" by (simp add: s' s2_def s1_def add_vma_def)
qed

lemma munmap_one_pages:
  assumes ok: "areas_ok s" and v: "bt_get (vmas s) k = Some v" and meet: "k < stop" "addr < vma_end v"
    and al: "page_aligned addr" "page_aligned stop" "addr \<le> stop" "unat stop \<le> 2 ^ 48"
    and inv: "pt_inv R used m (as_cr3 s)" and small: "\<forall>p. addr \<le> p \<longrightarrow> p < stop \<longrightarrow> small_page m (as_cr3 s) p"
    and eq: "munmap_one addr stop k (m, s) = (m', s')"
  shows "pt_inv R used m' (as_cr3 s)" "small_page m (as_cr3 s) u \<Longrightarrow> small_page m' (as_cr3 s) u"
    "unat w < 2 ^ 48 \<Longrightarrow> page_entry m' (as_cr3 s) w =
       (if vma_contains v w \<and> addr \<le> w \<and> w < stop then None else page_entry m (as_cr3 s) w)"
proof -
  note D = areas_okD [OF ok v]
  let ?a = "max (vma_start v) addr" and ?b = "min (vma_end v) stop"
  have m': "m' = unmap_pages (as_cr3 s) (page_list ?a ((?b - ?a) div PAGE_SIZE)) m"
    using eq by (simp add: munmap_one_eq [OF v])
  have "page_aligned ?a" "page_aligned ?b" "?a \<le> ?b" using D al meet by (auto simp: max_def min_def)
  moreover have "unat ?b \<le> 2 ^ 48"
  proof -
    have "?b \<le> stop" by simp
    with al(4) show ?thesis unfolding word_le_nat_alt by (rule le_trans [rotated])
  qed
  moreover have "small_page m (as_cr3 s) p" if "?a \<le> p" "p < ?b" for p using that small by simp
  ultimately have U: "pt_inv R used m' (as_cr3 s)" "small_page m (as_cr3 s) u \<Longrightarrow> small_page m' (as_cr3 s) u"
    "unat w < 2 ^ 48 \<Longrightarrow> page_entry m' (as_cr3 s) w = (if ?a \<le> w \<and> w < ?b then None else page_entry m (as_cr3 s) w)" for u w
    unfolding m' using unmap_range [OF inv] by blast+
  then show "pt_inv R used m' (as_cr3 s)" "small_page m (as_cr3 s) u \<Longrightarrow> small_page m' (as_cr3 s) u" by blast+
  show "unat w < 2 ^ 48 \<Longrightarrow> page_entry m' (as_cr3 s) w =
       (if vma_contains v w \<and> addr \<le> w \<and> w < stop then None else page_entry m (as_cr3 s) w)"
    using U(3) [of w] by (auto simp: vma_contains_def)
qed

text \<open>The areas after the range \<open>addr .. stop\<close> has been cut out of those that start in \<open>ks\<close>.\<close>

definition cut_area :: "u64 \<Rightarrow> u64 \<Rightarrow> u64 set \<Rightarrow> u64 \<Rightarrow> VirtualMemoryArea option \<Rightarrow> VirtualMemoryArea option" where
  "cut_area addr stop ks a r = (case r of None \<Rightarrow> None
     | Some v \<Rightarrow> if vma_start v \<in> ks then if addr \<le> a \<and> a < stop then None else Some (clip addr stop a v) else Some v)"

lemma munmap_fold_areas:
  assumes "areas_ok s" and "distinct ks" and "\<forall>k \<in> set ks. \<exists>v. bt_get (vmas s) k = Some v \<and> k < stop \<and> addr < vma_end v"
    and "page_aligned addr" "page_aligned stop" "addr \<le> stop" and "fold (munmap_one addr stop) ks (m, s) = (m', s')"
  shows "areas_ok s' \<and> s' = s\<lparr>vmas := vmas s'\<rparr> \<and> find_vma s' a = cut_area addr stop (set ks) a (find_vma s a)"
  using assms
proof (induction ks arbitrary: m s)
  case (Cons k ks)
  then obtain v where v: "bt_get (vmas s) k = Some v" "k < stop" "addr < vma_end v" by auto
  obtain m1 s1 where 1: "munmap_one addr stop k (m, s) = (m1, s1)" by force
  note A = munmap_one_areas [OF Cons.prems(1) v Cons.prems(4-6) 1]
  have keep: "bt_get (vmas s1) j = bt_get (vmas s) j" if "j \<in> set ks" for j
    using that Cons.prems(2,3) A(3) by fastforce
  have ks: "distinct ks" "\<forall>k \<in> set ks. \<exists>v. bt_get (vmas s1) k = Some v \<and> k < stop \<and> addr < vma_end v"
    using Cons.prems(2,3) keep by auto
  have run: "fold (munmap_one addr stop) ks (m1, s1) = (m', s')" using Cons.prems(7) 1 by simp
  note IH = Cons.IH [OF A(1) ks Cons.prems(4-6) run]
  have stop: "stop \<notin> set ks" "k \<notin> set ks" using Cons.prems(2,3) by auto
  have "cut_area addr stop (set ks) a (find_vma s1 a) = cut_area addr stop (set (k # ks)) a (find_vma s a)"
  proof (cases "vma_contains v a")
    case True
    then have "find_vma s a = Some v" "vma_start v = k" using find_vma_at [OF Cons.prems(1) v(1)] areas_okD(1) [OF Cons.prems(1) v(1)] by auto
    moreover have "vma_start (clip addr stop a v) \<notin> set ks"
      using stop v(2) \<open>vma_start v = k\<close> by (simp add: clip_def max_def)
    ultimately show ?thesis using True A(2) by (simp add: cut_area_def)
  next
    case False
    then have "vma_start w \<noteq> k" if "find_vma s a = Some w" for w
      using that v(1) areas_okD(1) [OF Cons.prems(1)] find_vma_Some [OF Cons.prems(1)] by (metis option.inject)
    with False A(2) show ?thesis by (simp add: cut_area_def split: option.split)
  qed
  moreover have "s' = s\<lparr>vmas := vmas s'\<rparr>"
  proof -
    have "s1\<lparr>vmas := x\<rparr> = s\<lparr>vmas := x\<rparr>" for x using A(4) by (cases s; cases s1) simp
    with IH show ?thesis by metis
  qed
  ultimately show ?case using IH by simp
qed (simp add: cut_area_def split: option.split)

lemma munmap_fold_pages:
  assumes "areas_ok s" and "distinct ks" and "\<forall>k \<in> set ks. \<exists>v. bt_get (vmas s) k = Some v \<and> k < stop \<and> addr < vma_end v"
    and "page_aligned addr" "page_aligned stop" "addr \<le> stop" "unat stop \<le> 2 ^ 48"
    and "pt_inv R used m (as_cr3 s)" and "\<forall>p. addr \<le> p \<longrightarrow> p < stop \<longrightarrow> small_page m (as_cr3 s) p"
    and "fold (munmap_one addr stop) ks (m, s) = (m', s')"
  shows "pt_inv R used m' (as_cr3 s)
    \<and> (unat a < 2 ^ 48 \<longrightarrow> page_entry m' (as_cr3 s) a =
        (if addr \<le> a \<and> a < stop \<and> (\<exists>k \<in> set ks. \<exists>v. bt_get (vmas s) k = Some v \<and> vma_contains v a) then None
         else page_entry m (as_cr3 s) a))"
  using assms
proof (induction ks arbitrary: m s)
  case (Cons k ks)
  then obtain v where v: "bt_get (vmas s) k = Some v" "k < stop" "addr < vma_end v" by auto
  obtain m1 s1 where 1: "munmap_one addr stop k (m, s) = (m1, s1)" by force
  note A = munmap_one_areas [OF Cons.prems(1) v Cons.prems(4-6) 1]
  note P = munmap_one_pages [OF Cons.prems(1) v Cons.prems(4-9) 1]
  have keep: "bt_get (vmas s1) j = bt_get (vmas s) j" if "j \<in> set ks" for j
    using that Cons.prems(2,3) A(3) by fastforce
  have cr3: "as_cr3 s1 = as_cr3 s" using A(4) by (cases s; cases s1) simp
  have ks: "distinct ks" "\<forall>k \<in> set ks. \<exists>v. bt_get (vmas s1) k = Some v \<and> k < stop \<and> addr < vma_end v"
    using Cons.prems(2,3) keep by auto
  have inv1: "pt_inv R used m1 (as_cr3 s1)" using P(1) cr3 by simp
  have small1: "\<forall>p. addr \<le> p \<longrightarrow> p < stop \<longrightarrow> small_page m1 (as_cr3 s1) p"
    using P(2) Cons.prems(9) cr3 by simp
  have run: "fold (munmap_one addr stop) ks (m1, s1) = (m', s')" using Cons.prems(10) 1 by simp
  have cut: "(\<exists>k \<in> set (k # ks). \<exists>w. bt_get (vmas s) k = Some w \<and> vma_contains w a) \<longleftrightarrow>
      (\<exists>k \<in> set ks. \<exists>w. bt_get (vmas s1) k = Some w \<and> vma_contains w a) \<or> vma_contains v a"
    using v(1) keep by auto
  show ?case unfolding cut using Cons.IH [OF A(1) ks Cons.prems(4-7) inv1 small1 run] P(3) [of a] unfolding cr3
    by (cases "vma_contains v a \<and> addr \<le> a \<and> a < stop") auto
qed simp

text \<open>The whole call: the areas that the range meets are those that start in the list it collects.\<close>

lemma munmap_keys:
  assumes ok: "areas_ok s"
  defines "ks lo hi \<equiv> map fst (filter (\<lambda>(_, v). vma_start v < hi \<and> lo < vma_end v) (vmas s))"
  shows "distinct (ks lo hi)"
    "k \<in> set (ks lo hi) \<longleftrightarrow> (\<exists>v. bt_get (vmas s) k = Some v \<and> k < hi \<and> lo < vma_end v)"
proof -
  note wf = areas_ok_wf [OF ok]
  show "distinct (ks lo hi)" using bt_wf_distinct [OF wf] by (simp add: ks_def distinct_map_filter)
  show "k \<in> set (ks lo hi) \<longleftrightarrow> (\<exists>v. bt_get (vmas s) k = Some v \<and> k < hi \<and> lo < vma_end v)"
    using areas_okD(1) [OF ok] by (force simp: ks_def bt_get_iff [OF wf] image_iff)
qed

lemma munmap_areas:
  fixes addr sz :: u64
  defines "a0 \<equiv> page_align_down addr" and "a1 \<equiv> page_align_down addr + page_align_up sz"
  assumes ok: "areas_ok s" and range: "a0 \<le> a1" and eq: "munmap addr sz m s = (m', s')"
  shows "areas_ok s'" "s' = s\<lparr>vmas := vmas s'\<rparr>"
    "find_vma s' a = (if a0 \<le> a \<and> a < a1 then None else map_option (clip a0 a1 a) (find_vma s a))"
proof -
  let ?ks = "map fst (filter (\<lambda>(_, v). vma_start v < a1 \<and> a0 < vma_end v) (vmas s))"
  note K = munmap_keys [OF ok, where lo = a0 and hi = a1]
  have al: "page_aligned a0" "page_aligned a1" unfolding a0_def a1_def by (simp_all add: page_aligned_add)
  have "\<forall>k \<in> set ?ks. \<exists>v. bt_get (vmas s) k = Some v \<and> k < a1 \<and> a0 < vma_end v" using K(2) by blast
  moreover have "fold (munmap_one a0 a1) ?ks (m, s) = (m', s')" using eq by (simp add: munmap_def a0_def a1_def Let_def)
  ultimately have F: "areas_ok s' \<and> s' = s\<lparr>vmas := vmas s'\<rparr> \<and> find_vma s' a = cut_area a0 a1 (set ?ks) a (find_vma s a)"
    using munmap_fold_areas [OF ok K(1) _ al range] by blast
  then show "areas_ok s'" "s' = s\<lparr>vmas := vmas s'\<rparr>" by blast+
  have "cut_area a0 a1 (set ?ks) a (Some v) = (if a0 \<le> a \<and> a < a1 then None else Some (clip a0 a1 a v))"
    if v: "find_vma s a = Some v" for v
  proof -
    obtain k where k: "bt_get (vmas s) k = Some v" "vma_contains v a" using v find_vma_Some [OF ok] by blast
    then have start: "vma_start v = k" using areas_okD(1) [OF ok] by blast
    show ?thesis
    proof (cases "k < a1 \<and> a0 < vma_end v")
      case True
      then show ?thesis using K(2) [of k] k(1) start by (auto simp: cut_area_def)
    next
      case False
      then have "clip a0 a1 a v = v" "\<not> (a0 \<le> a \<and> a < a1)" using k(2) start range by (auto simp: clip_def vma_contains_def)
      moreover have "k \<notin> set ?ks" using False K(2) [of k] k(1) by auto
      ultimately show ?thesis using start by (simp add: cut_area_def)
    qed
  qed
  with F show "find_vma s' a = (if a0 \<le> a \<and> a < a1 then None else map_option (clip a0 a1 a) (find_vma s a))"
    by (cases "find_vma s a") (auto simp: cut_area_def)
qed

lemma munmap_pages:
  fixes addr sz :: u64
  defines "a0 \<equiv> page_align_down addr" and "a1 \<equiv> page_align_down addr + page_align_up sz"
  assumes ok: "areas_ok s" and inv: "pt_inv R used m (as_cr3 s)" and range: "a0 \<le> a1" "unat a1 \<le> 2 ^ 48"
    and small: "\<forall>p. a0 \<le> p \<longrightarrow> p < a1 \<longrightarrow> small_page m (as_cr3 s) p"
    and eq: "munmap addr sz m s = (m', s')"
  shows "pt_inv R used m' (as_cr3 s)"
    "unat a < 2 ^ 48 \<Longrightarrow> page_entry m' (as_cr3 s) a =
       (if a0 \<le> a \<and> a < a1 \<and> find_vma s a \<noteq> None then None else page_entry m (as_cr3 s) a)"
proof -
  let ?ks = "map fst (filter (\<lambda>(_, v). vma_start v < a1 \<and> a0 < vma_end v) (vmas s))"
  note K = munmap_keys [OF ok, where lo = a0 and hi = a1]
  have al: "page_aligned a0" "page_aligned a1" unfolding a0_def a1_def by (simp_all add: page_aligned_add)
  have ks: "\<forall>k \<in> set ?ks. \<exists>v. bt_get (vmas s) k = Some v \<and> k < a1 \<and> a0 < vma_end v" using K(2) by blast
  have "fold (munmap_one a0 a1) ?ks (m, s) = (m', s')" using eq by (simp add: munmap_def a0_def a1_def Let_def)
  note F = munmap_fold_pages [OF ok K(1) ks al range inv small this]
  then show "pt_inv R used m' (as_cr3 s)" by blast
  have "(\<exists>k \<in> set ?ks. \<exists>v. bt_get (vmas s) k = Some v \<and> vma_contains v a) \<longleftrightarrow> find_vma s a \<noteq> None" if "a0 \<le> a" "a < a1"
  proof
    assume "find_vma s a \<noteq> None"
    then obtain k v where k: "bt_get (vmas s) k = Some v" "vma_contains v a" using find_vma_Some [OF ok] by fastforce
    with that areas_okD(1) [OF ok k(1)] have "k < a1" "a0 < vma_end v" by (auto simp: vma_contains_def)
    with k K(2) show "\<exists>k \<in> set ?ks. \<exists>v. bt_get (vmas s) k = Some v \<and> vma_contains v a" by blast
  qed (use find_vma_at [OF ok] in fastforce)
  then have "(a0 \<le> a \<and> a < a1 \<and> (\<exists>k \<in> set ?ks. \<exists>v. bt_get (vmas s) k = Some v \<and> vma_contains v a))
      = (a0 \<le> a \<and> a < a1 \<and> find_vma s a \<noteq> None)" by blast
  with F [of a] show "unat a < 2 ^ 48 \<Longrightarrow> page_entry m' (as_cr3 s) a =
       (if a0 \<le> a \<and> a < a1 \<and> find_vma s a \<noteq> None then None else page_entry m (as_cr3 s) a)"
    by (simp only:)
qed

section \<open>Finding room\<close>

lemma is_region_free_clear:
  assumes "areas_ok s"
  shows "is_region_free s a n \<longleftrightarrow> clear s a (a + n)"
proof -
  have "v \<in> set (bt_values (vmas s)) \<longleftrightarrow> (\<exists>k. bt_get (vmas s) k = Some v)" for v
    by (rule bt_values_iff [OF areas_ok_wf [OF assms]])
  with areas_okD(1) [OF assms] show ?thesis by (fastforce simp: is_region_free_def clear_def Let_def not_less)
qed

text \<open>A search over aligned candidates ends, and what it finds is free and not above its start.\<close>

lemma find_spot_returns:
  assumes al: "page_aligned addr" "page_aligned sz" and busy: "\<not> is_region_free s addr sz"
  shows "\<exists>r. find_spot s sz addr = Some r"
proof (cases "MMAP_REGION_START + sz = 0")
  case False
  have "page_aligned (MMAP_REGION_START + sz)"
    using al(2) by (intro page_aligned_add) (simp_all add: page_aligned_def MMAP_REGION_START_def)
  with False have big: "4096 \<le> unat (MMAP_REGION_START + sz)"
    using dvd_imp_le [of 4096 "unat (MMAP_REGION_START + sz)"] by (simp add: page_aligned_iff unat_gt_0)
  show ?thesis unfolding find_spot_def
  proof (rule measure_while_option_Some [where f = "\<lambda>(c, _). unat c" and P = "\<lambda>_. True"])
    fix r assume "case r of (c, found) \<Rightarrow> \<not> found \<and> MMAP_REGION_START + sz \<le> c"
    then obtain c where c: "r = (c, False)" "MMAP_REGION_START + sz \<le> c" by auto
    with big have "4096 \<le> unat c" unfolding word_le_nat_alt by linarith
    then have "unat (c - PAGE_SIZE) < unat c" by (simp add: unat_sub word_le_nat_alt PAGE_SIZE_def)
    with c(1) show "True \<and> (case case r of (c, _) \<Rightarrow> (c - PAGE_SIZE, is_region_free s (c - PAGE_SIZE) sz) of (c, _) \<Rightarrow> unat c)
        < (case r of (c, _) \<Rightarrow> unat c)" by simp
  qed simp
next
  case True
  then have sz: "sz = - MMAP_REGION_START" by (simp add: eq_neg_iff_add_eq_0 add.commute)
  have free: "is_region_free s MMAP_REGION_START sz" by (simp add: is_region_free_def Let_def sz)
  define P where "P = (\<lambda>(c, found). page_aligned c \<and> (\<not> found \<longrightarrow> c \<noteq> MMAP_REGION_START))"
  define f where "f = (\<lambda>(c, found). if found then 0 else unat (c - MMAP_REGION_START))"
  show ?thesis unfolding find_spot_def
  proof (rule measure_while_option_Some [where f = f and P = P])
    fix r assume P: "P r" and "case r of (c, found) \<Rightarrow> \<not> found \<and> MMAP_REGION_START + sz \<le> c"
    then obtain c where c: "r = (c, False)" "page_aligned c" "c \<noteq> MMAP_REGION_START" by (auto simp: P_def)
    have al: "page_aligned (c - PAGE_SIZE)" "page_aligned (c - MMAP_REGION_START)"
      by (rule page_aligned_diff [OF c(2)], simp add: page_aligned_def PAGE_SIZE_def MMAP_REGION_START_def)+
    with c(3) have "4096 \<le> unat (c - MMAP_REGION_START)"
      using dvd_imp_le [of 4096 "unat (c - MMAP_REGION_START)"] by (simp add: page_aligned_iff unat_gt_0)
    then have "unat (c - MMAP_REGION_START - PAGE_SIZE) < unat (c - MMAP_REGION_START)"
      by (simp add: unat_sub word_le_nat_alt PAGE_SIZE_def)
    moreover have "c - MMAP_REGION_START - PAGE_SIZE = c - PAGE_SIZE - MMAP_REGION_START" by simp
    ultimately show "P (case r of (c, _) \<Rightarrow> (c - PAGE_SIZE, is_region_free s (c - PAGE_SIZE) sz))
        \<and> f (case r of (c, _) \<Rightarrow> (c - PAGE_SIZE, is_region_free s (c - PAGE_SIZE) sz)) < f r"
      using c al free \<open>4096 \<le> unat (c - MMAP_REGION_START)\<close> by (auto simp: P_def f_def)
  qed (use al busy free in \<open>auto simp: P_def\<close>)
qed

lemma find_spot_free:
  assumes r: "find_spot s sz addr = Some (c, found)" and al: "page_aligned addr"
    and big: "4096 \<le> unat (MMAP_REGION_START + sz)"
  shows "page_aligned c" "c \<le> addr" "found \<Longrightarrow> is_region_free s c sz"
proof -
  define P where "P = (\<lambda>(c, found). page_aligned c \<and> c \<le> addr \<and> (found \<longrightarrow> is_region_free s c sz))"
  have "P (c, found)"
    using r unfolding find_spot_def
  proof (rule while_option_rule [where P = P, rotated])
    fix r assume P: "P r" and "case r of (c, found) \<Rightarrow> \<not> found \<and> MMAP_REGION_START + sz \<le> c"
    then obtain c where c: "r = (c, False)" "page_aligned c" "c \<le> addr" "MMAP_REGION_START + sz \<le> c" by (auto simp: P_def)
    then have "unat (c - PAGE_SIZE) \<le> unat c" using big by (simp add: unat_sub word_le_nat_alt PAGE_SIZE_def)
    moreover have "page_aligned (c - PAGE_SIZE)"
      using c(2) by (rule page_aligned_diff) (simp add: page_aligned_def PAGE_SIZE_def)
    ultimately show "P (case r of (c, _) \<Rightarrow> (c - PAGE_SIZE, is_region_free s (c - PAGE_SIZE) sz))"
      using c by (auto simp: P_def word_le_nat_alt)
  qed (simp add: P_def al)
  then show "page_aligned c" "c \<le> addr" "found \<Longrightarrow> is_region_free s c sz" by (auto simp: P_def)
qed

text \<open>The areas are well-formed and the next address of \<open>mmap\<close> is the start of a page.\<close>

definition space_ok :: "AddressSpace \<Rightarrow> bool" where
  "space_ok s \<longleftrightarrow> areas_ok s \<and> page_aligned (mmap_next s)"

lemma allocate_mmap_region_returns:
  assumes "page_aligned (mmap_next s)"
  shows "\<exists>r. allocate_mmap_region sz s = Some r"
proof -
  have "page_aligned (mmap_next s - page_align_up sz)" using assms by (intro page_aligned_diff) simp_all
  from find_spot_returns [OF this page_align_up_aligned [of sz], where s = "s\<lparr>mmap_next := mmap_next s - page_align_up sz\<rparr>"]
  have "is_region_free (s\<lparr>mmap_next := mmap_next s - page_align_up sz\<rparr>) (mmap_next s - page_align_up sz) (page_align_up sz)
    \<or> (\<exists>r. find_spot (s\<lparr>mmap_next := mmap_next s - page_align_up sz\<rparr>) (page_align_up sz) (mmap_next s - page_align_up sz) = Some r)"
    by blast
  then show ?thesis by (fastforce simp: allocate_mmap_region_def Let_def)
qed

lemma allocate_mmap_region_free:
  assumes al: "page_aligned (mmap_next s)" "page_aligned sz" and sz: "unat sz \<le> 2 ^ 47"
    and eq: "allocate_mmap_region sz s = Some (s', r)"
  shows "vmas s' = vmas s" "page_aligned (mmap_next s')" "r = Some v \<Longrightarrow> page_aligned v"
    "r = Some v \<Longrightarrow> v \<le> v + sz" "r = Some v \<Longrightarrow> is_region_free s v sz"
proof -
  have up: "page_align_up sz = sz"
    using al(2) sz by (simp add: word_unat_eq_iff unat_page_align_up page_aligned_iff) (auto elim!: dvdE)
  let ?b = "MMAP_REGION_START + sz" and ?s = "s\<lparr>mmap_next := mmap_next s - sz\<rparr>"
  have b: "unat ?b = 0x200000000000 + unat sz" using sz by (simp add: MMAP_REGION_START_def unat_word_ariths)
  have same: "is_region_free (s\<lparr>mmap_next := x\<rparr>) = is_region_free s" for x by (simp add: is_region_free_def fun_eq_iff)
  have "vmas s' = vmas s \<and> page_aligned (mmap_next s') \<and>
    (\<forall>v. r = Some v \<longrightarrow> page_aligned v \<and> v \<le> v + sz \<and> is_region_free s v sz)"
  proof (cases "mmap_next s < ?b")
    case True
    with eq al show ?thesis by (simp add: allocate_mmap_region_def up)
  next
    case room: False
    then have le: "unat sz \<le> unat (mmap_next s)" using b by (simp add: word_less_nat_alt)
    have al': "page_aligned (mmap_next s - sz)" using al by (rule page_aligned_diff)
    have wrap: "c \<le> c + sz" if "c \<le> mmap_next s - sz" for c
    proof -
      have "unat c + unat sz \<le> unat (mmap_next s)" using that le by (simp add: word_le_nat_alt unat_sub)
      then have "unat c + unat sz < 2 ^ 64" using unat_64 [of "mmap_next s"] by linarith
      then show ?thesis by (simp add: word_le_nat_alt unat_word_ariths)
    qed
    show ?thesis
    proof (cases "is_region_free ?s (mmap_next s - sz) sz")
      case True
      with room eq al' wrap [of "mmap_next s - sz"] show ?thesis
        by (auto simp: allocate_mmap_region_def up Let_def same)
    next
      case False
      with room eq obtain c found where c: "find_spot ?s sz (mmap_next s - sz) = Some (c, found)"
        "(s', r) = (if found then (?s\<lparr>mmap_next := c\<rparr>, Some c) else (?s, None))"
        by (auto simp: allocate_mmap_region_def up Let_def)
      note F = find_spot_free [OF c(1) al']
      show ?thesis using c(2) F wrap b al' by (auto simp: same split: if_splits)
    qed
  qed
  then show "vmas s' = vmas s" "page_aligned (mmap_next s')" "r = Some v \<Longrightarrow> page_aligned v"
    "r = Some v \<Longrightarrow> v \<le> v + sz" "r = Some v \<Longrightarrow> is_region_free s v sz" by blast+
qed

lemma mmap_choose_returns: "page_aligned (mmap_next s) \<Longrightarrow> \<exists>r. mmap_choose addr sz flags s = Some r"
  using allocate_mmap_region_returns by (auto simp: mmap_choose_def Let_def)

lemma mmap_choose_free:
  assumes al: "page_aligned (mmap_next s)" "page_aligned sz" and sz: "unat sz \<le> 2 ^ 47" "unat addr \<le> 2 ^ 47"
    and fx: "\<not> (map_fixed flags \<and> addr \<noteq> 0)" and eq: "mmap_choose addr sz flags s = Some (s', r)"
  shows "vmas s' = vmas s" "page_aligned (mmap_next s')" "r = Some v \<Longrightarrow> page_aligned v"
    "r = Some v \<Longrightarrow> v \<le> v + sz" "r = Some v \<Longrightarrow> is_region_free s v sz"
proof -
  have hint: "page_align_down addr \<le> page_align_down addr + sz"
  proof -
    have "unat (page_align_down addr) \<le> 2 ^ 47"
      using page_align_down_le [of addr] sz(2) by (simp add: word_le_nat_alt)
    with sz(1) show ?thesis by (simp add: word_le_nat_alt unat_word_ariths)
  qed
  have "vmas s' = vmas s \<and> page_aligned (mmap_next s') \<and>
    (\<forall>v. r = Some v \<longrightarrow> page_aligned v \<and> v \<le> v + sz \<and> is_region_free s v sz)"
  proof (cases "allocate_mmap_region sz s = Some (s', r)")
    case True
    from allocate_mmap_region_free [OF al sz(1) True] show ?thesis by blast
  next
    case False
    with fx eq have "s' = s" "r = Some (page_align_down addr)" "is_region_free s (page_align_down addr) sz"
      by (auto simp: mmap_choose_def Let_def split: if_splits)
    with hint al show ?thesis by simp
  qed
  then show "vmas s' = vmas s" "page_aligned (mmap_next s')" "r = Some v \<Longrightarrow> page_aligned v"
    "r = Some v \<Longrightarrow> v \<le> v + sz" "r = Some v \<Longrightarrow> is_region_free s v sz" by blast+
qed

section \<open>The operations on the areas\<close>

lemma populate_keeps: "populate rc prot ps m s = (m', s', b) \<Longrightarrow> s' = s\<lparr>owned_frames := owned_frames s'\<rparr>"
proof (induction ps arbitrary: m s)
  case (Cons p ps)
  obtain m1 r where a: "allocate_physical_frame rc m = (m1, r)" by force
  show ?case
  proof (cases r)
    case None
    with Cons.prems a show ?thesis by simp
  next
    case (Some f)
    with Cons.prems a obtain m2 where "populate rc prot ps m2 (s\<lparr>owned_frames := owned_frames s @ [f]\<rparr>) = (m', s', b)"
      by (auto simp: Let_def)
    from Cons.IH [OF this] show ?thesis by simp
  qed
qed simp

lemma add_pages_keeps: "add_pages rc ps m s = (m', s', b) \<Longrightarrow> s' = s\<lparr>owned_frames := owned_frames s'\<rparr>"
proof (induction ps arbitrary: m s)
  case (Cons p ps)
  obtain m1 r where a: "allocate_physical_frame rc m = (m1, r)" by force
  show ?case
  proof (cases r)
    case None
    with Cons.prems a show ?thesis by simp
  next
    case (Some f)
    with Cons.prems a obtain m2 where "add_pages rc ps m2 (s\<lparr>owned_frames := owned_frames s @ [f]\<rparr>) = (m', s', b)"
      by (auto simp: Let_def)
    from Cons.IH [OF this] show ?thesis by simp
  qed
qed simp

lemma same_areas:
  assumes "vmas s' = vmas s"
  shows "areas_ok s' = areas_ok s" "find_vma s' = find_vma s" "is_region_free s' = is_region_free s"
  using assms by (simp_all add: areas_ok_def find_vma_def is_region_free_def fun_eq_iff)

text \<open>The area that \<open>mmap_anonymous\<close> records.\<close>

definition mmap_area :: "u64 \<Rightarrow> u64 \<Rightarrow> ProtFlags \<Rightarrow> MmapFlags \<Rightarrow> VirtualMemoryArea" where
  "mmap_area v sz prot flags = \<lparr>vma_start = v, vma_end = v + sz, vma_prot = prot,
     vma_type = (if map_shared flags then Shared else Anonymous), vma_flags = flags, file_path = None,
     file_offset = 0, vma_cow = False, ref_count = 1\<rparr>"

definition user_request :: "u64 \<Rightarrow> u64 \<Rightarrow> MmapFlags \<Rightarrow> bool" where
  "user_request addr sz flags \<longleftrightarrow> \<not> (map_fixed flags \<and> addr \<noteq> 0) \<and> 0 < page_align_up sz
     \<and> unat (page_align_up sz) \<le> 2 ^ 47 \<and> unat addr \<le> 2 ^ 47"

lemma page_align_up_id: "page_aligned a \<Longrightarrow> page_align_up a = a"
proof -
  assume al: "page_aligned a"
  then have "unat a \<le> 2 ^ 64 - 4096" using frame_room [OF al] by simp
  with al show ?thesis by (auto simp: word_unat_eq_iff unat_page_align_up page_aligned_iff elim!: dvdE)
qed

lemma add_mmap_area:
  fixes prot :: ProtFlags and flags :: MmapFlags
  assumes ok: "space_ok s" and v: "page_aligned v" "page_aligned n" "0 < n" "v \<le> v + n" "is_region_free s v n"
  defines "s' \<equiv> add_vma (mmap_area v n prot flags) s"
  shows "space_ok s'" "v \<le> a \<Longrightarrow> a < v + n \<Longrightarrow> find_vma s a = None" "v < v + n"
    "find_vma s' = (\<lambda>a. if v \<le> a \<and> a < v + n then Some (mmap_area v n prot flags) else find_vma s a)"
proof -
  from ok have areas: "areas_ok s" by (simp add: space_ok_def)
  then have free: "clear s v (v + n)" using is_region_free_clear v(5) by blast
  show lt: "v < v + n" using v(3,4) by (simp add: less_le)
  show "find_vma s a = None" if "v \<le> a" "a < v + n"
    unfolding find_vma_None [OF areas] using that free areas_okD(1) [OF areas]
    by (fastforce simp: clear_def vma_contains_def)
  have "area_ok (v, mmap_area v n prot flags)" using v(1,2) lt by (simp add: area_ok_def mmap_area_def page_aligned_add)
  then show "space_ok s'" "find_vma s' = (\<lambda>a. if v \<le> a \<and> a < v + n then Some (mmap_area v n prot flags) else find_vma s a)"
    using add_vma_ok [OF areas, of "mmap_area v n prot flags"] free ok
    by (simp_all add: s'_def space_ok_def mmap_area_def vma_contains_def fun_eq_iff)
qed

lemma mmap_anonymous_areas:
  assumes ok: "space_ok s" and req: "user_request addr sz flags"
  obtains m' s' r where "mmap_anonymous rc addr sz prot flags m s = Some (m', s', r)" "space_ok s'"
    "r = None \<longrightarrow> find_vma s' = find_vma s"
    "\<forall>v. r = Some v \<longrightarrow> (\<forall>a. v \<le> a \<longrightarrow> a < v + page_align_up sz \<longrightarrow> find_vma s a = None) \<and> v < v + page_align_up sz
       \<and> find_vma s' = (\<lambda>a. if v \<le> a \<and> a < v + page_align_up sz then Some (mmap_area v (page_align_up sz) prot flags) else find_vma s a)"
proof -
  let ?n = "page_align_up sz"
  from ok have areas: "areas_ok s" and al: "page_aligned (mmap_next s)" by (simp_all add: space_ok_def)
  from req have n: "0 < ?n" "unat ?n \<le> 2 ^ 47" "unat addr \<le> 2 ^ 47" and fx: "\<not> (map_fixed flags \<and> addr \<noteq> 0)"
    by (simp_all add: user_request_def)
  obtain m1 denied where wx: "check_wx_violation m prot = (m1, denied)" by force
  obtain s1 r where c: "mmap_choose addr ?n flags s = Some (s1, r)" using mmap_choose_returns [OF al] by fastforce
  note C = mmap_choose_free [OF al page_align_up_aligned n(2,3) fx c]
  note S = same_areas [OF C(1)]
  have ok1: "space_ok s1" using areas C(2) S by (simp add: space_ok_def)
  show thesis
  proof (cases "denied \<or> r = None")
    case True
    with wx c ok ok1 S show thesis
      by (intro that [of m1 "if denied then s else s1" None]) (auto simp: mmap_anonymous_def Let_def)
  next
    case False
    then obtain v where r: "r = Some v" and allowed: "\<not> denied" by auto
    obtain m2 s2 b where pop: "(if map_populate flags then populate rc prot (page_list v (?n div PAGE_SIZE)) m1 s1 else (m1, s1, True)) = (m2, s2, b)"
      by (metis prod_cases3)
    then have "s2 = s1\<lparr>owned_frames := owned_frames s2\<rparr>"
      using populate_keeps [of rc prot "page_list v (?n div PAGE_SIZE)" m1 s1 m2 s2 b] by (auto split: if_splits)
    then have keep: "vmas s2 = vmas s" "mmap_next s2 = mmap_next s1" using C(1) by (cases s2; simp)+
    note S2 = same_areas [OF keep(1)]
    have ok2: "space_ok s2" using areas C(2) S2 keep by (simp add: space_ok_def)
    have "page_aligned v" "v \<le> v + ?n" "is_region_free s2 v ?n" using C(3-5) r S2 by auto
    note A = add_mmap_area [OF ok2 this(1) page_align_up_aligned n(1) this(2,3)]
    have eq: "mmap_anonymous rc addr sz prot flags m s =
        Some (if b then (m2, add_vma (mmap_area v ?n prot flags) s2, Some v) else (m2, s2, None))"
      using wx allowed c r pop by (simp add: mmap_anonymous_def mmap_area_def Let_def split: if_splits)
    show thesis
      by (rule that [of m2 "if b then add_vma (mmap_area v ?n prot flags) s2 else s2" "if b then Some v else None"])
        (use eq A ok2 S2 in \<open>auto simp: fun_eq_iff\<close>)
  qed
qed

lemma modify_area:
  assumes ok: "areas_ok s" and v: "bt_get (vmas s) k = Some v" and f: "vma_start (f v) = vma_start v" "vma_end (f v) = vma_end v"
  defines "s' \<equiv> s\<lparr>vmas := bt_modify k f (vmas s)\<rparr>"
  shows "areas_ok s'" "find_vma s' = (\<lambda>a. if vma_contains v a then Some (f v) else find_vma s a)"
proof -
  have get: "bt_get (vmas s') j = (if j = k then Some (f v) else bt_get (vmas s) j)" for j using v by (simp add: s'_def)
  show ok': "areas_ok s'"
    unfolding areas_ok_iff get
  proof (intro conjI allI impI)
    show "bt_wf (vmas s')" using areas_ok_wf [OF ok] by (simp add: s'_def)
    show "area_ok (j, w)" if "(if j = k then Some (f v) else bt_get (vmas s) j) = Some w" for j w
      using that ok v f by (auto simp: areas_ok_iff area_ok_def split: if_splits)
    show "vma_end w \<le> j'" if "(if j = k then Some (f v) else bt_get (vmas s) j) = Some w"
      "(if j' = k then Some (f v) else bt_get (vmas s) j') = Some w'" "j < j'" for j w j' w'
      using that areas_okD(5) [OF ok] v f by (auto split: if_splits)
  qed
  have sep: "\<not> vma_contains v a" if "bt_get (vmas s) j = Some w" "j \<noteq> k" "vma_contains w a" for j w a
    using find_vma_at [OF ok v, of a] find_vma_at [OF ok that(1,3)] areas_okD(1) [OF ok v] areas_okD(1) [OF ok that(1)] that(2)
    by auto
  show "find_vma s' = (\<lambda>a. if vma_contains v a then Some (f v) else find_vma s a)"
  proof
    fix a
    show "find_vma s' a = (if vma_contains v a then Some (f v) else find_vma s a)"
    proof (cases "vma_contains v a")
      case True
      then show ?thesis using find_vma_at [OF ok', of k "f v" a] get f by (simp add: vma_contains_def)
    next
      case False
      show ?thesis
      proof (cases "find_vma s a")
        case None
        then have "find_vma s' a = None"
          using False f unfolding find_vma_None [OF ok] find_vma_None [OF ok'] get by (auto simp: vma_contains_def)
        with False None show ?thesis by simp
      next
        case (Some w)
        then obtain j where j: "bt_get (vmas s) j = Some w" "vma_contains w a" using find_vma_Some [OF ok] by blast
        then have "j \<noteq> k" using v False by auto
        with j get find_vma_at [OF ok', of j w a] False Some show ?thesis by simp
      qed
    qed
  qed
qed

lemma as_file_extent: "vma_start (as_file path offset v) = vma_start v" "vma_end (as_file path offset v) = vma_end v"
  by (simp_all add: as_file_def)

lemma mmap_file_areas:
  assumes ok: "space_ok s" and req: "user_request addr sz flags"
  obtains m' s' r where "mmap_file rd rc addr sz prot flags path offset m s = Some (m', s', r)" "space_ok s'"
    "r = None \<longrightarrow> find_vma s' = find_vma s"
    "\<forall>v. r = Some v \<longrightarrow> (\<forall>a. v \<le> a \<longrightarrow> a < v + page_align_up sz \<longrightarrow> find_vma s a = None) \<and> v < v + page_align_up sz
       \<and> find_vma s' = (\<lambda>a. if v \<le> a \<and> a < v + page_align_up sz
            then Some (as_file path offset (mmap_area v (page_align_up sz) prot flags)) else find_vma s a)"
proof (rule mmap_anonymous_areas [OF ok req, where rc = rc and prot = prot and m = m])
  fix m1 s1 r
  assume 1: "mmap_anonymous rc addr sz prot flags m s = Some (m1, s1, r)" and ok1: "space_ok s1"
    and none: "r = None \<longrightarrow> find_vma s1 = find_vma s"
    and some: "\<forall>v. r = Some v \<longrightarrow> (\<forall>a. v \<le> a \<longrightarrow> a < v + page_align_up sz \<longrightarrow> find_vma s a = None) \<and> v < v + page_align_up sz
       \<and> find_vma s1 = (\<lambda>a. if v \<le> a \<and> a < v + page_align_up sz then Some (mmap_area v (page_align_up sz) prot flags) else find_vma s a)"
  show thesis
  proof (cases r)
    case None
    with 1 ok1 none show thesis by (intro that [of m1 s1 None]) (simp_all add: mmap_file_def)
  next
    case (Some v)
    let ?area = "mmap_area v (page_align_up sz) prot flags"
    let ?s = "s1\<lparr>vmas := bt_modify v (as_file path offset) (vmas s1)\<rparr>"
    have areas1: "areas_ok s1" using ok1 by (simp add: space_ok_def)
    have lt: "v < v + page_align_up sz" and new: "find_vma s1 v = Some ?area" using some Some by simp_all
    have key: "find_vma_key s1 v = Some v" using new by (simp add: find_vma_key_eq [OF areas1] mmap_area_def)
    obtain k where "bt_get (vmas s1) k = Some ?area" using new find_vma_Some [OF areas1] by blast
    moreover from areas_okD(1) [OF areas1 this] have "k = v" by (simp add: mmap_area_def)
    ultimately have get: "bt_get (vmas s1) v = Some ?area" by simp
    note M = modify_area [OF areas1 get, of "as_file path offset", OF as_file_extent]
    have in_area: "vma_contains ?area a \<longleftrightarrow> v \<le> a \<and> a < v + page_align_up sz" for a by (simp add: mmap_area_def vma_contains_def)
    obtain m2 where "mmap_file rd rc addr sz prot flags path offset m s = Some (m2, ?s, Some v)"
      using 1 Some key by (simp add: mmap_file_def Let_def)
    moreover have "find_vma ?s = (\<lambda>a. if v \<le> a \<and> a < v + page_align_up sz then Some (as_file path offset ?area) else find_vma s a)"
      using M(2) some Some by (auto simp: in_area fun_eq_iff)
    moreover have "space_ok ?s" using M(1) ok1 by (simp add: space_ok_def)
    ultimately show thesis using some Some by (intro that [of m2 ?s "Some v"]) simp_all
  qed
qed

lemma mprotect_areas:
  assumes ok: "space_ok s" and eq: "mprotect addr sz prot m s = (m', s', b)"
  shows "space_ok s'" "\<not> b \<Longrightarrow> find_vma s' = find_vma s"
    "b \<Longrightarrow> \<exists>v. find_vma s (page_align_down addr) = Some v \<and> page_align_down addr + page_align_up sz \<le> vma_end v
       \<and> find_vma s' = (\<lambda>a. if vma_contains v a then Some (v\<lparr>vma_prot := prot\<rparr>) else find_vma s a)"
proof -
  have areas: "areas_ok s" using ok by (simp add: space_ok_def)
  have "space_ok s' \<and> (\<not> b \<longrightarrow> s' = s) \<and>
    (b \<longrightarrow> (\<exists>v. find_vma s (page_align_down addr) = Some v \<and> page_align_down addr + page_align_up sz \<le> vma_end v
       \<and> find_vma s' = (\<lambda>a. if vma_contains v a then Some (v\<lparr>vma_prot := prot\<rparr>) else find_vma s a)))"
  proof (cases b)
    case False
    with eq have "s' = s"
      by (auto simp: mprotect_def Let_def split: prod.splits if_splits option.splits)
    with ok False show ?thesis by simp
  next
    case True
    with eq obtain k v where k: "find_vma_key s (page_align_down addr) = Some k" "bt_get (vmas s) k = Some v"
      "page_align_down addr + page_align_up sz \<le> vma_end v" "s' = s\<lparr>vmas := bt_modify k (\<lambda>v. v\<lparr>vma_prot := prot\<rparr>) (vmas s)\<rparr>"
      by (auto simp: mprotect_def Let_def split: prod.splits if_splits option.splits Option.bind_splits)
    from k(1) obtain w where w: "find_vma s (page_align_down addr) = Some w" "vma_start w = k"
      by (auto simp: find_vma_key_eq [OF areas])
    moreover have "w = v" using w k(2) find_vma_Some [OF areas] areas_okD(1) [OF areas] by (metis option.inject)
    ultimately show ?thesis
      using modify_area [OF areas k(2), of "\<lambda>v. v\<lparr>vma_prot := prot\<rparr>"] k(3,4) ok True by (auto simp: space_ok_def)
  qed
  then show "space_ok s'" "\<not> b \<Longrightarrow> find_vma s' = find_vma s"
    "b \<Longrightarrow> \<exists>v. find_vma s (page_align_down addr) = Some v \<and> page_align_down addr + page_align_up sz \<le> vma_end v
       \<and> find_vma s' = (\<lambda>a. if vma_contains v a then Some (v\<lparr>vma_prot := prot\<rparr>) else find_vma s a)" by auto
qed

text \<open>The program break and the page faults leave the areas alone.\<close>

lemma brk_keeps: "brk rc b m s = (m', s', r) \<Longrightarrow> vmas s' = vmas s \<and> mmap_next s' = mmap_next s"
proof -
  assume eq: "brk rc b m s = (m', s', r)"
  let ?ps = "page_list (page_align_up (as_brk s)) ((page_align_up (page_align_up b) - page_align_up (as_brk s)) div PAGE_SIZE)"
  obtain m1 s1 c where a: "add_pages rc ?ps m s = (m1, s1, c)" by (metis prod_cases3)
  have "vmas s1 = vmas s" "mmap_next s1 = mmap_next s" using add_pages_keeps [OF a] by (cases s1; simp)+
  with eq a show ?thesis by (auto simp: brk_def Let_def split: if_splits bool.splits)
qed

lemma cow_fault_keeps: "handle_cow_fault rc a m s = (m', s', r) \<Longrightarrow> vmas s' = vmas s \<and> mmap_next s' = mmap_next s"
  by (auto simp: handle_cow_fault_def Let_def split: option.splits prod.splits)

lemma demand_fault_keeps: "handle_demand_fault rd rc a m s = (m', s', r) \<Longrightarrow> vmas s' = vmas s \<and> mmap_next s' = mmap_next s"
  by (auto simp: handle_demand_fault_def Let_def split: option.splits prod.splits if_splits)

lemma same_space: "space_ok s \<Longrightarrow> vmas s' = vmas s \<and> mmap_next s' = mmap_next s \<Longrightarrow> space_ok s' \<and> find_vma s' = find_vma s"
  using same_areas [of s' s] by (simp add: space_ok_def)

section \<open>Areas as a map from addresses\<close>

datatype as_op = Mmap u64 u64 ProtFlags MmapFlags | MmapFile u64 u64 ProtFlags MmapFlags string u64
  | Munmap u64 u64 | Mprotect u64 u64 ProtFlags | Brk u64 | CowFault u64 | DemandFault u64

datatype as_out = Mapped "u64 option" | Unmapped | Changed bool | NewBrk u64 | Handled bool | Hangs

fun as_step :: "(string \<Rightarrow> u64 \<Rightarrow> u8 list) \<Rightarrow> 'x vm_reclaim \<Rightarrow> as_op \<Rightarrow> 'x vm \<times> AddressSpace
    \<Rightarrow> ('x vm \<times> AddressSpace) \<times> as_out" where
  "as_step rd rc (Mmap addr sz prot flags) (m, s) =
     (case mmap_anonymous rc addr sz prot flags m s of None \<Rightarrow> ((m, s), Hangs) | Some (m', s', r) \<Rightarrow> ((m', s'), Mapped r))"
| "as_step rd rc (MmapFile addr sz prot flags path offset) (m, s) =
     (case mmap_file rd rc addr sz prot flags path offset m s of None \<Rightarrow> ((m, s), Hangs) | Some (m', s', r) \<Rightarrow> ((m', s'), Mapped r))"
| "as_step rd rc (Munmap addr sz) (m, s) = (munmap addr sz m s, Unmapped)"
| "as_step rd rc (Mprotect addr sz prot) (m, s) = (case mprotect addr sz prot m s of (m', s', b) \<Rightarrow> ((m', s'), Changed b))"
| "as_step rd rc (Brk b) (m, s) = (case brk rc b m s of (m', s', r) \<Rightarrow> ((m', s'), NewBrk r))"
| "as_step rd rc (CowFault a) (m, s) = (case handle_cow_fault rc a m s of (m', s', b) \<Rightarrow> ((m', s'), Handled b))"
| "as_step rd rc (DemandFault a) (m, s) = (case handle_demand_fault rd rc a m s of (m', s', b) \<Rightarrow> ((m', s'), Handled b))"

text \<open>A mapping answers with a range that no area covered, and that range gets the new area.\<close>

definition map_range :: "(u64 \<Rightarrow> VirtualMemoryArea) \<Rightarrow> u64 \<Rightarrow> u64 option \<Rightarrow> (u64 \<Rightarrow> VirtualMemoryArea option)
    \<Rightarrow> (u64 \<Rightarrow> VirtualMemoryArea option) option" where
  "map_range area n r M = (case r of None \<Rightarrow> Some M
     | Some v \<Rightarrow> if v < v + n \<and> (\<forall>a. v \<le> a \<longrightarrow> a < v + n \<longrightarrow> M a = None)
         then Some (\<lambda>a. if v \<le> a \<and> a < v + n then Some (area v) else M a) else None)"

text \<open>
  The specification: what each answer means for the map from addresses to areas. The answer
  \<open>Hangs\<close> is never allowed.
\<close>

fun as_spec :: "as_op \<Rightarrow> as_out \<Rightarrow> (u64 \<Rightarrow> VirtualMemoryArea option) \<Rightarrow> (u64 \<Rightarrow> VirtualMemoryArea option) option" where
  "as_spec (Mmap addr sz prot flags) (Mapped r) M =
     map_range (\<lambda>v. mmap_area v (page_align_up sz) prot flags) (page_align_up sz) r M"
| "as_spec (MmapFile addr sz prot flags path offset) (Mapped r) M =
     map_range (\<lambda>v. as_file path offset (mmap_area v (page_align_up sz) prot flags)) (page_align_up sz) r M"
| "as_spec (Munmap addr sz) Unmapped M =
     (let lo = page_align_down addr; hi = lo + page_align_up sz in
      Some (\<lambda>a. if lo \<le> a \<and> a < hi then None else map_option (clip lo hi a) (M a)))"
| "as_spec (Mprotect addr sz prot) (Changed b) M =
     (if \<not> b then Some M
      else case M (page_align_down addr) of None \<Rightarrow> None
      | Some v \<Rightarrow> if page_align_down addr + page_align_up sz \<le> vma_end v
          then Some (\<lambda>a. if vma_contains v a then Some (v\<lparr>vma_prot := prot\<rparr>) else M a) else None)"
| "as_spec (Brk b) (NewBrk r) M = Some M"
| "as_spec (CowFault a) (Handled b) M = Some M"
| "as_spec (DemandFault a) (Handled b) M = Some M"
| "as_spec _ _ M = None"

fun as_op_ok :: "as_op \<Rightarrow> bool" where
  "as_op_ok (Mmap addr sz prot flags) \<longleftrightarrow> user_request addr sz flags"
| "as_op_ok (MmapFile addr sz prot flags path offset) \<longleftrightarrow> user_request addr sz flags"
| "as_op_ok (Munmap addr sz) \<longleftrightarrow> page_align_down addr \<le> page_align_down addr + page_align_up sz"
| "as_op_ok _ \<longleftrightarrow> True"

lemma as_step_simulates:
  assumes ok: "space_ok (snd ms)" and op: "as_op_ok op" and eq: "as_step rd rc op ms = (ms', out)"
  shows "space_ok (snd ms') \<and> as_spec op out (find_vma (snd ms)) = Some (find_vma (snd ms'))"
proof -
  obtain m s where ms: "ms = (m, s)" by force
  obtain m' s' where ms': "ms' = (m', s')" by force
  note D = ok [unfolded ms, simplified] eq [unfolded ms ms']
  show ?thesis
  proof (cases op)
    case (Mmap addr sz prot flags)
    show ?thesis
    proof (rule mmap_anonymous_areas [OF D(1), of addr sz flags rc prot m])
      show "user_request addr sz flags" using op Mmap by simp
      fix m1 s1 r assume 1: "mmap_anonymous rc addr sz prot flags m s = Some (m1, s1, r)" "space_ok s1"
        "r = None \<longrightarrow> find_vma s1 = find_vma s"
        "\<forall>v. r = Some v \<longrightarrow> (\<forall>a. v \<le> a \<longrightarrow> a < v + page_align_up sz \<longrightarrow> find_vma s a = None) \<and> v < v + page_align_up sz
          \<and> find_vma s1 = (\<lambda>a. if v \<le> a \<and> a < v + page_align_up sz then Some (mmap_area v (page_align_up sz) prot flags) else find_vma s a)"
      then have "m' = m1" "s' = s1" "out = Mapped r" using D(2) Mmap by simp_all
      with 1(2-4) Mmap show ?thesis unfolding ms ms' by (cases r) (simp_all add: map_range_def)
    qed
  next
    case (MmapFile addr sz prot flags path offset)
    show ?thesis
    proof (rule mmap_file_areas [OF D(1), of addr sz flags rd rc prot path offset m])
      show "user_request addr sz flags" using op MmapFile by simp
      fix m1 s1 r assume 1: "mmap_file rd rc addr sz prot flags path offset m s = Some (m1, s1, r)" "space_ok s1"
        "r = None \<longrightarrow> find_vma s1 = find_vma s"
        "\<forall>v. r = Some v \<longrightarrow> (\<forall>a. v \<le> a \<longrightarrow> a < v + page_align_up sz \<longrightarrow> find_vma s a = None) \<and> v < v + page_align_up sz
          \<and> find_vma s1 = (\<lambda>a. if v \<le> a \<and> a < v + page_align_up sz
              then Some (as_file path offset (mmap_area v (page_align_up sz) prot flags)) else find_vma s a)"
      then have "m' = m1" "s' = s1" "out = Mapped r" using D(2) MmapFile by simp_all
      with 1(2-4) MmapFile show ?thesis unfolding ms ms' by (cases r) (simp_all add: map_range_def)
    qed
  next
    case (Munmap addr sz)
    with D(2) have eq: "munmap addr sz m s = (m', s')" "out = Unmapped" by simp_all
    have areas: "areas_ok s" using D(1) by (simp add: space_ok_def)
    have range: "page_align_down addr \<le> page_align_down addr + page_align_up sz" using op Munmap by simp
    note A = munmap_areas [OF areas range eq(1)]
    have "mmap_next s' = mmap_next s" using A(2) by (cases s; cases s') simp
    with A(1) D(1) have "space_ok s'" by (simp add: space_ok_def)
    with A(3) Munmap eq(2) show ?thesis unfolding ms ms' by (simp add: fun_eq_iff Let_def)
  next
    case (Mprotect addr sz prot)
    with D(2) obtain b where "mprotect addr sz prot m s = (m', s', b)" "out = Changed b"
      by (auto split: prod.splits)
    with mprotect_areas [OF D(1) this(1)] Mprotect show ?thesis unfolding ms ms' by auto
  next
    case (Brk b)
    with D(2) obtain r where "brk rc b m s = (m', s', r)" "out = NewBrk r" by (auto split: prod.splits)
    with same_space [OF D(1) brk_keeps [OF this(1)]] Brk show ?thesis unfolding ms ms' by simp
  next
    case (CowFault a)
    with D(2) obtain r where "handle_cow_fault rc a m s = (m', s', r)" "out = Handled r" by (auto split: prod.splits)
    with same_space [OF D(1) cow_fault_keeps [OF this(1)]] CowFault show ?thesis unfolding ms ms' by simp
  next
    case (DemandFault a)
    with D(2) obtain r where "handle_demand_fault rd rc a m s = (m', s', r)" "out = Handled r" by (auto split: prod.splits)
    with same_space [OF D(1) demand_fault_keeps [OF this(1)]] DemandFault show ?thesis unfolding ms ms' by simp
  qed
qed

interpretation areas: simulation "as_step rd rc" as_spec "\<lambda>ms. find_vma (snd ms)" "\<lambda>ms. space_ok (snd ms)" as_op_ok for rd rc
  by unfold_locales (rule as_step_simulates)

section \<open>Properties\<close>


text \<open>A stack area, two mappings of which the second meets the first, and an unmapping.\<close>

definition as_demo :: AddressSpace where
  "as_demo = \<lparr>as_pid = 1, as_cr3 = 0x1000, vmas = [(0x6FFFFFFFE000, mmap_area 0x6FFFFFFFE000 0x1000 ProtFlags_R
       \<lparr>map_shared = False, map_anonymous = True, map_fixed = False, map_populate = False\<rparr>)],
     as_brk = 0x40000000, mmap_next = 0x700000000000, owned_frames = [], cow_pages = []\<rparr>"

definition as_demo_ops :: "as_op list" where
  "as_demo_ops =
     [Mmap 0 0x3000 ProtFlags_RW \<lparr>map_shared = False, map_anonymous = True, map_fixed = False, map_populate = False\<rparr>,
      Munmap 0x6FFFFFFFB000 0x1000]"

lemma as_demo_ok: "space_ok as_demo"
  by (simp add: space_ok_def areas_ok_def area_ok_def as_demo_def mmap_area_def bt_wf_def page_aligned_def)

lemma as_demo_ops_ok: "list_all as_op_ok as_demo_ops"
  by (simp add: as_demo_ops_def user_request_def page_align_up_def page_align_down_def PAGE_SIZE_def)

definition vm_demo :: Vm where
  "vm_demo = \<lparr>phys_mem = (\<lambda>_. 0), frame_pool = PhysicalFramePool_new, phys_mem_offset = 1, kernel_cr3 = 0x1000,
     kernel_l4_template = 0, swap_manager = SwapManager_new, aslr_seed = 1, wx_policy = Strict, wx_violations = 0\<rparr>"

lemma as_demo_mmap:
  "mmap_anonymous (id, id, id) 0 0x3000 ProtFlags_RW
     \<lparr>map_shared = False, map_anonymous = True, map_fixed = False, map_populate = False\<rparr> vm_demo as_demo =
   Some (vm_demo, add_vma (mmap_area 0x6FFFFFFFB000 0x3000 ProtFlags_RW
     \<lparr>map_shared = False, map_anonymous = True, map_fixed = False, map_populate = False\<rparr>) (as_demo\<lparr>mmap_next := 0x6FFFFFFFB000\<rparr>), Some 0x6FFFFFFFB000)"
  by (simp add: mmap_anonymous_def check_wx_violation_def ProtFlags_RW_def mmap_choose_def allocate_mmap_region_def
      find_spot_def while_option_unfold is_region_free_def bt_values_def as_demo_def mmap_area_def
      page_align_up_def PAGE_SIZE_def MMAP_REGION_START_def Let_def)


end
