(* ===== verification/Copy_On_Write.thy ===== *)
theory Copy_On_Write
  imports Address_Space
begin

text \<open>
  What \<open>fork\<close> and the page faults of \<open>space.rs\<close> do to the memory two processes see: the lemmas
  about two trees of page tables in one physical memory, the image a process has of its memory,
  and the theorems on sharing, copy on write and demand paging.
\<close>

section \<open>The memory a process sees\<close>

definition mem_view :: "'e Machine_scheme \<Rightarrow> u64 \<Rightarrow> u64 \<Rightarrow> u8 option" where
  "mem_view m cr3 a = map_option (\<lambda>e. phys_mem m (entry_addr e + of_nat (offset_of a))) (page_entry m cr3 a)"

text \<open>It is what \<open>read_user_memory\<close> reads.\<close>

lemma mem_view_user_byte: "pt_wf m cr3 \<Longrightarrow> mem_view m cr3 a = Some b \<Longrightarrow> user_byte m cr3 a = b"
  by (auto simp: mem_view_def user_byte_def phys_of_entry)

definition mapped_in :: "nat set \<Rightarrow> 'e Machine_scheme \<Rightarrow> u64 \<Rightarrow> bool" where
  "mapped_in D m cr3 \<longleftrightarrow> (\<forall>w e. page_entry m cr3 w = Some e \<longrightarrow> pfn (entry_addr e) \<in> D)"

lemma keeps_byte:
  assumes "keeps_frames D m m'" and "pfn (entry_addr e) \<in> D"
  shows "phys_mem m' (entry_addr e + of_nat (offset_of a)) = phys_mem m (entry_addr e + of_nat (offset_of a))"
  using assms pfn_offset [OF entry_addr_aligned offset_less, of e a] by (simp add: keeps_frames_def)

lemma mem_view_keeps:
  assumes "keeps_frames D m m'" and "mapped_in D m cr3" and "page_entry m' cr3 a = page_entry m cr3 a"
  shows "mem_view m' cr3 a = mem_view m cr3 a"
proof (cases "page_entry m cr3 a")
  case (Some e)
  with assms(2) have "pfn (entry_addr e) \<in> D" by (auto simp: mapped_in_def)
  with assms Some show ?thesis by (simp add: mem_view_def keeps_byte)
qed (use assms in \<open>simp add: mem_view_def\<close>)

text \<open>A page shown through another entry with the same frame.\<close>

lemma mem_view_same_frame:
  assumes "keeps_frames D m m'" and "page_entry m cr3 a = Some e" "pfn (entry_addr e) \<in> D"
    and "page_entry m' c a = Some e'" "entry_addr e' = entry_addr e"
  shows "mem_view m' c a = mem_view m cr3 a"
  using assms by (simp add: mem_view_def keeps_byte)

section \<open>Flags\<close>

lemma prot_flags [simp]:
  "flags_contain (to_page_flags p) PRESENT" "to_page_flags p AND 0x000FFFFFFFFFF000 = 0"
  "flags_contain (to_page_flags p) WRITABLE \<longleftrightarrow> prot_write p"
  by (simp_all add: to_page_flags_def flag_defs Let_def)

lemma cow_flags_facts [simp]:
  "flags_contain (cow_flags p) PRESENT" "cow_flags p AND 0x000FFFFFFFFFF000 = 0" "\<not> flags_contain (cow_flags p) WRITABLE"
  by (simp_all add: cow_flags_def to_page_flags_def flag_defs Let_def)

lemma entry_addr_frame_addr [simp]: "frame_addr (entry_addr e)"
proof -
  have "entry_addr e = take_bit 52 (entry_addr e)"
    unfolding entry_addr_def addr_mask by (rule bit_word_eqI) (auto simp: bit_simps)
  then have "unat (entry_addr e) < 2 ^ 52"
    by (metis take_bit_nat_less_exp unsigned_take_bit_eq)
  then show ?thesis by (simp add: frame_addr_def)
qed

lemma entry_addr_reflag [simp]:
  "entry_addr (set_addr (entry_addr e) (cow_flags p)) = entry_addr e"
  "entry_addr (set_addr (entry_addr e) (to_page_flags p)) = entry_addr e"
  by (simp_all add: entry_addr_set)

section \<open>Two trees in one memory\<close>

definition two_trees :: "('e \<Rightarrow> nat multiset) \<Rightarrow> nat set \<Rightarrow> 'e Machine_scheme \<Rightarrow> u64 \<Rightarrow> u64 \<Rightarrow> bool" where
  "two_trees R D m p c \<longleftrightarrow> pt_wf m p \<and> pt_wf m c \<and> apart R m (D \<union> pfn ` tables m p \<union> pfn ` tables m c)
     \<and> D \<inter> pfn ` tables m p = {} \<and> D \<inter> pfn ` tables m c = {} \<and> pfn ` tables m p \<inter> pfn ` tables m c = {}"

lemma two_trees_sym: "two_trees R D m p c \<Longrightarrow> two_trees R D m c p"
  by (auto simp: two_trees_def Un_ac)

lemma two_trees_inv: "two_trees R D m p c \<Longrightarrow> pt_inv R (D \<union> pfn ` tables m c) m p"
  by (auto simp: two_trees_def pt_inv_def Un_ac)

text \<open>An operation on one tree that spares the frames of the other.\<close>

lemma two_trees_step:
  assumes tt: "two_trees R D m p c" and inv: "pt_inv R (D \<union> pfn ` tables m p) m' c"
    and k: "keeps_frames (D \<union> pfn ` tables m p) m m'"
  shows "two_trees R D m' p c" "page_entry m' p = page_entry m p" "small_page m p v \<Longrightarrow> small_page m' p v"
    "keeps_frames D m m'"
proof -
  from tt have wf: "pt_wf m p" by (simp add: two_trees_def)
  have "phys_mem_offset m' \<noteq> 0" using inv by (simp add: pt_inv_def pt_wf_def)
  note T = keeps_tree [OF wf k _ this]
  show "page_entry m' p = page_entry m p" "small_page m p v \<Longrightarrow> small_page m' p v" using T(3,4) by simp_all
  show "keeps_frames D m m'" using k by (simp add: keeps_frames_def)
  show "two_trees R D m' p c"
    using tt inv T(1,2) by (auto simp: two_trees_def pt_inv_def Un_ac)
qed

lemma inv_offset: "pt_inv R used m c \<Longrightarrow> phys_mem_offset m \<noteq> 0"
  by (simp add: pt_inv_def pt_wf_def)

section \<open>Sharing one page\<close>

lemma update_flags_frame:
  assumes "pt_inv R used m cr3" and "small_page m cr3 v"
  shows "small_page m cr3 w \<Longrightarrow> small_page (update_page_flags_in_table m cr3 v fl) cr3 w"
    "free_frames (update_page_flags_in_table m cr3 v fl) = free_frames m"
  using find_l1_frame [OF assms] by (simp_all add: update_page_flags_in_table_def Let_def split: option.split)

text \<open>What \<open>fork\<close> makes of an entry of the parent: the same frame with new flags.\<close>

definition reflag :: "u64 \<Rightarrow> u64 option \<Rightarrow> u64 option" where
  "reflag fl = map_option (\<lambda>e. set_addr (entry_addr e) fl)"

definition shared_step ::
  "('e \<Rightarrow> nat multiset) \<Rightarrow> nat set \<Rightarrow> u64 \<Rightarrow> u64 \<Rightarrow> nat \<Rightarrow> 'e Machine_scheme \<Rightarrow> 'e Machine_scheme \<Rightarrow> bool" where
  "shared_step R D p c k m m' \<longleftrightarrow> two_trees R D m' p c \<and> keeps_frames D m m' \<and> free_frames m \<le> k + free_frames m'
     \<and> (\<forall>u. small_page m p u \<longrightarrow> small_page m' p u) \<and> (\<forall>u. small_page m c u \<longrightarrow> small_page m' c u)"

lemma shared_step_refl: "two_trees R D m p c \<Longrightarrow> shared_step R D p c k m m"
  by (simp add: shared_step_def)

lemma shared_step_trans:
  "shared_step R D p c k m n \<Longrightarrow> shared_step R D p c l n m' \<Longrightarrow> shared_step R D p c (k + l) m m'"
  by (auto simp: shared_step_def intro: keeps_frames_trans)

lemma share_page_step:
  assumes tt: "two_trees R D m p (as_cr3 child)" and rc: "reclaim_ok R rc"
    and small: "small_page m p v" "small_page m (as_cr3 child) v"
    and fl: "flags_contain fl PRESENT" and free: "3 \<le> free_frames m"
    and eq: "share_page rc p fl (m, child) v = (m', child')"
  shows "shared_step R D p (as_cr3 child) 3 m m'"
    "page_entry m' p w = (if page_path w = page_path v then reflag fl (page_entry m p w) else page_entry m p w)"
    "page_entry m' (as_cr3 child) w = (if page_path w = page_path v \<and> page_entry m p w \<noteq> None
        then reflag fl (page_entry m p w) else page_entry m (as_cr3 child) w)"
    "child' = child\<lparr>cow_pages := (case page_entry m p v of None \<Rightarrow> cow_pages child | Some e \<Rightarrow> bt_insert v (entry_addr e) (cow_pages child))\<rparr>"
proof -
  let ?c = "as_cr3 child"
  have wf: "pt_wf m p" using tt by (simp add: two_trees_def)
  have path: "page_entry m p w = page_entry m p v" if "page_path w = page_path v" for w
    using that by (rule page_entry_path)
  have "shared_step R D p ?c 3 m m'
    \<and> page_entry m' p w = (if page_path w = page_path v then reflag fl (page_entry m p w) else page_entry m p w)
    \<and> page_entry m' ?c w = (if page_path w = page_path v \<and> page_entry m p w \<noteq> None then reflag fl (page_entry m p w) else page_entry m ?c w)
    \<and> child' = child\<lparr>cow_pages := (case page_entry m p v of None \<Rightarrow> cow_pages child | Some e \<Rightarrow> bt_insert v (entry_addr e) (cow_pages child))\<rparr>"
  proof (cases "page_entry m p v")
    case None
    from page_entry_get(3) [OF wf small(1)] None have "get_mapped_frame m p v = None" by simp
    with eq have "m' = m" "child' = child" by (simp_all add: share_page_def)
    with None path [of w] shared_step_refl [OF tt] show ?thesis by (auto simp: reflag_def)
  next
    case (Some e)
    from page_entry_get(2) [OF wf Some] have g: "get_mapped_frame m p v = Some (entry_addr e)" .
    define n where "n = map_page_in_table rc m ?c v (entry_addr e) fl"
    note M = map_page_maps [OF two_trees_inv [OF two_trees_sym [OF tt]] rc small(2) free fl, where frame = "entry_addr e", folded n_def]
    note T = two_trees_step [OF tt M(1,5)]
    have np: "small_page n p v" using T(3) small(1) by blast
    note inv = two_trees_inv [OF T(1)]
    have m': "m' = update_page_flags_in_table n p v fl" and c': "child' = child\<lparr>cow_pages := bt_insert v (entry_addr e) (cow_pages child)\<rparr>"
      using eq g by (simp_all add: share_page_def n_def Let_def)
    note U = update_flags_pages [OF inv np fl, folded m'] and F = update_flags_frame [OF inv np, where fl = fl, folded m']
    note T2 = two_trees_step [OF two_trees_sym [OF T(1)] U(1) update_flags_keeps_frames [OF inv np, of fl, folded m']]
    have "shared_step R D p ?c 3 m m'"
      unfolding shared_step_def
      using two_trees_sym [OF T2(1)] keeps_frames_trans [OF T(4) T2(4)] M(3,4) T(3) F T2(3) by simp
    moreover have "page_entry m' p w = (if page_path w = page_path v then reflag fl (page_entry m p w) else page_entry m p w)"
      by (simp add: U(2) T(2) reflag_def)
    moreover have "page_entry m' ?c w = (if page_path w = page_path v \<and> page_entry m p w \<noteq> None
        then reflag fl (page_entry m p w) else page_entry m ?c w)"
      using path [of w] Some by (auto simp: T2(2) M(2) reflag_def)
    ultimately show ?thesis using c' Some by simp
  qed
  then show "shared_step R D p ?c 3 m m'"
    "page_entry m' p w = (if page_path w = page_path v then reflag fl (page_entry m p w) else page_entry m p w)"
    "page_entry m' ?c w = (if page_path w = page_path v \<and> page_entry m p w \<noteq> None then reflag fl (page_entry m p w) else page_entry m ?c w)"
    "child' = child\<lparr>cow_pages := (case page_entry m p v of None \<Rightarrow> cow_pages child | Some e \<Rightarrow> bt_insert v (entry_addr e) (cow_pages child))\<rparr>"
    by blast+
qed

section \<open>Sharing the pages of an area\<close>

lemma reflag_None [simp]: "reflag fl r = None \<longleftrightarrow> r = None" and reflag_NoneD [simp]: "reflag fl None = None"
  by (simp_all add: reflag_def)

lemma reflag_cow [simp]:
  "reflag (cow_flags p) (reflag (cow_flags p) r) = reflag (cow_flags p) r"
  "map_option entry_addr (reflag (cow_flags p) r) = map_option entry_addr r"
  by (cases r; simp add: reflag_def)+

lemma share_pages:
  fixes prot :: ProtFlags
  defines "fl \<equiv> cow_flags prot"
  assumes "two_trees R D m p (as_cr3 child)" and "reclaim_ok R rc"
    and "\<forall>v \<in> set vs. small_page m p v \<and> small_page m (as_cr3 child) v" and "3 * length vs \<le> free_frames m"
    and "foldl (share_page rc p fl) (m, child) vs = (m', child')"
  shows "shared_step R D p (as_cr3 child) (3 * length vs) m m'
    \<and> page_entry m' p w = (if page_path w \<in> page_path ` set vs then reflag fl (page_entry m p w) else page_entry m p w)
    \<and> page_entry m' (as_cr3 child) w = (if page_path w \<in> page_path ` set vs \<and> page_entry m p w \<noteq> None
        then reflag fl (page_entry m p w) else page_entry m (as_cr3 child) w)
    \<and> child' = child\<lparr>cow_pages := cow_pages child'\<rparr>
    \<and> bt_get (cow_pages child') q = (if q \<in> set vs \<and> page_entry m p q \<noteq> None
        then map_option entry_addr (page_entry m p q) else bt_get (cow_pages child) q)"
  using assms(2-)
proof (induction vs arbitrary: m child)
  case (Cons v vs)
  obtain m1 child1 where 1: "share_page rc p fl (m, child) v = (m1, child1)" by force
  have "flags_contain fl PRESENT" "3 \<le> free_frames m" using Cons.prems(4) by (simp_all add: fl_def)
  note S = share_page_step [OF Cons.prems(1,2) _ _ this 1]
  have step: "shared_step R D p (as_cr3 child) 3 m m1" using S(1) Cons.prems(3) by simp
  have c1: "as_cr3 child1 = as_cr3 child" using S(4) Cons.prems(3) by simp
  have E: "page_entry m1 p w = (if page_path w = page_path v then reflag fl (page_entry m p w) else page_entry m p w)"
    "page_entry m1 (as_cr3 child) w = (if page_path w = page_path v \<and> page_entry m p w \<noteq> None
      then reflag fl (page_entry m p w) else page_entry m (as_cr3 child) w)" for w
    using S(2,3) Cons.prems(3) by simp_all
  have cow1: "bt_get (cow_pages child1) q = (if q = v \<and> page_entry m p q \<noteq> None
      then map_option entry_addr (page_entry m p q) else bt_get (cow_pages child) q)"
    using S(4) Cons.prems(3) by (auto split: option.splits)
  have "two_trees R D m1 p (as_cr3 child1)" "3 * length vs \<le> free_frames m1"
    "\<forall>v \<in> set vs. small_page m1 p v \<and> small_page m1 (as_cr3 child1) v"
    using step Cons.prems(3,4) c1 by (auto simp: shared_step_def)
  moreover have "foldl (share_page rc p fl) (m1, child1) vs = (m', child')" using 1 Cons.prems(5) by simp
  ultimately have IH: "shared_step R D p (as_cr3 child) (3 * length vs) m1 m'"
    "page_entry m' p w = (if page_path w \<in> page_path ` set vs then reflag fl (page_entry m1 p w) else page_entry m1 p w)"
    "page_entry m' (as_cr3 child) w = (if page_path w \<in> page_path ` set vs \<and> page_entry m1 p w \<noteq> None
        then reflag fl (page_entry m1 p w) else page_entry m1 (as_cr3 child) w)"
    "child' = child1\<lparr>cow_pages := cow_pages child'\<rparr>"
    "bt_get (cow_pages child') q = (if q \<in> set vs \<and> page_entry m1 p q \<noteq> None
        then map_option entry_addr (page_entry m1 p q) else bt_get (cow_pages child1) q)"
    using Cons.IH [of m1 child1] Cons.prems(2) unfolding c1 by blast+
  have "child' = child\<lparr>cow_pages := cow_pages child'\<rparr>" using IH(4) S(4) Cons.prems(3) by simp
  moreover have "shared_step R D p (as_cr3 child) (3 * length (v # vs)) m m'"
    using shared_step_trans [OF step IH(1)] by simp
  ultimately show ?case using IH(2,3,5) E [of w] E [of q] cow1 by (auto simp: fl_def)
qed (simp add: shared_step_refl)

section \<open>Sharing the areas\<close>

definition forked :: "VirtualMemoryArea \<Rightarrow> VirtualMemoryArea" where
  "forked v = (if vma_type v = Guard then v else v\<lparr>vma_cow := True, ref_count := 2\<rparr>)"

text \<open>The flags that \<open>fork\<close> gives to the page of an address, if it shares it.\<close>

definition area_flags :: "VirtualMemoryArea list \<Rightarrow> u64 \<Rightarrow> u64 option" where
  "area_flags vs w = map_option (\<lambda>v. cow_flags (vma_prot v)) (find (\<lambda>v. vma_type v \<noteq> Guard \<and> vma_contains v w) vs)"

definition shared_entry :: "u64 option \<Rightarrow> u64 option \<Rightarrow> u64 option" where
  "shared_entry fl r = (case fl of None \<Rightarrow> r | Some f \<Rightarrow> reflag f r)"

definition pages_of :: "VirtualMemoryArea list \<Rightarrow> nat" where
  "pages_of vs = (\<Sum>v\<leftarrow>vs. unat (vma_page_count v))"

text \<open>What the loop over the areas has done to the tables and to the child.\<close>

definition shares ::
  "VirtualMemoryArea list \<Rightarrow> u64 \<Rightarrow> 'e Machine_scheme \<times> AddressSpace \<Rightarrow> 'e Machine_scheme \<times> AddressSpace \<Rightarrow> bool" where
  "shares vs p mc mc' \<longleftrightarrow> (case mc of (m, child) \<Rightarrow> case mc' of (m', child') \<Rightarrow>
     (\<forall>w. unat w < 2 ^ 47 \<longrightarrow>
        page_entry m' p w = shared_entry (area_flags vs w) (page_entry m p w)
        \<and> page_entry m' (as_cr3 child) w =
           (if area_flags vs w \<noteq> None \<and> page_entry m p w \<noteq> None then page_entry m' p w else page_entry m (as_cr3 child) w)
        \<and> (page_aligned w \<longrightarrow> bt_get (cow_pages child') w =
             (if area_flags vs w \<noteq> None \<and> page_entry m p w \<noteq> None then map_option entry_addr (page_entry m p w)
              else bt_get (cow_pages child) w)))
     \<and> child' = child\<lparr>vmas := fold (\<lambda>v. bt_insert (vma_start v) (forked v)) vs (vmas child), cow_pages := cow_pages child'\<rparr>)"

lemma user_page_low: "unat w < 2 ^ 47 \<Longrightarrow> user_page w"
  by (simp add: l4_idx_def unat_idx less_mult_imp_div_less)

lemma area_pages:
  assumes "area_ok (vma_start v, v)" and "unat (vma_end v) \<le> 2 ^ 47"
  shows "length (page_list (vma_start v) (vma_page_count v)) = unat (vma_page_count v)"
    "q \<in> set (page_list (vma_start v) (vma_page_count v)) \<longleftrightarrow> page_aligned q \<and> vma_contains v q"
    "unat w < 2 ^ 48 \<Longrightarrow> page_path w \<in> page_path ` set (page_list (vma_start v) (vma_page_count v)) \<longleftrightarrow> vma_contains v w"
proof -
  have al: "page_aligned (vma_start v)" "page_aligned (vma_end v)" "vma_start v \<le> vma_end v" "unat (vma_end v) \<le> 2 ^ 48"
    using assms by (auto simp: area_ok_def)
  show "length (page_list (vma_start v) (vma_page_count v)) = unat (vma_page_count v)" by (simp add: page_list_def)
  show "q \<in> set (page_list (vma_start v) (vma_page_count v)) \<longleftrightarrow> page_aligned q \<and> vma_contains v q"
    using page_list_mem [OF al(1-3)] by (simp add: vma_page_count_def vma_contains_def)
  show "unat w < 2 ^ 48 \<Longrightarrow> page_path w \<in> page_path ` set (page_list (vma_start v) (vma_page_count v)) \<longleftrightarrow> vma_contains v w"
    using range_paths [OF al] by (simp add: vma_page_count_def vma_contains_def)
qed

lemma fork_vma_shares:
  assumes tt: "two_trees R D m p (as_cr3 child)" and rc: "reclaim_ok R rc"
    and v: "area_ok (vma_start v, v)" "unat (vma_end v) \<le> 2 ^ 47"
    and small: "\<forall>w. vma_contains v w \<longrightarrow> small_page m p w \<and> small_page m (as_cr3 child) w"
    and free: "3 * unat (vma_page_count v) \<le> free_frames m"
    and eq: "fork_vma rc p v (m, child) = (m', child')"
  shows "shared_step R D p (as_cr3 child) (3 * unat (vma_page_count v)) m m' \<and> shares [v] p (m, child) (m', child')"
proof (cases "vma_type v = Guard")
  case True
  with eq have "m' = m" "child' = add_vma v child" by (simp_all add: fork_vma_def)
  with True shared_step_refl [OF tt] show ?thesis
    by (simp add: shares_def area_flags_def shared_entry_def forked_def add_vma_def)
next
  case False
  let ?ps = "page_list (vma_start v) (vma_page_count v)" and ?fl = "cow_flags (vma_prot v)"
  note A = area_pages [OF v]
  obtain child1 where run: "foldl (share_page rc p ?fl) (m, child) ?ps = (m', child1)"
    and c': "child' = add_vma (v\<lparr>vma_cow := True, ref_count := 2\<rparr>) child1"
    using eq False by (auto simp: fork_vma_def split: prod.splits)
  have "\<forall>q \<in> set ?ps. small_page m p q \<and> small_page m (as_cr3 child) q" using small A(2) by blast
  note S = share_pages [OF tt rc this _ run, unfolded A(1), OF free]
  have "area_flags [v] w = (if vma_contains v w then Some ?fl else None)" for w
    using False by (simp add: area_flags_def)
  moreover have "unat w < 2 ^ 48" if "unat w < 2 ^ 47" for w :: u64 using that by simp
  moreover have "child' = child\<lparr>vmas := fold (\<lambda>v. bt_insert (vma_start v) (forked v)) [v] (vmas child), cow_pages := cow_pages child'\<rparr>"
    using S c' False by (cases child1) (simp add: forked_def add_vma_def)
  ultimately show ?thesis
    using S A(2,3) c' by (auto simp: shares_def shared_entry_def)
qed

lemma area_flags_Cons:
  "area_flags (v # vs) w = (if vma_type v \<noteq> Guard \<and> vma_contains v w then Some (cow_flags (vma_prot v)) else area_flags vs w)"
  by (simp add: area_flags_def)

lemma area_flags_None: "(\<And>v. v \<in> set vs \<Longrightarrow> \<not> vma_contains v w) \<Longrightarrow> area_flags vs w = None"
  by (auto simp: area_flags_def find_None_iff)

lemma shared_entry_None [simp]: "shared_entry fl r = None \<longleftrightarrow> r = None"
  by (simp add: shared_entry_def split: option.split)

lemma shared_entry_NoneD [simp]: "shared_entry fl None = None"
  by simp

lemma child_update:
  "c1 = c\<lparr>vmas := a, cow_pages := b\<rparr> \<Longrightarrow> as_cr3 c1 = as_cr3 c"
  "c1 = c\<lparr>vmas := a, cow_pages := b\<rparr> \<Longrightarrow> c' = c1\<lparr>vmas := x, cow_pages := y\<rparr> \<Longrightarrow> c' = c\<lparr>vmas := x, cow_pages := y\<rparr>"
  "c1 = c\<lparr>vmas := a, cow_pages := b\<rparr> \<Longrightarrow> vmas c1 = a"
  by simp_all

lemma sharesD:
  assumes "shares vs p (m, child) (m', child')"
  shows "child' = child\<lparr>vmas := fold (\<lambda>v. bt_insert (vma_start v) (forked v)) vs (vmas child), cow_pages := cow_pages child'\<rparr>"
    "unat w < 2 ^ 47 \<Longrightarrow> page_entry m' p w = shared_entry (area_flags vs w) (page_entry m p w)"
    "unat w < 2 ^ 47 \<Longrightarrow> page_entry m' (as_cr3 child) w =
       (if area_flags vs w \<noteq> None \<and> page_entry m p w \<noteq> None then page_entry m' p w else page_entry m (as_cr3 child) w)"
    "unat w < 2 ^ 47 \<Longrightarrow> page_aligned w \<Longrightarrow> bt_get (cow_pages child') w =
       (if area_flags vs w \<noteq> None \<and> page_entry m p w \<noteq> None then map_option entry_addr (page_entry m p w)
        else bt_get (cow_pages child) w)"
  using assms unfolding shares_def by blast+

lemma shares_Cons:
  assumes 1: "shares [v] p (m, child) (m1, child1)" and 2: "shares vs p (m1, child1) (m', child')"
    and apart: "\<forall>u \<in> set vs. vma_end v \<le> vma_start u"
  shows "shares (v # vs) p (m, child) (m', child')"
proof -
  note D1 = sharesD [OF 1] and D2 = sharesD [OF 2]
  note cr3 = child_update(1) [OF D1(1)]
  have "area_flags vs w = None" if "vma_contains v w" for w
    using that apart by (intro area_flags_None) (fastforce simp: vma_contains_def)
  then have split: "area_flags (v # vs) w = (case area_flags [v] w of None \<Rightarrow> area_flags vs w | Some f \<Rightarrow> Some f)"
    "area_flags [v] w \<noteq> None \<Longrightarrow> area_flags vs w = None" for w
    by (auto simp: area_flags_Cons [of v vs] area_flags_Cons [of v "[]"] area_flags_def split: if_splits)
  have "vmas child1 = bt_insert (vma_start v) (forked v) (vmas child)" using child_update(3) [OF D1(1)] by simp
  with child_update(2) [OF D1(1) D2(1)]
  have "child' = child\<lparr>vmas := fold (\<lambda>v. bt_insert (vma_start v) (forked v)) (v # vs) (vmas child), cow_pages := cow_pages child'\<rparr>"
    by (simp only: fold_Cons comp_apply)
  moreover have "page_entry m' p w = shared_entry (area_flags (v # vs) w) (page_entry m p w)
        \<and> page_entry m' (as_cr3 child) w =
           (if area_flags (v # vs) w \<noteq> None \<and> page_entry m p w \<noteq> None then page_entry m' p w else page_entry m (as_cr3 child) w)
        \<and> (page_aligned w \<longrightarrow> bt_get (cow_pages child') w =
             (if area_flags (v # vs) w \<noteq> None \<and> page_entry m p w \<noteq> None then map_option entry_addr (page_entry m p w)
              else bt_get (cow_pages child) w))" if w: "unat w < 2 ^ 47" for w
  proof (cases "area_flags [v] w")
    case None
    then have "page_entry m1 p w = page_entry m p w" "page_entry m1 (as_cr3 child) w = page_entry m (as_cr3 child) w"
      "page_aligned w \<Longrightarrow> bt_get (cow_pages child1) w = bt_get (cow_pages child) w"
      using D1(2-4) [OF w] by (simp_all add: shared_entry_def)
    with None split(1) [of w] D2(2-4) [OF w] cr3 show ?thesis by simp
  next
    case (Some f)
    with split(2) [of w] have "area_flags vs w = None" by simp
    then have "page_entry m' p w = page_entry m1 p w" "page_entry m' (as_cr3 child) w = page_entry m1 (as_cr3 child) w"
      "page_aligned w \<Longrightarrow> bt_get (cow_pages child') w = bt_get (cow_pages child1) w"
      using D2(2-4) [OF w] cr3 by (simp_all add: shared_entry_def)
    with Some split(1) [of w] D1(2-4) [OF w] show ?thesis by simp
  qed
  ultimately show ?thesis unfolding shares_def by blast
qed

lemma fork_areas:
  assumes "two_trees R D m p (as_cr3 child)" and "reclaim_ok R rc"
    and "\<forall>v \<in> set vs. area_ok (vma_start v, v) \<and> unat (vma_end v) \<le> 2 ^ 47"
    and "sorted_wrt (\<lambda>v u. vma_end v \<le> vma_start u) vs"
    and "\<forall>v \<in> set vs. \<forall>w. vma_contains v w \<longrightarrow> small_page m p w \<and> small_page m (as_cr3 child) w"
    and "3 * pages_of vs \<le> free_frames m"
    and "fold (fork_vma rc p) vs (m, child) = (m', child')"
  shows "shared_step R D p (as_cr3 child) (3 * pages_of vs) m m' \<and> shares vs p (m, child) (m', child')"
  using assms
proof (induction vs arbitrary: m child)
  case Nil
  then show ?case by (simp add: shared_step_refl shares_def area_flags_def shared_entry_def)
next
  case (Cons v vs)
  obtain m1 child1 where 1: "fork_vma rc p v (m, child) = (m1, child1)" by force
  have S: "shared_step R D p (as_cr3 child) (3 * unat (vma_page_count v)) m m1" "shares [v] p (m, child) (m1, child1)"
    using fork_vma_shares [OF Cons.prems(1,2) _ _ _ _ 1] Cons.prems(3,5,6) by (simp_all add: pages_of_def)
  note cr3 = child_update(1) [OF sharesD(1) [OF S(2)]]
  have "two_trees R D m1 p (as_cr3 child1)" "3 * pages_of vs \<le> free_frames m1"
    "\<forall>v \<in> set vs. \<forall>w. vma_contains v w \<longrightarrow> small_page m1 p w \<and> small_page m1 (as_cr3 child1) w"
    using S(1) Cons.prems(5,6) cr3 by (auto simp: shared_step_def pages_of_def)
  moreover have "fold (fork_vma rc p) vs (m1, child1) = (m', child')" using Cons.prems(7) 1 by simp
  ultimately have IH: "shared_step R D p (as_cr3 child) (3 * pages_of vs) m1 m'" "shares vs p (m1, child1) (m', child')"
    using Cons.IH [of m1 child1] Cons.prems(2-4) cr3 by auto
  have "shared_step R D p (as_cr3 child) (3 * pages_of (v # vs)) m m'"
    using shared_step_trans [OF S(1) IH(1)] by (simp add: pages_of_def)
  with shares_Cons [OF S(2) IH(2)] Cons.prems(4) show ?case by simp
qed

section \<open>A new address space\<close>

text \<open>
  The kernel's top table, from which a new one is copied: it belongs to the frames in use, none of
  its entries is huge, and its lower half is empty.
\<close>

definition kernel_table_ok :: "nat set \<Rightarrow> 'e Machine_scheme \<Rightarrow> u64 \<Rightarrow> bool" where
  "kernel_table_ok used m t \<longleftrightarrow> page_aligned t \<and> pfn t \<in> used \<and> (\<forall>i < 512. \<not> huge (read_entry m t i))
     \<and> (\<forall>i < 256. is_unused (read_entry m t i))"

text \<open>The frames that reclaim holds do not depend on the swap manager, the seed or the count of violations.\<close>

definition ignores_vm :: "('x Vm_ext \<Rightarrow> nat multiset) \<Rightarrow> bool" where
  "ignores_vm R \<longleftrightarrow> (\<forall>(m :: 'x vm) sw seed n.
     R (Machine.more (m\<lparr>swap_manager := sw\<rparr>)) = R (Machine.more m) \<and> R (Machine.more (m\<lparr>aslr_seed := seed\<rparr>)) = R (Machine.more m)
     \<and> R (Machine.more (m\<lparr>wx_violations := n\<rparr>)) = R (Machine.more m))"

definition clone_entry :: "u64 \<Rightarrow> u64 \<Rightarrow> nat \<Rightarrow> 'e Machine_scheme \<Rightarrow> 'e Machine_scheme" where
  "clone_entry k t i m = (if is_unused (read_entry m k i) then m else write_entry m t i (read_entry m k i))"

lemma clone_fold:
  assumes "page_aligned k" "page_aligned t" "k \<noteq> t" "\<forall>i \<in> set is. i < 512" "distinct is"
  shows "(\<forall>u j. page_aligned u \<longrightarrow> j < 512 \<longrightarrow> read_entry (fold (clone_entry k t) is m) u j =
      (if u = t \<and> j \<in> set is \<and> \<not> is_unused (read_entry m k j) then read_entry m k j else read_entry m u j))
    \<and> (\<forall>x. pfn x \<noteq> pfn t \<longrightarrow> phys_mem (fold (clone_entry k t) is m) x = phys_mem m x)
    \<and> frame_pool (fold (clone_entry k t) is m) = frame_pool m \<and> Machine.more (fold (clone_entry k t) is m) = Machine.more m
    \<and> phys_mem_offset (fold (clone_entry k t) is m) = phys_mem_offset m"
  using assms
proof (induction "is" arbitrary: m)
  case (Cons i "is")
  let ?n = "clone_entry k t i m"
  have i: "i < 512" "i \<notin> set is" using Cons.prems by simp_all
  have reads: "read_entry ?n u j = (if u = t \<and> j = i \<and> \<not> is_unused (read_entry m k j) then read_entry m k j else read_entry m u j)"
    if "page_aligned u" "j < 512" for u j
    using that read_write_entry [OF Cons.prems(2) that(1) i(1) that(2)] by (auto simp: clone_entry_def)
  have "phys_mem ?n x = phys_mem m x" if "pfn x \<noteq> pfn t" for x
    by (simp add: clone_entry_def write_entry_other_frame [OF Cons.prems(2) i(1) that])
  moreover have "frame_pool ?n = frame_pool m" "Machine.more ?n = Machine.more m" "phys_mem_offset ?n = phys_mem_offset m"
    by (simp_all add: clone_entry_def write_entry_def)
  ultimately show ?case using Cons.IH [of ?n] Cons.prems i reads [of k] reads by (auto simp: reads)
qed simp

lemma clone_kernel_mappings_eq:
  "phys_mem_offset m \<noteq> 0 \<Longrightarrow> clone_kernel_mappings m current t = fold (clone_entry (kernel_l4_source m current) t) [0..<512] m"
  by (simp add: clone_kernel_mappings_def clone_entry_def [abs_def] Let_def)

lemma empty_root:
  assumes "page_aligned t" "phys_mem_offset m \<noteq> 0" "\<forall>i < 512. \<not> huge (read_entry m t i)" "\<forall>i < 256. is_unused (read_entry m t i)"
  shows "pt_wf m t" "tables m t = {t}" "page_entry m t w = None" "user_page w \<Longrightarrow> small_page m t w"
proof -
  have w: "walk m t p = (if p = [] then Some t else None)" if "user_path p" for p
    using that assms(4) by (cases p) (auto simp: walk.simps Let_def)
  then show "tables m t = {t}" by (auto simp: tables_def intro: exI [of _ "[]"] split: if_splits)
  show "pt_wf m t" using assms(1-3) w unfolding pt_wf_def by (auto split: if_splits)
  show "page_entry m t w = None" "user_page w \<Longrightarrow> small_page m t w"
    using w [of "l1_path w"] w [of "[l4_idx w]"] w [of "[l4_idx w, l3_idx w]"] by (auto simp: page_entry_eq small_page_def)
qed

lemma apart_vm:
  assumes "ignores_vm R"
  shows "apart R (m\<lparr>aslr_seed := x\<rparr>) used \<longleftrightarrow> apart R m used" "apart R (m\<lparr>swap_manager := y\<rparr>) used \<longleftrightarrow> apart R m used"
    "apart R (m\<lparr>wx_violations := n\<rparr>) used \<longleftrightarrow> apart R m used"
  using assms unfolding ignores_vm_def apart_def by simp_all

text \<open>Fields the tables do not depend on.\<close>

lemma vm_fields:
  "read_entry (m\<lparr>aslr_seed := x\<rparr>) = read_entry m" "read_entry (m\<lparr>swap_manager := y\<rparr>) = read_entry m"
  by (simp_all add: read_entry_def fun_eq_iff)

lemma same_memory_vm [simp]: "same_memory m (m\<lparr>aslr_seed := x\<rparr>)" "same_memory m (m\<lparr>swap_manager := y\<rparr>)"
  by (simp_all add: same_memory_def)

lemma clone_new_root:
  assumes inv: "pt_inv R used m p" and m1: "pt_inv R (insert (pfn t) used) m1 p" "same_memory m m1"
    and t: "frame_addr t" "pfn t \<notin> used" "pfn t \<notin> pfn ` tables m p" and kernel: "kernel_table_ok used m k"
  defines "m2 \<equiv> fold (clone_entry k t) [0..<512] (zero_physical_frame m1 t)"
  shows "two_trees R used m2 p t" "keeps_frames used m m2" "page_entry m2 p = page_entry m p"
    "small_page m p v \<Longrightarrow> small_page m2 p v" "page_entry m2 t w = None" "user_page w \<Longrightarrow> small_page m2 t w"
    "frame_pool m2 = frame_pool m1"
proof -
  have off: "phys_mem_offset m1 \<noteq> 0" using m1(1) by (rule inv_offset)
  have al: "page_aligned t" "page_aligned k" "k \<noteq> t" using t kernel by (auto simp: frame_addr_def kernel_table_ok_def)
  have k: "\<forall>i < 512. \<not> huge (read_entry m k i)" "\<forall>i < 256. is_unused (read_entry m k i)"
    using kernel by (simp_all add: kernel_table_ok_def)
  have C: "\<And>u j. page_aligned u \<Longrightarrow> j < 512 \<Longrightarrow> read_entry m2 u j = (if u = t \<and> \<not> is_unused (read_entry (zero_physical_frame m1 t) k j)
      then read_entry (zero_physical_frame m1 t) k j else read_entry (zero_physical_frame m1 t) u j)"
    "\<And>x. pfn x \<noteq> pfn t \<Longrightarrow> phys_mem m2 x = phys_mem (zero_physical_frame m1 t) x"
    and pool: "frame_pool m2 = frame_pool m1" "Machine.more m2 = Machine.more m1" "phys_mem_offset m2 = phys_mem_offset m1"
    using clone_fold [OF al(2,1,3), of "[0..<512]" "zero_physical_frame m1 t"]
    by (simp_all add: m2_def zero_physical_frame_def)
  have root: "read_entry m2 t j = read_entry m k j \<or> read_entry m2 t j = 0 \<and> is_unused (read_entry m k j)" if "j < 512" for j
    using C(1) [OF al(1) that] read_zeroed [OF al(1) al(2) that off] read_zeroed [OF al(1) al(1) that off] same_memory_reads [OF m1(2)] al(3)
    by auto
  have empty: "\<forall>i < 512. \<not> huge (read_entry m2 t i)" "\<forall>i < 256. is_unused (read_entry m2 t i)"
  proof (intro allI impI)
    fix i :: nat assume "i < 512"
    with root k(1) show "\<not> huge (read_entry m2 t i)" by (metis not_huge_0)
  next
    show "\<forall>i < 256. is_unused (read_entry m2 t i)"
    proof (intro allI impI)
      fix i :: nat assume i: "i < 256"
      then have "i < 512" by simp
      from root [OF this] k(2) i show "is_unused (read_entry m2 t i)" by (auto simp: is_unused_def)
    qed
  qed
  have "phys_mem_offset m2 \<noteq> 0" using off pool(3) by simp
  note E = empty_root [OF al(1) this empty]
  have same: "phys_mem m2 x = phys_mem m x" if "pfn x \<noteq> pfn t" for x
    using C(2) [OF that] zero_other_frame [OF al(1) that, of m1] m1(2) by (simp add: same_memory_def)
  have keeps: "keeps_frames (used \<union> pfn ` tables m p) m m2" unfolding keeps_frames_def
  proof (intro allI impI)
    fix x assume "pfn x \<in> used \<union> pfn ` tables m p"
    then have "pfn x \<noteq> pfn t" using t(2,3) by (metis UnE)
    then show "phys_mem m2 x = phys_mem m x" by (rule same)
  qed
  have wf: "pt_wf m p" using inv by (simp add: pt_inv_def)
  note T = keeps_tree [OF wf keeps _ \<open>phys_mem_offset m2 \<noteq> 0\<close>]
  show "page_entry m2 p = page_entry m p" "small_page m p v \<Longrightarrow> small_page m2 p v" using T(3,4) by simp_all
  show "keeps_frames used m m2" using keeps by (simp add: keeps_frames_def)
  show "page_entry m2 t w = None" "user_page w \<Longrightarrow> small_page m2 t w" using E(3,4) by simp_all
  show "frame_pool m2 = frame_pool m1" by (rule pool(1))
  have "tables m1 p = tables m p" using same_memory_tree [OF m1(2)] by simp
  with m1(1) have "apart R m1 (insert (pfn t) used \<union> pfn ` tables m p)" by (simp add: pt_inv_def)
  then have "apart R m2 (insert (pfn t) used \<union> pfn ` tables m p)" by (rule apart_cong [OF _ pool(1,2)])
  with inv T(1,2) E(1,2) t show "two_trees R used m2 p t" by (auto simp: two_trees_def pt_inv_def insert_commute)
qed

lemma two_trees_vm:
  assumes "ignores_vm R"
  shows "two_trees R D (m\<lparr>aslr_seed := x\<rparr>) p c \<longleftrightarrow> two_trees R D m p c" "two_trees R D (m\<lparr>swap_manager := y\<rparr>) p c \<longleftrightarrow> two_trees R D m p c"
  unfolding two_trees_def apart_vm [OF assms]
  by (simp_all add: same_memory_tree [OF same_memory_vm(1)] same_memory_tree [OF same_memory_vm(2)])

lemma same_memory_view:
  assumes "same_memory m m'"
  shows "page_entry m' cr3 = page_entry m cr3" "keeps_frames D n m' \<longleftrightarrow> keeps_frames D n m" "mem_view m' cr3 = mem_view m cr3"
proof -
  show e: "page_entry m' cr3 = page_entry m cr3" using same_memory_tree [OF assms] by (simp add: page_entry_def fun_eq_iff)
  show "keeps_frames D n m' \<longleftrightarrow> keeps_frames D n m" "mem_view m' cr3 = mem_view m cr3"
    using assms e by (simp_all add: keeps_frames_def same_memory_def mem_view_def fun_eq_iff)
qed

lemma AddressSpace_new_tree:
  assumes inv: "pt_inv R used m p" and rc: "reclaim_ok R rc" and R: "ignores_vm R" and free: "0 < free_frames m"
    and kernel: "kernel_table_ok used m (kernel_l4_source m current)"
  obtains m' child where "AddressSpace_new rc current rnd1 rnd2 pid m = (m', Some child)"
    "two_trees R used m' p (as_cr3 child)" "keeps_frames used m m'" "page_entry m' p = page_entry m p"
    "\<forall>v. small_page m p v \<longrightarrow> small_page m' p v" "\<forall>w. page_entry m' (as_cr3 child) w = None"
    "\<forall>w. user_page w \<longrightarrow> small_page m' (as_cr3 child) w" "free_frames m = Suc (free_frames m')"
    "as_pid child = pid" "vmas child = []" "cow_pages child = []" "owned_frames child = []"
proof -
  have "pool_ok (frame_pool m)" using inv by (simp add: pt_inv_def apart_def)
  then obtain m1 t where a: "allocate_physical_frame rc m = (m1, Some t)" "free_frames m = Suc (free_frames m1)"
    by (rule allocate_takes_one [OF _ free])
  note A = allocate_inv [OF inv rc a(1)]
  define k where "k = kernel_l4_source m current"
  have src: "kernel_l4_source (zero_physical_frame m1 t) current = k"
    using A(2) by (simp add: k_def kernel_l4_source_def same_memory_def zero_physical_frame_def)
  define m2 where "m2 = fold (clone_entry k t) [0..<512] (zero_physical_frame m1 t)"
  note C = clone_new_root [OF inv A(1-5) kernel [folded k_def], folded m2_def]
  have off: "phys_mem_offset (zero_physical_frame m1 t) \<noteq> 0" using inv_offset [OF A(1)] by (simp add: zero_physical_frame_def)
  obtain seed1 heap where h: "aslr_heap_start (aslr_seed m2) rnd1 = (seed1, heap)" by force
  obtain seed top where e: "aslr_mmap_end seed1 rnd2 = (seed, top)" by force
  have new: "AddressSpace_new rc current rnd1 rnd2 pid m = (m2\<lparr>aslr_seed := seed\<rparr>,
      Some \<lparr>as_pid = pid, as_cr3 = t, vmas = [], as_brk = heap, mmap_next = top, owned_frames = [], cow_pages = []\<rparr>)"
    using a(1) h e clone_kernel_mappings_eq [OF off, of current t] unfolding src m2_def [symmetric]
    by (simp add: AddressSpace_new_def allocate_page_table_frame_def Let_def)
  note V = same_memory_view [OF same_memory_vm(1) [of m2 seed]] and T = same_memory_tree [OF same_memory_vm(1) [of m2 seed]]
  show thesis
    by (rule that [OF new]) (use C a(2) V T two_trees_vm(1) [OF R] in simp_all)
qed

section \<open>The forked child\<close>

definition shared_at :: "AddressSpace \<Rightarrow> u64 \<Rightarrow> bool" where
  "shared_at s a \<longleftrightarrow> (case find_vma s a of None \<Rightarrow> False | Some v \<Rightarrow> vma_type v \<noteq> Guard)"

definition writable :: "'e Machine_scheme \<Rightarrow> u64 \<Rightarrow> u64 \<Rightarrow> bool" where
  "writable m cr3 a \<longleftrightarrow> (case page_entry m cr3 a of None \<Rightarrow> False | Some e \<Rightarrow> flags_contain e WRITABLE)"

lemma frame_not_writable: "flags_contain (set_addr (entry_addr e) fl) WRITABLE \<longleftrightarrow> flags_contain fl WRITABLE"
proof -
  have "entry_addr e AND 2 = 0" unfolding entry_addr_def addr_mask by (rule bit_word_eqI) (auto simp: bit_simps)
  then show ?thesis by (simp add: set_addr_def WRITABLE_def bit.conj_disj_distrib2)
qed

lemma area_flags_find:
  assumes "areas_ok s"
  shows "area_flags (bt_values (vmas s)) w =
    (case find_vma s w of None \<Rightarrow> None | Some v \<Rightarrow> if vma_type v = Guard then None else Some (cow_flags (vma_prot v)))"
proof -
  note vals = bt_values_iff [OF areas_ok_wf [OF assms]] and F = find_vma_Some [OF assms, of w]
  show ?thesis
  proof (cases "find (\<lambda>v. vma_type v \<noteq> Guard \<and> vma_contains v w) (bt_values (vmas s))")
    case None
    then have "vma_type v = Guard" if "find_vma s w = Some v" for v
      using that F vals by (auto simp: find_None_iff)
    with None show ?thesis by (auto simp: area_flags_def split: option.split)
  next
    case (Some v)
    then have "v \<in> set (bt_values (vmas s))" "vma_type v \<noteq> Guard" "vma_contains v w"
      by (auto simp: find_Some_iff nth_mem)
    with F vals have "find_vma s w = Some v" by blast
    with Some \<open>vma_type v \<noteq> Guard\<close> show ?thesis by (simp add: area_flags_def)
  qed
qed

lemma areas_sorted:
  assumes "areas_ok s"
  shows "sorted_wrt (\<lambda>v u. vma_end v \<le> vma_start u) (bt_values (vmas s))"
    "v \<in> set (bt_values (vmas s)) \<Longrightarrow> area_ok (vma_start v, v)"
proof -
  have key: "fst e = vma_start (snd e)" if "e \<in> set (vmas s)" for e
    using that assms by (cases e) (auto simp: areas_ok_def area_ok_def)
  have "sorted_wrt (<) (map fst (vmas s))" using areas_ok_wf [OF assms] by (simp add: bt_wf_def)
  then have "sorted_wrt (\<lambda>e f. fst e < fst f) (vmas s)" by (simp add: sorted_wrt_map)
  then have "sorted_wrt (\<lambda>e f. vma_end (snd e) \<le> vma_start (snd f)) (vmas s)"
    by (rule sorted_wrt_mono_rel [rotated]) (use assms key in \<open>auto simp: areas_ok_def\<close>)
  then show "sorted_wrt (\<lambda>v u. vma_end v \<le> vma_start u) (bt_values (vmas s))" by (simp add: bt_values_def sorted_wrt_map)
  show "v \<in> set (bt_values (vmas s)) \<Longrightarrow> area_ok (vma_start v, v)"
    using areas_okD [OF assms] by (auto simp: bt_values_iff [OF areas_ok_wf [OF assms]] area_ok_def)
qed

lemma fold_insert_get:
  "bt_get (fold (\<lambda>v. bt_insert (f v) (g v)) vs t) k =
    (case find (\<lambda>v. f v = k) (rev vs) of None \<Rightarrow> bt_get t k | Some v \<Rightarrow> Some (g v))"
  by (induction vs arbitrary: t rule: rev_induct) (auto split: option.split)

lemma fold_insert_wf: "bt_wf t \<Longrightarrow> bt_wf (fold (\<lambda>v. bt_insert (f v) (g v)) vs t)"
  by (induction vs arbitrary: t) auto

lemma forked_extent [simp]:
  "vma_start (forked v) = vma_start v" "vma_end (forked v) = vma_end v" "vma_contains (forked v) a = vma_contains v a"
  "vma_type (forked v) = vma_type v" "vma_prot (forked v) = vma_prot v"
  by (simp_all add: forked_def vma_contains_def)

lemma forked_areas:
  assumes ok: "areas_ok s" and c: "vmas child = fold (\<lambda>v. bt_insert (vma_start v) (forked v)) (bt_values (vmas s)) []"
  shows "areas_ok child" "find_vma child a = map_option forked (find_vma s a)"
proof -
  note wf = areas_ok_wf [OF ok]
  have get: "bt_get (vmas child) k = map_option forked (bt_get (vmas s) k)" for k
  proof (cases "find (\<lambda>v. vma_start v = k) (rev (bt_values (vmas s)))")
    case None
    then have "bt_get (vmas s) k \<noteq> Some v" for v
      using areas_okD(1) [OF ok, of k v] by (auto simp: find_None_iff bt_values_iff [OF wf])
    then have "bt_get (vmas s) k = None" by (metis not_Some_eq)
    with None show ?thesis by (simp add: c fold_insert_get)
  next
    case (Some v)
    then have "v \<in> set (bt_values (vmas s))" "vma_start v = k"
      by (auto simp: find_Some_iff rev_nth)
    then have "bt_get (vmas s) k = Some v" using areas_okD(1) [OF ok] bt_values_iff [OF wf] by fastforce
    with Some show ?thesis by (simp add: c fold_insert_get)
  qed
  have "bt_wf (vmas child)" unfolding c by (rule fold_insert_wf) simp
  then show ok': "areas_ok child" using ok by (auto simp: areas_ok_iff get area_ok_def)
  show "find_vma child a = map_option forked (find_vma s a)"
  proof (cases "find_vma s a")
    case None
    then have "find_vma child a = None" using find_vma_None [OF ok] find_vma_None [OF ok'] by (auto simp: get)
    with None show ?thesis by simp
  next
    case (Some v)
    then obtain k where "bt_get (vmas s) k = Some v" "vma_contains v a" using find_vma_Some [OF ok] by blast
    then have "find_vma child a = Some (forked v)" by (intro find_vma_at [OF ok', of k]) (simp_all add: get)
    with Some show ?thesis by simp
  qed
qed

lemma shared_entry_view:
  assumes "areas_ok s"
  shows "area_flags (bt_values (vmas s)) a \<noteq> None \<longleftrightarrow> shared_at s a"
    "shared_entry (area_flags (bt_values (vmas s)) a) (Some e) = Some e' \<Longrightarrow>
       entry_addr e' = entry_addr e \<and> (shared_at s a \<longrightarrow> \<not> flags_contain e' WRITABLE) \<and> (\<not> shared_at s a \<longrightarrow> e' = e)"
  by (auto simp: area_flags_find [OF assms] shared_at_def shared_entry_def reflag_def frame_not_writable
      split: option.splits if_splits)

text \<open>What \<open>fork\<close> promises of the two images, of the write permissions and of the areas.\<close>

definition forks_memory :: "'e Machine_scheme \<Rightarrow> AddressSpace \<Rightarrow> 'e Machine_scheme \<Rightarrow> AddressSpace \<Rightarrow> u64 \<Rightarrow> bool" where
  "forks_memory m s m' child a \<longleftrightarrow>
     mem_view m' (as_cr3 s) a = mem_view m (as_cr3 s) a
     \<and> mem_view m' (as_cr3 child) a = (if shared_at s a then mem_view m (as_cr3 s) a else None)
     \<and> (shared_at s a \<longrightarrow> \<not> writable m' (as_cr3 s) a \<and> \<not> writable m' (as_cr3 child) a)
     \<and> (\<not> shared_at s a \<longrightarrow> page_entry m' (as_cr3 s) a = page_entry m (as_cr3 s) a)
     \<and> find_vma child a = map_option forked (find_vma s a)
     \<and> (page_aligned a \<longrightarrow> bt_get (cow_pages child) a = map_option entry_addr (page_entry m' (as_cr3 child) a))"

text \<open>An entry is an entry of some address below \<open>2 ^ 47\<close>.\<close>

lemma low_page:
  assumes "page_entry m cr3 w = Some e"
  obtains w' where "unat w' < 2 ^ 47" "page_entry m cr3 w' = Some e"
proof -
  have "user_page w" using assms by (simp add: page_entry_def split: if_splits)
  then have "unat w div 2 ^ 39 mod (256 * 2) < 256" by (simp add: l4_idx_def unat_idx)
  then have "unat w div 2 ^ 39 div 256 mod 2 = 0" unfolding mod_mult2_eq by simp
  then have "\<not> bit (unat w) 47" by (simp add: bit_iff_odd div_mult2_eq [symmetric] even_iff_mod_2_eq_zero)
  then have b: "\<not> bit w 47" by (simp add: bit_unsigned_iff)
  let ?w = "take_bit 47 w"
  have "take_bit 9 (drop_bit k ?w) = take_bit 9 (drop_bit k w)" if "k \<le> 39" for k
  proof (rule bit_word_eqI)
    fix n
    have "bit w (k + n) \<longrightarrow> k + n < 47" if "n < 9"
      using b that \<open>k \<le> 39\<close> by (cases "k + n = 47") auto
    then show "bit (take_bit 9 (drop_bit k ?w)) n \<longleftrightarrow> bit (take_bit 9 (drop_bit k w)) n" by (auto simp: bit_simps)
  qed
  moreover have "x AND 0x1FF = take_bit 9 x" for x :: u64 by (simp add: take_bit_eq_mask mask_eq_exp_minus_1)
  ultimately have "page_path ?w = page_path w" by (simp add: page_path_def l4_idx_def l3_idx_def l2_idx_def l1_idx_def)
  moreover have "unat ?w < 2 ^ 47" by (metis take_bit_nat_less_exp unsigned_take_bit_eq)
  ultimately show thesis using that assms page_entry_path by metis
qed

lemma fork_forks:
  assumes ok: "areas_ok s" "\<forall>v \<in> set (bt_values (vmas s)). unat (vma_end v) \<le> 2 ^ 47"
    and inv: "pt_inv R D m (as_cr3 s)" "mapped_in D m (as_cr3 s)" and rc: "reclaim_ok R rc" "ignores_vm R"
    and kernel: "kernel_table_ok D m (kernel_l4_source m current)"
    and small: "\<forall>w. find_vma s w \<noteq> None \<longrightarrow> small_page m (as_cr3 s) w"
    and free: "1 + 3 * pages_of (bt_values (vmas s)) \<le> free_frames m"
  obtains m' child where "fork rc current rnd1 rnd2 pid m s = (m', Some child)"
    "two_trees R D m' (as_cr3 s) (as_cr3 child)" "areas_ok child"
    "\<And>a. unat a < 2 ^ 47 \<Longrightarrow> forks_memory m s m' child a"
    "mapped_in D m' (as_cr3 s)" "mapped_in D m' (as_cr3 child)" "\<And>w. user_page w \<Longrightarrow> small_page m' (as_cr3 child) w"
    "free_frames m \<le> 1 + 3 * pages_of (bt_values (vmas s)) + free_frames m'"
proof -
  let ?vs = "bt_values (vmas s)"
  have "0 < free_frames m" using free by simp
  then obtain m1 c where new: "AddressSpace_new rc current rnd1 rnd2 pid m = (m1, Some c)"
    and tt: "two_trees R D m1 (as_cr3 s) (as_cr3 c)" and k: "keeps_frames D m m1"
    and N: "page_entry m1 (as_cr3 s) = page_entry m (as_cr3 s)" "\<forall>v. small_page m (as_cr3 s) v \<longrightarrow> small_page m1 (as_cr3 s) v"
      "\<forall>w. page_entry m1 (as_cr3 c) w = None" "\<forall>w. user_page w \<longrightarrow> small_page m1 (as_cr3 c) w"
      "free_frames m = Suc (free_frames m1)" "vmas c = []" "cow_pages c = []"
    by (rule AddressSpace_new_tree [OF inv(1) rc _ kernel]) (rule that; assumption)
  define c0 where "c0 = c\<lparr>as_brk := as_brk s, mmap_next := mmap_next s\<rparr>"
  have c0: "as_cr3 c0 = as_cr3 c" "vmas c0 = []" "cow_pages c0 = []" by (simp_all add: c0_def N)
  obtain m' child where run: "fold (fork_vma rc (as_cr3 s)) ?vs (m1, c0) = (m', child)" by force
  have "\<forall>v \<in> set ?vs. \<forall>w. vma_contains v w \<longrightarrow> small_page m1 (as_cr3 s) w \<and> small_page m1 (as_cr3 c0) w"
  proof (intro ballI allI impI)
    fix v w assume v: "v \<in> set ?vs" "vma_contains v w"
    then have "find_vma s w = Some v" using find_vma_Some [OF ok(1)] bt_values_iff [OF areas_ok_wf [OF ok(1)]] by blast
    moreover have "unat w < 2 ^ 47" using v ok(2) by (fastforce simp: vma_contains_def word_less_nat_alt)
    ultimately show "small_page m1 (as_cr3 s) w \<and> small_page m1 (as_cr3 c0) w" using N(2,4) small user_page_low c0(1) by simp
  qed
  then have S: "shared_step R D (as_cr3 s) (as_cr3 c0) (3 * pages_of ?vs) m1 m'" "shares ?vs (as_cr3 s) (m1, c0) (m', child)"
    using fork_areas [OF _ rc(1) _ areas_sorted(1) [OF ok(1)] _ _ run] tt areas_sorted(2) [OF ok(1)] ok(2) free N(5) c0(1) by auto
  note D = sharesD [OF S(2)]
  have cr3: "as_cr3 child = as_cr3 c0" using child_update(1) [OF D(1)] .
  have "vmas child = fold (\<lambda>v. bt_insert (vma_start v) (forked v)) ?vs []" using child_update(3) [OF D(1)] c0(2) by simp
  note F = forked_areas [OF ok(1) this]
  show thesis
  proof (rule that [of m' child])
    show "fork rc current rnd1 rnd2 pid m s = (m', Some child)" using new run by (simp add: fork_def c0_def)
    show tt': "two_trees R D m' (as_cr3 s) (as_cr3 child)" using S(1) cr3 by (simp add: shared_step_def)
    show "areas_ok child" by (rule F(1))
    show "small_page m' (as_cr3 child) w" if "user_page w" for w using S(1) N(4) c0(1) cr3 that by (simp add: shared_step_def)
    show "free_frames m \<le> 1 + 3 * pages_of ?vs + free_frames m'" using S(1) N(5) by (simp add: shared_step_def)
    have D1: "pfn (entry_addr e') \<in> D" if "unat w < 2 ^ 47" "page_entry m' (as_cr3 s) w = Some e'" for w e'
    proof -
      have "shared_entry (area_flags ?vs w) (page_entry m (as_cr3 s) w) = Some e'"
        using D(2) [OF that(1)] that(2) N(1) by simp
      then obtain e where "page_entry m (as_cr3 s) w = Some e" "entry_addr e' = entry_addr e"
        using shared_entry_view(2) [OF ok(1), of w] by (cases "page_entry m (as_cr3 s) w") auto
      with inv(2) show ?thesis by (auto simp: mapped_in_def)
    qed
    have D2: "pfn (entry_addr e') \<in> D" if "unat w < 2 ^ 47" "page_entry m' (as_cr3 child) w = Some e'" for w e'
      using D(3) [OF that(1)] that(2) D1 [OF that(1)] N(3) cr3 c0(1) by (auto split: if_splits)
    show "mapped_in D m' (as_cr3 s)" unfolding mapped_in_def by (blast elim: low_page intro: D1)
    show "mapped_in D m' (as_cr3 child)" unfolding mapped_in_def by (blast elim: low_page intro: D2)
    have k': "keeps_frames D m m'" using k S(1) by (auto simp: shared_step_def intro: keeps_frames_trans)
    fix a :: u64 assume a: "unat a < 2 ^ 47"
    note V = shared_entry_view [OF ok(1), of a] and E = D(2-4) [OF a, unfolded V(1) N(1)]
    show "forks_memory m s m' child a"
    proof (cases "page_entry m (as_cr3 s) a")
      case None
      with E F(2) N(3) c0 cr3 show ?thesis by (simp add: forks_memory_def mem_view_def writable_def)
    next
      case (Some e)
      then obtain e' where e': "page_entry m' (as_cr3 s) a = Some e'" using E(1) by (metis not_Some_eq shared_entry_None)
      have f: "pfn (entry_addr e) \<in> D" using inv(2) Some by (auto simp: mapped_in_def)
      have V': "entry_addr e' = entry_addr e" "shared_at s a \<Longrightarrow> \<not> flags_contain e' WRITABLE" "\<not> shared_at s a \<Longrightarrow> e' = e"
        using V(2) [of e e'] E(1) e' Some by auto
      note I = mem_view_same_frame [OF k' Some f]
      have "mem_view m' (as_cr3 s) a = mem_view m (as_cr3 s) a" using I [OF e'] V'(1) by simp
      moreover have "page_entry m' (as_cr3 child) a = (if shared_at s a then Some e' else None)"
        using E(2) Some e' cr3 N(3) c0(1) by simp
      ultimately show ?thesis
        using I [of "as_cr3 child" e'] V' E(3) Some e' F(2) c0(3)
        by (auto simp: forks_memory_def writable_def mem_view_def)
    qed
  qed
qed

end
