(* ===== verification/Page_Fault.thy ===== *)
theory Page_Fault
  imports Copy_On_Write
begin

text \<open>
  The page faults of \<open>space.rs\<close>: a write to a page shared by \<open>fork\<close> and the first access to a page
  of an area. Both hand the process a frame of its own, filled before the process runs again, and
  leave what every other process sees as it was.
\<close>

section \<open>One frame for one of two processes\<close>

lemma two_trees_allocate:
  assumes tt: "two_trees R D m p c" and rc: "reclaim_ok R rc" and a: "allocate_physical_frame rc m = (m1, Some f)"
  shows "two_trees R (insert (pfn f) D) m1 p c" "same_memory m m1" "frame_addr f" "pfn f \<notin> D"
proof -
  note A = allocate_inv [OF two_trees_inv [OF tt] rc a] and B = allocate_inv [OF two_trees_inv [OF two_trees_sym [OF tt]] rc a]
  show "same_memory m m1" "frame_addr f" "pfn f \<notin> D" using A by simp_all
  show "two_trees R (insert (pfn f) D) m1 p c"
    using tt A B same_memory_tree(1,2) [OF A(2)] by (auto simp: two_trees_def pt_inv_def Un_ac)
qed

text \<open>Filling a frame that is no table.\<close>

lemma two_trees_fill:
  assumes tt: "two_trees R (insert (pfn f) D) m p c" and same: "\<And>x. pfn x \<noteq> pfn f \<Longrightarrow> phys_mem m' x = phys_mem m x"
    and eq: "frame_pool m' = frame_pool m" "Machine.more m' = Machine.more m" "phys_mem_offset m' = phys_mem_offset m"
  shows "two_trees R (insert (pfn f) D) m' p c" "page_entry m' p = page_entry m p" "page_entry m' c = page_entry m c"
    "small_page m c v \<Longrightarrow> small_page m' c v" "pfn f \<notin> D \<Longrightarrow> keeps_frames D m m'"
proof -
  have wf: "pt_wf m p" "pt_wf m c" and f: "pfn f \<notin> pfn ` tables m p \<union> pfn ` tables m c" using tt by (auto simp: two_trees_def)
  have k: "keeps_frames (pfn ` tables m p \<union> pfn ` tables m c) m m'"
    unfolding keeps_frames_def by (intro allI impI same) (use f in metis)
  have off: "phys_mem_offset m' \<noteq> 0" using wf(1) eq(3) by (simp add: pt_wf_def)
  note P = keeps_tree [OF wf(1) k _ off] and C = keeps_tree [OF wf(2) k _ off]
  show "page_entry m' p = page_entry m p" "page_entry m' c = page_entry m c" "small_page m c v \<Longrightarrow> small_page m' c v"
    using P(3) C(3,4) by simp_all
  show "two_trees R (insert (pfn f) D) m' p c"
    using tt P(1,2) C(1,2) apart_cong [OF _ eq(1,2)] by (simp add: two_trees_def)
  show "pfn f \<notin> D \<Longrightarrow> keeps_frames D m m'" unfolding keeps_frames_def by (intro allI impI same) metis
qed

lemma two_trees_map:
  fixes f :: u64
  assumes tt: "two_trees R D m p c" and rc: "reclaim_ok R rc" and small: "small_page m c v" and free: "3 \<le> free_frames m"
    and fl: "flags_contain fl PRESENT"
  defines "m' \<equiv> map_page_in_table rc m c v f fl"
  shows "two_trees R D m' p c" "page_entry m' p = page_entry m p" "keeps_frames D m m'"
    "page_entry m' c = (\<lambda>w. if page_path w = page_path v then Some (set_addr f fl) else page_entry m c w)"
proof -
  note M = map_page_maps [OF two_trees_inv [OF two_trees_sym [OF tt]] rc small free fl, where frame = f, folded m'_def]
  from two_trees_step [OF tt M(1,5)] M(2)
  show "two_trees R D m' p c" "page_entry m' p = page_entry m p" "keeps_frames D m m'"
    "page_entry m' c = (\<lambda>w. if page_path w = page_path v then Some (set_addr f fl) else page_entry m c w)" by simp_all
qed

lemma unmap_frame_pool [simp]: "free_frames (unmap_page_in_table m cr3 v) = free_frames m"
  by (simp add: unmap_page_in_table_def write_entry_def Let_def split: option.split)

lemma unmap_small:
  assumes "pt_inv R used m cr3" and "small_page m cr3 v" "small_page m cr3 w"
  shows "small_page (unmap_page_in_table m cr3 v) cr3 w"
  using find_l1_frame [OF assms(1,2)] assms(3) by (simp add: unmap_page_in_table_def Let_def split: option.split)

lemma two_trees_unmap:
  assumes tt: "two_trees R D m p c" and small: "small_page m c v"
  defines "m' \<equiv> unmap_page_in_table m c v"
  shows "two_trees R D m' p c" "page_entry m' p = page_entry m p" "keeps_frames D m m'" "small_page m' c v"
    "page_entry m' c = (\<lambda>w. if page_path w = page_path v then None else page_entry m c w)"
proof -
  note inv = two_trees_inv [OF two_trees_sym [OF tt]]
  note U = unmap_page_pages [OF inv small, folded m'_def] and K = unmap_keeps_frames [OF inv small, folded m'_def]
  from two_trees_step [OF tt U(1) K] U(2) unmap_small [OF inv small small, folded m'_def]
  show "two_trees R D m' p c" "page_entry m' p = page_entry m p" "keeps_frames D m m'" "small_page m' c v"
    "page_entry m' c = (\<lambda>w. if page_path w = page_path v then None else page_entry m c w)" by simp_all
qed

section \<open>The flags and the page of a fault\<close>

lemma user_rwx_facts [simp]: "flags_contain user_rwx PRESENT" "user_rwx AND 0x000FFFFFFFFFF000 = 0"
  by (simp_all add: flag_defs)

lemma vma_page_flags_facts [simp]:
  "flags_contain (vma_page_flags s a) PRESENT" "vma_page_flags s a AND 0x000FFFFFFFFFF000 = 0"
  by (cases "find_vma s a"; simp add: vma_page_flags_def del: bit.conj_disj_distrib)+

lemma small_page_path: "page_path v = page_path w \<Longrightarrow> small_page m cr3 v \<longleftrightarrow> small_page m cr3 w"
  by (simp add: small_page_def page_path_def)

lemma align_down_path [simp]: "page_path (page_align_down a) = page_path a"
  by (simp add: page_align_down_page page_path_page)

lemma copied_byte:
  assumes "frame_addr f" and "phys_mem_offset m \<noteq> 0"
  shows "phys_mem (copy_physical_frame m g f) (f + of_nat (offset_of a)) = phys_mem m (g + of_nat (offset_of a))"
  using assms offset_less [of a]
  by (simp add: copy_physical_frame_def store_bytes_def load_bytes_def unat_of_nat_small)

lemma zeroed_byte:
  assumes "frame_addr f" and "phys_mem_offset m \<noteq> 0"
  shows "phys_mem (zero_physical_frame m f) (f + of_nat (offset_of a)) = 0"
  using assms offset_less [of a] by (simp add: zero_physical_frame_def store_bytes_def unat_of_nat_small)

section \<open>A write to a shared page\<close>

text \<open>The state of the process after a copy, and what the copy promises of the two images.\<close>

definition cow_resolved :: "AddressSpace \<Rightarrow> u64 \<Rightarrow> u64 \<Rightarrow> AddressSpace" where
  "cow_resolved s a f = s\<lparr>owned_frames := owned_frames s @ [f], cow_pages := bt_remove (page_align_down a) (cow_pages s)\<rparr>"

definition private_page :: "nat set \<Rightarrow> 'e Machine_scheme \<Rightarrow> u64 \<Rightarrow> u64 \<Rightarrow> u64 \<Rightarrow> u64 \<Rightarrow> 'e Machine_scheme \<Rightarrow> bool" where
  "private_page D m p c a e m' \<longleftrightarrow> pfn (entry_addr e) \<notin> D \<and> page_entry m' p = page_entry m p \<and> mem_view m' p = mem_view m p
     \<and> page_entry m' c = (\<lambda>w. if page_path w = page_path a then Some e else page_entry m c w)"

lemma handle_cow_fault_copies:
  assumes tt: "two_trees R D m p (as_cr3 s)" and rc: "reclaim_ok R rc"
    and in_D: "mapped_in D m p" "mapped_in D m (as_cr3 s)"
    and small: "small_page m (as_cr3 s) a" and e: "page_entry m (as_cr3 s) a = Some e"
    and cow: "bt_get (cow_pages s) (page_align_down a) = Some (entry_addr e)" and free: "4 \<le> free_frames m"
  obtains m' f where "handle_cow_fault rc a m s = (m', cow_resolved s a f, True)"
    "two_trees R (insert (pfn f) D) m' p (as_cr3 s)" "frame_addr f"
    "private_page D m p (as_cr3 s) a (set_addr f (vma_page_flags s (page_align_down a))) m'"
    "mem_view m' (as_cr3 s) = mem_view m (as_cr3 s)"
proof -
  let ?c = "as_cr3 s" and ?v = "page_align_down a" and ?fl = "vma_page_flags s (page_align_down a)"
  have off: "phys_mem_offset m \<noteq> 0" and ok: "pool_ok (frame_pool m)"
    using tt by (simp_all add: two_trees_def pt_wf_def apart_def)
  obtain m1 f where al: "allocate_physical_frame rc m = (m1, Some f)" "free_frames m = Suc (free_frames m1)"
    using allocate_takes_one [OF ok] free by (metis not_numeral_le_zero not_gr_zero)
  note A = two_trees_allocate [OF tt rc al(1)] and V1 = same_memory_view [OF \<open>same_memory m m1\<close>]
  note T1 = same_memory_tree [OF A(2)]
  define m2 where "m2 = copy_physical_frame m1 (entry_addr e) f"
  have f: "page_aligned f" using A(3) by (simp add: frame_addr_def)
  have off1: "phys_mem_offset m1 \<noteq> 0" using off A(2) by (simp add: same_memory_def)
  have same: "phys_mem m2 x = phys_mem m1 x" if "pfn x \<noteq> pfn f" for x
    using that store_other_frame [OF f, of 0 _ x] by (simp add: m2_def copy_physical_frame_def)
  note F = two_trees_fill [OF A(1) same]
  have m2: "frame_pool m2 = frame_pool m1" "Machine.more m2 = Machine.more m1" "phys_mem_offset m2 = phys_mem_offset m1"
    by (simp_all add: m2_def copy_physical_frame_def)
  have s2: "small_page m2 ?c ?v" using F(4) [OF _ m2] T1(4) small by (simp add: small_page_path [of ?v a])
  note U = two_trees_unmap [OF F(1) [OF _ m2] s2]
  define m3 where "m3 = unmap_page_in_table m2 ?c ?v"
  have free3: "3 \<le> free_frames m3" using free al(2) m2(1) by (simp add: m3_def)
  define m' where "m' = map_page_in_table rc m3 ?c ?v f ?fl"
  note M = two_trees_map [OF U(1) [folded m3_def] rc U(4) [folded m3_def] free3 vma_page_flags_facts(1), of f s ?v, folded m'_def]
  have kf: "keeps_frames (insert (pfn f) D) m2 m'"
    using U(3) M(3) unfolding m3_def by (rule keeps_frames_trans)
  have k: "keeps_frames D m m'"
  proof -
    have "keeps_frames D m m2" using F(5) [OF _ m2 A(4)] same_memory_frames [OF A(2), of D] by (metis keeps_frames_trans)
    with kf show ?thesis by (simp add: keeps_frames_def)
  qed
  have P: "page_entry m' p = page_entry m p" using M(2) U(2) F(2) [OF _ m2] V1(1) by (simp add: m3_def)
  have C: "page_entry m' ?c = (\<lambda>w. if page_path w = page_path a then Some (set_addr f ?fl) else page_entry m ?c w)"
    using M(4) U(5) F(3) [OF _ m2] V1(1) by (auto simp: m3_def fun_eq_iff)
  have fe: "entry_addr (set_addr f ?fl) = f" using A(3) by (simp add: entry_addr_set)
  have "mem_view m' ?c w = mem_view m ?c w" for w
  proof (cases "page_path w = page_path a")
    case True
    have "page_entry m ?c w = Some e" using page_entry_path [OF True, of m ?c] e by simp
    moreover have "phys_mem m' (f + of_nat (offset_of w)) = phys_mem m2 (f + of_nat (offset_of w))"
      using kf pfn_offset [OF f offset_less] by (simp add: keeps_frames_def)
    moreover have "phys_mem m1 = phys_mem m" using A(2) by (simp add: same_memory_def)
    ultimately show ?thesis using True copied_byte [OF A(3) off1] by (simp add: mem_view_def C fe m2_def)
  next
    case False
    then show ?thesis by (intro mem_view_keeps [OF k in_D(2)]) (simp add: C)
  qed
  moreover have "mem_view m' p w = mem_view m p w" for w by (intro mem_view_keeps [OF k in_D(1)]) (simp add: P)
  moreover have "handle_cow_fault rc a m s = (m', cow_resolved s a f, True)"
    using cow al(1)
    by (simp add: handle_cow_fault_def cow_resolved_def Let_def m'_def m3_def m2_def vma_page_flags_def find_vma_def)
  ultimately show thesis
    using that M(1) A(3,4) P C fe by (auto simp: private_page_def fun_eq_iff)
qed

section \<open>The first access to a page\<close>

text \<open>What a page of an area holds when it is first touched: zeros, or the bytes of its file followed by zeros.\<close>

definition first_bytes :: "(string \<Rightarrow> u64 \<Rightarrow> u8 list) \<Rightarrow> VirtualMemoryArea \<Rightarrow> u64 \<Rightarrow> u8 list" where
  "first_bytes rd v page = (if vma_type v = FileBacked then
     (case file_path v of None \<Rightarrow> [] | Some path \<Rightarrow> take 4096 (rd path (file_offset v + (page - vma_start v)))) else [])"

definition padded :: "u8 list \<Rightarrow> u64 \<Rightarrow> u8" where
  "padded bs w = (if offset_of w < length bs then bs ! offset_of w else 0)"

definition fill_first ::
  "(string \<Rightarrow> u64 \<Rightarrow> u8 list) \<Rightarrow> u32 \<Rightarrow> VirtualMemoryArea \<Rightarrow> u64 \<Rightarrow> u64 \<Rightarrow> 'x vm \<Rightarrow> 'x vm" where
  "fill_first rd pid v page f m = (let m = zero_physical_frame m f in
     if vma_type v = FileBacked then
       (case file_path v of None \<Rightarrow> m
        | Some path \<Rightarrow> fill_file_backed_page rd m path (file_offset v + (page - vma_start v)) f)
     else track_anon pid page f m)"

lemma fill_file_backed_page_eq:
  assumes "phys_mem_offset m \<noteq> 0"
  shows "fill_file_backed_page rd m path off f = m\<lparr>phys_mem := store_bytes f (take 4096 (rd path off)) (phys_mem m)\<rparr>"
  using assms by (cases m) (auto simp: fill_file_backed_page_def copy_to_physical_frame_def store_bytes_def Let_def)

lemma fill_first_eq:
  assumes "phys_mem_offset m \<noteq> 0"
  obtains sw where "fill_first rd pid v page f m = m\<lparr>swap_manager := sw,
     phys_mem := store_bytes f (first_bytes rd v page) (store_bytes f (replicate 4096 0) (phys_mem m))\<rparr>"
proof -
  have nil: "store_bytes f [] g = g" for g by (simp add: store_bytes_def)
  have off: "phys_mem_offset (zero_physical_frame m f) \<noteq> 0" using assms by (simp add: zero_physical_frame_def)
  have id: "m\<lparr>phys_mem := g\<rparr> = m\<lparr>swap_manager := swap_manager m, phys_mem := g\<rparr>" for g by simp
  show thesis
  proof (cases "vma_type v = FileBacked")
    case True
    then show thesis
      using assms that [of "swap_manager m"] fill_file_backed_page_eq [OF off, of rd _ _ f]
      by (cases "file_path v") (simp_all add: fill_first_def first_bytes_def nil zero_physical_frame_def Let_def)
  next
    case False
    then show thesis using assms
      by (intro that [of "track_anon_page pid page f (swap_manager m)"])
        (simp add: fill_first_def first_bytes_def nil zero_physical_frame_def track_anon_def Let_def)
  qed
qed

lemma first_byte:
  "store_bytes f (first_bytes rd v page) (store_bytes f (replicate 4096 0) g) (f + of_nat (offset_of w)) = padded (first_bytes rd v page) w"
  using offset_less [of w] by (auto simp: store_bytes_def padded_def unat_of_nat_small)

lemma first_bytes_other:
  assumes "page_aligned f" "pfn x \<noteq> pfn f"
  shows "store_bytes f (first_bytes rd v page) (store_bytes f (replicate 4096 0) g) x = g x"
proof -
  have "length (first_bytes rd v page) \<le> 4096" by (simp add: first_bytes_def split: option.split)
  with store_other_frame [OF assms(1) _ assms(2), of 0] show ?thesis by simp
qed

lemma fill_first_trees:
  fixes m :: "'x vm" and rd pid v page
  assumes tt: "two_trees R (insert (pfn f) D) m p c" and R: "ignores_vm R" and f: "page_aligned f" "pfn f \<notin> D"
  defines "m' \<equiv> fill_first rd pid v page f m"
  shows "two_trees R (insert (pfn f) D) m' p c" "page_entry m' p = page_entry m p" "page_entry m' c = page_entry m c"
    "keeps_frames D m m'" "phys_mem m' (f + of_nat (offset_of w)) = padded (first_bytes rd v page) w"
proof -
  have "phys_mem_offset m \<noteq> 0" using tt by (simp add: two_trees_def pt_wf_def)
  then obtain sw where m': "m' = m\<lparr>swap_manager := sw,
     phys_mem := store_bytes f (first_bytes rd v page) (store_bytes f (replicate 4096 0) (phys_mem m))\<rparr>"
    unfolding m'_def by (rule fill_first_eq)
  define m1 where "m1 = m\<lparr>swap_manager := sw\<rparr>"
  note sm = same_memory_vm(2) [of m sw, folded m1_def]
  have tt1: "two_trees R (insert (pfn f) D) m1 p c" using tt two_trees_vm(2) [OF R] by (simp add: m1_def)
  have same: "phys_mem m' x = phys_mem m1 x" if "pfn x \<noteq> pfn f" for x
    using first_bytes_other [OF f(1) that] by (simp add: m' m1_def)
  have eq: "frame_pool m' = frame_pool m1" "Machine.more m' = Machine.more m1" "phys_mem_offset m' = phys_mem_offset m1"
    by (simp_all add: m' m1_def)
  note F = two_trees_fill [OF tt1 same eq]
  show "two_trees R (insert (pfn f) D) m' p c" using F(1) by simp
  show "page_entry m' p = page_entry m p" "page_entry m' c = page_entry m c" using F(2,3) same_memory_view(1) [OF sm] by simp_all
  show "keeps_frames D m m'" using F(5) [OF _ f(2)] same_memory_frames [OF sm, of D] by (metis keeps_frames_trans)
  show "phys_mem m' (f + of_nat (offset_of w)) = padded (first_bytes rd v page) w" by (simp add: m' first_byte)
qed

definition demand_served :: "AddressSpace \<Rightarrow> u64 \<Rightarrow> AddressSpace" where
  "demand_served s f = s\<lparr>owned_frames := owned_frames s @ [f]\<rparr>"

lemma handle_demand_fault_eq:
  assumes "find_vma s (page_align_down a) = Some v" "vma_type v \<noteq> Guard" "demandable (vma_type v)"
    and "get_mapped_frame m (as_cr3 s) (page_align_down a) = None" and "allocate_physical_frame rc m = (m1, Some f)"
  shows "handle_demand_fault rd rc a m s = (fill_first rd (as_pid s) v (page_align_down a) f
    (map_page_in_table rc m1 (as_cr3 s) (page_align_down a) f (to_page_flags (vma_prot v))), demand_served s f, True)"
  using assms by (simp add: handle_demand_fault_def demand_served_def Let_def fill_first_def split: option.split)

lemma handle_demand_fault_serves:
  assumes tt: "two_trees R D m p (as_cr3 s)" and rc: "reclaim_ok R rc" "ignores_vm R"
    and in_D: "mapped_in D m p" "mapped_in D m (as_cr3 s)"
    and small: "small_page m (as_cr3 s) a" and e: "page_entry m (as_cr3 s) a = None"
    and v: "find_vma s (page_align_down a) = Some v" "demandable (vma_type v)" and free: "4 \<le> free_frames m"
  obtains m' f where "handle_demand_fault rd rc a m s = (m', demand_served s f, True)"
    "two_trees R (insert (pfn f) D) m' p (as_cr3 s)" "frame_addr f"
    "private_page D m p (as_cr3 s) a (set_addr f (to_page_flags (vma_prot v))) m'"
    "\<And>w. mem_view m' (as_cr3 s) w = (if page_path w = page_path a then Some (padded (first_bytes rd v (page_align_down a)) w)
        else mem_view m (as_cr3 s) w)"
proof -
  let ?c = "as_cr3 s" and ?v = "page_align_down a" and ?fl = "to_page_flags (vma_prot v)"
  have off: "phys_mem_offset m \<noteq> 0" and ok: "pool_ok (frame_pool m)" and wf: "pt_wf m ?c"
    using tt by (simp_all add: two_trees_def pt_wf_def apart_def)
  obtain m1 f where al: "allocate_physical_frame rc m = (m1, Some f)" "free_frames m = Suc (free_frames m1)"
    using allocate_takes_one [OF ok] free by (metis not_numeral_le_zero not_gr_zero)
  note A = two_trees_allocate [OF tt rc(1) al(1)] and V1 = same_memory_view [OF \<open>same_memory m m1\<close>]
  have f: "page_aligned f" using A(3) by (simp add: frame_addr_def)
  have s1: "small_page m ?c ?v" "small_page m1 ?c ?v" using same_memory_tree(4) [OF A(2)] small by (simp_all add: small_page_path [of ?v a])
  have free1: "3 \<le> free_frames m1" using free al(2) by simp
  define m2 where "m2 = map_page_in_table rc m1 ?c ?v f ?fl"
  note M = two_trees_map [OF A(1) rc(1) s1(2) free1 prot_flags(1), of f "vma_prot v", folded m2_def]
  define m' where "m' = fill_first rd (as_pid s) v ?v f m2"
  note F = fill_first_trees [OF M(1) rc(2) f A(4), of rd "as_pid s" v ?v, folded m'_def]
  have k: "keeps_frames D m m'" using same_memory_frames [OF A(2), of D] M(3) F(4) by (simp add: keeps_frames_def)
  have P: "page_entry m' p = page_entry m p" using F(2) M(2) V1(1) by simp
  have C: "page_entry m' ?c = (\<lambda>w. if page_path w = page_path a then Some (set_addr f ?fl) else page_entry m ?c w)"
    using F(3) M(4) V1(1) by (simp add: fun_eq_iff)
  have fe: "entry_addr (set_addr f ?fl) = f" using A(3) by (simp add: entry_addr_set)
  have "mem_view m' ?c w = (if page_path w = page_path a then Some (padded (first_bytes rd v ?v) w) else mem_view m ?c w)" for w
  proof (cases "page_path w = page_path a")
    case True
    then show ?thesis using F(5) by (simp add: mem_view_def C fe)
  next
    case False
    with mem_view_keeps [OF k in_D(2), of w] show ?thesis by (simp add: C)
  qed
  moreover have "mem_view m' p w = mem_view m p w" for w by (intro mem_view_keeps [OF k in_D(1)]) (simp add: P)
  moreover have "handle_demand_fault rd rc a m s = (m', demand_served s f, True)"
  proof -
    have "page_entry m ?c ?v = None" using e page_entry_path [OF align_down_path, of m ?c a] by simp
    then have "get_mapped_frame m ?c ?v = None" using page_entry_get(3) [OF wf s1(1)] by simp
    moreover have "vma_type v \<noteq> Guard" using v(2) by (auto simp: demandable_def)
    ultimately show ?thesis using handle_demand_fault_eq [OF v(1) _ v(2) _ al(1)] by (simp add: m'_def m2_def)
  qed
  ultimately show thesis
    using that M(1) A(3,4) P C fe F(1) by (auto simp: private_page_def fun_eq_iff)
qed

section \<open>Two processes\<close>

text \<open>A store to a frame that belongs to one process is invisible to the other.\<close>

lemma store_private:
  assumes tt: "two_trees R (insert (pfn f) D) m p c" and "mapped_in D m p" and f: "frame_addr f" "pfn f \<notin> D"
    and len: "i + length bs \<le> 4096"
  shows "mem_view (m\<lparr>phys_mem := store_bytes (f + of_nat i) bs (phys_mem m)\<rparr>) p = mem_view m p"
proof
  fix a
  let ?m = "m\<lparr>phys_mem := store_bytes (f + of_nat i) bs (phys_mem m)\<rparr>"
  have al: "page_aligned f" using f(1) by (simp add: frame_addr_def)
  have same: "phys_mem ?m x = phys_mem m x" if "pfn x \<noteq> pfn f" for x using store_other_frame [OF al len that] by simp
  note F = two_trees_fill [OF tt, of ?m, OF same]
  have "page_entry ?m p = page_entry m p" "keeps_frames D m ?m" using F(2,5) f(2) by simp_all
  then show "mem_view ?m p a = mem_view m p a" using mem_view_keeps assms(2) by metis
qed




section \<open>A parent and its child\<close>

text \<open>The two mapped pages at \<open>0x400000\<close> and a third, untouched one, in one area; a kernel table at \<open>0x6000\<close>.\<close>

definition fk_demo :: Vm where
  "fk_demo = \<lparr>phys_mem = phys_mem um_demo,
     frame_pool = fold (\<lambda>f p. add_frame p f) (map (\<lambda>i. 0x10000 + 0x1000 * of_nat i) [0..<20]) PhysicalFramePool_new,
     phys_mem_offset = phys_mem_offset um_demo, kernel_cr3 = 0x6000, kernel_l4_template = 0,
     swap_manager = SwapManager_new, aslr_seed = 1, wx_policy = Strict, wx_violations = 0\<rparr>"

definition fk_area :: VirtualMemoryArea where
  "fk_area = (mmap_area 0x400000 0x3000 ProtFlags_RW
     \<lparr>map_shared = False, map_anonymous = True, map_fixed = False, map_populate = False\<rparr>)"

definition fk_parent :: AddressSpace where
  "fk_parent = \<lparr>as_pid = 1, as_cr3 = 0x1000, vmas = [(0x400000, fk_area)],
     as_brk = 0x40000000, mmap_next = 0x700000000000, owned_frames = [], cow_pages = []\<rparr>"

lemma add_frames_pool:
  "pool_ok p \<Longrightarrow> pool_ok (fold (\<lambda>f p. add_frame p f) fs p)
     \<and> frames_of (fold (\<lambda>f p. add_frame p f) fs p) = frames_of p + mset (map pfn fs)"
  by (induction fs arbitrary: p) (simp_all add: add_frame_spec)

lemma fk_demo_pool: "pool_ok (frame_pool fk_demo)" "frames_of (frame_pool fk_demo) = mset [16..<36]"
proof -
  have "pfn (0x10000 + 0x1000 * of_nat i) = 16 + i" if "i < 20" for i
  proof -
    have "unat (0x10000 + of_nat (0x1000 * i) :: u64) = 0x10000 + 0x1000 * i"
      using that unat_plus_small [of "0x10000" "0x1000 * i"] by simp
    then show ?thesis by (simp add: pfn_def)
  qed
  then have "map pfn (map (\<lambda>i. 0x10000 + 0x1000 * of_nat i) [0..<20]) = map (\<lambda>i. 16 + i) [0..<20]" by simp
  also have "\<dots> = [16..<36]" by (simp add: upt_rec)
  finally have "mset (map pfn (map (\<lambda>i. 0x10000 + 0x1000 * of_nat i) [0..<20])) = mset [16..<36]" by (simp only:)
  with add_frames_pool [OF new_ok(1), of "map (\<lambda>i. 0x10000 + 0x1000 * of_nat i) [0..<20]"]
  show "pool_ok (frame_pool fk_demo)" "frames_of (frame_pool fk_demo) = mset [16..<36]"
    unfolding fk_demo_def new_ok(2) by (simp_all only: Machine.simps add_0)
qed

lemma fk_demo_reads: "read_entry fk_demo t i = read_entry um_demo t i"
  by (simp add: read_entry_def fk_demo_def)

lemma fk_demo_walk: "walk fk_demo t p = walk um_demo t p"
  by (induction p arbitrary: t) (simp_all add: walk.simps fk_demo_reads Let_def)

lemma fk_demo_offset: "phys_mem_offset fk_demo = phys_mem_offset um_demo"
  by (simp add: fk_demo_def)

lemma fk_demo_tree:
  "pt_wf fk_demo 0x1000" "tables fk_demo 0x1000 = tables um_demo 0x1000" "page_entry fk_demo 0x1000 = page_entry um_demo 0x1000"
  using um_demo_wf
  by (simp_all add: pt_wf_def tables_def page_entry_eq fun_eq_iff fk_demo_walk fk_demo_reads fk_demo_offset split: option.split)

lemma fk_demo_frames: "mapped_in {6, 7, 9} fk_demo 0x1000" "pt_inv (\<lambda>_. {#}) {6, 7, 9} fk_demo 0x1000" "free_frames fk_demo = 20"
proof -
  have "e = 0x9007 \<or> e = 0x7007" if "page_entry um_demo 0x1000 w = Some e" for w e
  proof -
    from that obtain l1 where l1: "user_page w" "walk um_demo 0x1000 (l1_path w) = Some l1" "e = read_entry um_demo l1 (l1_idx w)" "\<not> is_unused e"
      by (auto simp: page_entry_eq Let_def split: if_splits option.splits)
    then have "l1 = 0x4000" using um_demo_walk [of "l1_path w" l1] by auto
    with l1(3,4) show ?thesis by (auto simp: um_demo_simps split: if_splits)
  qed
  then show "mapped_in {6, 7, 9} fk_demo 0x1000"
    by (fastforce simp: mapped_in_def fk_demo_tree um_demo_entries pfn_def)
  have "pfn ` tables fk_demo 0x1000 \<subseteq> {1, 2, 3, 4}"
    using um_demo_tables by (auto simp: fk_demo_tree pfn_def)
  then show "pt_inv (\<lambda>_. {#}) {6, 7, 9} fk_demo 0x1000"
    using fk_demo_tree(1) by (fastforce simp: pt_inv_def apart_def fk_demo_pool)
  show "free_frames fk_demo = 20" by (simp add: fk_demo_pool)
qed

lemma fk_parent_ok: "areas_ok fk_parent" "bt_values (vmas fk_parent) = [fk_area]"
  "find_vma fk_parent w = (if vma_contains fk_area w then Some fk_area else None)"
  by (simp_all add: fk_parent_def areas_ok_def area_ok_def fk_area_def mmap_area_def page_aligned_def bt_values_def
      find_vma_def bt_le_back_def vma_contains_def bt_wf_def)

lemma fk_small:
  assumes "user_page w"
  shows "small_page fk_demo 0x1000 w"
proof -
  have nh: "\<not> huge (read_entry um_demo t j)" if "t = 0x2000 \<or> t = 0x3000" "j < 512" for t j
    using that by (auto simp: um_demo_simps split: if_splits)
  have "table_path [l4_idx w]" "table_path [l4_idx w, l3_idx w]" using assms by simp_all
  from this [THEN um_demo_walk] show ?thesis
    using assms nh unfolding small_page_def fk_demo_walk fk_demo_reads by fastforce
qed

lemma fk_kernel: "kernel_table_ok {6, 7, 9} fk_demo (kernel_l4_source fk_demo 0)"
proof -
  have "kernel_l4_source fk_demo 0 = 0x6000" by (simp add: kernel_l4_source_def fk_demo_def)
  then show ?thesis
    by (simp add: kernel_table_ok_def fk_demo_reads um_demo_read page_aligned_def pfn_def is_unused_def)
qed

lemma fk_area_low: "vma_contains fk_area w \<Longrightarrow> unat w < 2 ^ 47"
  by (simp add: vma_contains_def fk_area_def mmap_area_def word_less_nat_alt)

lemma fk_hypotheses:
  "\<forall>v \<in> set (bt_values (vmas fk_parent)). unat (vma_end v) \<le> 2 ^ 47"
  "pt_inv (\<lambda>_. {#}) {6, 7, 9} fk_demo (as_cr3 fk_parent)" "mapped_in {6, 7, 9} fk_demo (as_cr3 fk_parent)"
  "reclaim_ok (\<lambda>_. {#}) (id, id, id)" "ignores_vm (\<lambda>_. {#})"
  "\<forall>w. find_vma fk_parent w \<noteq> None \<longrightarrow> small_page fk_demo (as_cr3 fk_parent) w"
  "1 + 3 * pages_of (bt_values (vmas fk_parent)) \<le> free_frames fk_demo"
proof -
  have cr3: "as_cr3 fk_parent = 0x1000" by (simp add: fk_parent_def)
  show "pt_inv (\<lambda>_. {#}) {6, 7, 9} fk_demo (as_cr3 fk_parent)" "mapped_in {6, 7, 9} fk_demo (as_cr3 fk_parent)"
    using fk_demo_frames by (simp_all add: cr3)
  show "\<forall>w. find_vma fk_parent w \<noteq> None \<longrightarrow> small_page fk_demo (as_cr3 fk_parent) w"
    using fk_small fk_area_low user_page_low by (simp add: fk_parent_ok cr3)
  show "\<forall>v \<in> set (bt_values (vmas fk_parent)). unat (vma_end v) \<le> 2 ^ 47"
    by (simp add: fk_parent_ok fk_area_def mmap_area_def)
  show "reclaim_ok (\<lambda>_. {#}) (id, id, id)" "ignores_vm (\<lambda>_. {#})" by (simp_all add: reclaims_def ignores_vm_def)
  show "1 + 3 * pages_of (bt_values (vmas fk_parent)) \<le> free_frames fk_demo"
    using fk_demo_frames(3) by (simp add: fk_parent_ok pages_of_def vma_page_count_def fk_area_def mmap_area_def PAGE_SIZE_def)
qed

lemma fk_shared: "shared_at fk_parent a \<longleftrightarrow> vma_contains fk_area a"
  by (simp add: shared_at_def fk_parent_ok fk_area_def mmap_area_def)

lemma fk_entries: "page_entry fk_demo 0x1000 0x401000 = Some 0x7007" "page_entry fk_demo 0x1000 0x402000 = None"
  by (simp_all add: fk_demo_tree um_demo_pages page_entry_eq um_demo_simps l4_idx_def l3_idx_def l2_idx_def l1_idx_def)

lemma fk_byte: "phys_mem fk_demo 0x7000 = 0"
  by (simp add: fk_demo_def um_demo_def write_entry_other_frame page_aligned_def pfn_def) (simp add: pt_demo_def)

lemma fk_views:
  "mem_view fk_demo (as_cr3 fk_parent) 0x401000 = Some 0" "mem_view fk_demo (as_cr3 fk_parent) 0x402000 = None"
  "shared_at fk_parent 0x401000" "shared_at fk_parent 0x402000" "find_vma fk_parent 0x402000 = Some fk_area"
proof -
  have cr3: "as_cr3 fk_parent = 0x1000" by (simp add: fk_parent_def)
  from fk_entries fk_byte
  show "mem_view fk_demo (as_cr3 fk_parent) 0x401000 = Some 0" "mem_view fk_demo (as_cr3 fk_parent) 0x402000 = None"
    by (simp_all add: mem_view_def cr3 um_demo_entries offset_of_def)
  have "vma_contains fk_area 0x401000" "vma_contains fk_area 0x402000"
    by (simp_all add: vma_contains_def fk_area_def mmap_area_def)
  then show "shared_at fk_parent 0x401000" "shared_at fk_parent 0x402000" "find_vma fk_parent 0x402000 = Some fk_area"
    by (simp_all add: fk_shared fk_parent_ok)
qed

lemma fk_low: "unat (0x401000 :: u64) < 2 ^ 47" "unat (0x402000 :: u64) < 2 ^ 47"
  by simp_all


text \<open>The child of the example, before its first fault.\<close>

lemma fk_child:
  obtains m child where "fork (id, id, id) 0 None None 2 fk_demo fk_parent = (m, Some child)"
    "two_trees (\<lambda>_. {#}) {6, 7, 9} m (as_cr3 fk_parent) (as_cr3 child)"
    "mapped_in {6, 7, 9} m (as_cr3 fk_parent)" "mapped_in {6, 7, 9} m (as_cr3 child)"
    "\<And>a. unat a < 2 ^ 47 \<Longrightarrow> small_page m (as_cr3 child) a" "4 \<le> free_frames m"
    "\<And>a. unat a < 2 ^ 47 \<Longrightarrow> forks_memory fk_demo fk_parent m child a"
proof (rule fork_forks [OF fk_parent_ok(1) fk_hypotheses(1-5) fk_kernel fk_hypotheses(6,7), of None None 2])
  fix m child
  assume h: "fork (id, id, id) 0 None None 2 fk_demo fk_parent = (m, Some child)"
    "two_trees (\<lambda>_. {#}) {6, 7, 9} m (as_cr3 fk_parent) (as_cr3 child)" "\<And>a. unat a < 2 ^ 47 \<Longrightarrow> forks_memory fk_demo fk_parent m child a"
    "mapped_in {6, 7, 9} m (as_cr3 fk_parent)" "mapped_in {6, 7, 9} m (as_cr3 child)"
    "\<And>w. user_page w \<Longrightarrow> small_page m (as_cr3 child) w"
    "free_frames fk_demo \<le> 1 + 3 * pages_of (bt_values (vmas fk_parent)) + free_frames m"
  have "4 \<le> free_frames m"
    using h(7) fk_demo_frames(3)
    by (simp add: fk_parent_ok pages_of_def vma_page_count_def fk_area_def mmap_area_def PAGE_SIZE_def)
  with h user_page_low show thesis by (intro that [of m child]) blast+
qed



end
