(* ===== verification/Cgroup.thy ===== *)
theory Cgroup
  imports Btree "HOL-Library.List_Lexorder" "HOL-Library.Char_ord" "HOL-Library.Product_Lexorder"
begin

text \<open>
  Control groups: the version 1 groups of \<open>src/kernel/src/sched/cgroups.rs\<close> with their memory
  charges, and the unified hierarchy of \<open>src/kernel/src/sched/cgroup2.rs\<close> (a tree of groups, their
  controllers, and the charges for memory, processor time and writes). The pressure averages of
  \<open>cgroup2.rs\<close>, floating-point fields that no function changes, and the functions that print a group
  are left out.
\<close>

text \<open>\<open>saturating_add\<close>.\<close>

definition sat_add :: "u64 \<Rightarrow> u64 \<Rightarrow> u64" where
  "sat_add a b = (case checked_add a b of Some c \<Rightarrow> c | None \<Rightarrow> - 1)"

lemma unat_sat_add: "unat (sat_add a b) = min (unat a + unat b) (2 ^ 64 - 1)"
proof (cases "checked_add a b")
  case None
  then show ?thesis by (simp add: sat_add_def checked_add_def split: if_splits)
next
  case (Some c)
  from checked_add_Some [THEN iffD1, OF Some] unat_checked_add [OF Some] Some
  show ?thesis by (simp add: sat_add_def)
qed

text \<open>\<open>values_mut().find(p)\<close>: the first entry, in key order, whose value satisfies \<open>p\<close>.\<close>

definition first_key :: "('v \<Rightarrow> bool) \<Rightarrow> ('k, 'v) btree \<Rightarrow> 'k option" where
  "first_key p m = map_option fst (List.find (\<lambda>e. p (snd e)) m)"

lemma first_key_Some:
  assumes "bt_wf m" "first_key p m = Some k"
  obtains v where "bt_get m k = Some v" "p v"
proof -
  from assms(2) obtain v where f: "List.find (\<lambda>e. p (snd e)) m = Some (k, v)" by (auto simp: first_key_def)
  then obtain i where "i < length m" "p (snd (m ! i))" "(k, v) = m ! i" by (auto simp: find_Some_iff)
  then have "(k, v) \<in> set m" "p v" by (simp, metis snd_conv)
  with assms(1) that show ?thesis by (simp add: bt_get_iff)
qed

lemma first_key_None: "first_key p m = None \<longleftrightarrow> (\<forall>v \<in> set (bt_values m). \<not> p v)"
  by (auto simp: first_key_def find_None_iff bt_values_def)

section \<open>Version 1\<close>

record CpuController =
  shares :: u32
  quota_us :: i64
  period_us :: u64

record MemoryController =
  limit_bytes :: i64
  soft_limit_bytes :: i64
  usage_bytes :: u64
  max_usage_bytes :: u64
  oom_kill_enabled :: bool

record IoController =
  read_bps_limit :: u64
  write_bps_limit :: u64
  read_iops_limit :: u64
  write_iops_limit :: u64

record PidsController =
  pids_max :: i64
  pids_current :: u64

datatype FreezerState = Thawed | Freezing | Frozen

record CGroup =
  cgroup_name :: string
  cgroup_path :: string
  cgroup_pids :: "u32 list"
  cgroup_cpu :: CpuController
  cgroup_memory :: MemoryController
  cgroup_io :: IoController
  pids_ctrl :: PidsController
  freezer :: FreezerState

definition CGroup_new :: "string \<Rightarrow> string \<Rightarrow> CGroup" where
  "CGroup_new name path = \<lparr>cgroup_name = name, cgroup_path = path, cgroup_pids = [],
     cgroup_cpu = \<lparr>shares = 1024, quota_us = - 1, period_us = 100000\<rparr>,
     cgroup_memory = \<lparr>limit_bytes = - 1, soft_limit_bytes = - 1, usage_bytes = 0, max_usage_bytes = 0, oom_kill_enabled = True\<rparr>,
     cgroup_io = \<lparr>read_bps_limit = 0, write_bps_limit = 0, read_iops_limit = 0, write_iops_limit = 0\<rparr>,
     pids_ctrl = \<lparr>pids_max = - 1, pids_current = 0\<rparr>, freezer = Thawed\<rparr>"

text \<open>\<open>current as i64\<close> wraps; the count is a list length.\<close>

definition add_pid :: "u32 \<Rightarrow> CGroup \<Rightarrow> CGroup \<times> (string + unit)" where
  "add_pid pid cg =
     (let ctrl = pids_ctrl cg in
      if 0 \<le> pids_max ctrl \<and> pids_max ctrl \<le> sint (pids_current ctrl) then (cg, Inl ''PID limit reached'')
      else if pid \<notin> set (cgroup_pids cg) then
        (cg\<lparr>cgroup_pids := cgroup_pids cg @ [pid],
            pids_ctrl := ctrl\<lparr>pids_current := of_nat (length (cgroup_pids cg @ [pid]))\<rparr>\<rparr>, Inr ())
      else (cg, Inr ()))"

definition remove_pid :: "u32 \<Rightarrow> CGroup \<Rightarrow> CGroup" where
  "remove_pid pid cg =
     (let ps = filter (\<lambda>p. p \<noteq> pid) (cgroup_pids cg) in
      cg\<lparr>cgroup_pids := ps, pids_ctrl := (pids_ctrl cg)\<lparr>pids_current := of_nat (length ps)\<rparr>\<rparr>)"

definition can_allocate :: "u64 \<Rightarrow> CGroup \<Rightarrow> bool" where
  "can_allocate bytes cg \<longleftrightarrow> limit_bytes (cgroup_memory cg) < 0
     \<or> usage_bytes (cgroup_memory cg) + bytes \<le> of_int (limit_bytes (cgroup_memory cg))"

definition record_alloc :: "u64 \<Rightarrow> CGroup \<Rightarrow> CGroup" where
  "record_alloc bytes cg =
     (let m = cgroup_memory cg; u = usage_bytes m + bytes in
      cg\<lparr>cgroup_memory := m\<lparr>usage_bytes := u,
           max_usage_bytes := (if max_usage_bytes m < u then u else max_usage_bytes m)\<rparr>\<rparr>)"

definition record_free :: "u64 \<Rightarrow> CGroup \<Rightarrow> CGroup" where
  "record_free bytes cg =
     (let m = cgroup_memory cg in
      cg\<lparr>cgroup_memory := m\<lparr>usage_bytes := sat_sub (usage_bytes m) bytes\<rparr>\<rparr>)"

type_synonym cgroups1 = "(string, CGroup) btree"

text \<open>\<open>rsplit('/').next()\<close>.\<close>

definition last_component :: "string \<Rightarrow> string" where
  "last_component path = rev (takeWhile (\<lambda>c. c \<noteq> CHR ''/'') (rev path))"

definition cgroups_create :: "string \<Rightarrow> cgroups1 \<Rightarrow> cgroups1 \<times> (string + unit)" where
  "cgroups_create path t =
     (if bt_get t path \<noteq> None then (t, Inl ''cgroup already exists'')
      else (bt_insert path (CGroup_new (last_component path) path) t, Inr ()))"

definition cgroups_delete :: "string \<Rightarrow> cgroups1 \<Rightarrow> cgroups1 \<times> (string + unit)" where
  "cgroups_delete path t =
     (case bt_get t path of
        None \<Rightarrow> (t, Inl ''cgroup not found'')
      | Some cg \<Rightarrow> if cgroup_pids cg \<noteq> [] then (t, Inl ''cgroup has running processes'')
                   else (bt_remove path t, Inr ()))"

definition attach_pid :: "string \<Rightarrow> u32 \<Rightarrow> cgroups1 \<Rightarrow> cgroups1 \<times> (string + unit)" where
  "attach_pid path pid t0 =
     (let t = bt_map (\<lambda>_. remove_pid pid) t0 in
      case bt_get t path of
        None \<Rightarrow> (t, Inl ''cgroup not found'')
      | Some cg \<Rightarrow> (case add_pid pid cg of (cg', r) \<Rightarrow> (bt_insert path cg' t, r)))"

text \<open>The setters: \<open>get_mut\<close> and one assignment.\<close>

definition cgroups_set :: "string \<Rightarrow> (CGroup \<Rightarrow> CGroup) \<Rightarrow> cgroups1 \<Rightarrow> cgroups1 \<times> (string + unit)" where
  "cgroups_set path f t =
     (if bt_get t path = None then (t, Inl ''cgroup not found'') else (bt_modify path f t, Inr ()))"

definition set_cpu_shares :: "string \<Rightarrow> u32 \<Rightarrow> cgroups1 \<Rightarrow> cgroups1 \<times> (string + unit)" where
  "set_cpu_shares path n = cgroups_set path (\<lambda>cg. cg\<lparr>cgroup_cpu := (cgroup_cpu cg)\<lparr>shares := n\<rparr>\<rparr>)"

definition set_memory_limit :: "string \<Rightarrow> i64 \<Rightarrow> cgroups1 \<Rightarrow> cgroups1 \<times> (string + unit)" where
  "set_memory_limit path n = cgroups_set path (\<lambda>cg. cg\<lparr>cgroup_memory := (cgroup_memory cg)\<lparr>limit_bytes := n\<rparr>\<rparr>)"

definition cgroups_set_pids_max :: "string \<Rightarrow> i64 \<Rightarrow> cgroups1 \<Rightarrow> cgroups1 \<times> (string + unit)" where
  "cgroups_set_pids_max path n = cgroups_set path (\<lambda>cg. cg\<lparr>pids_ctrl := (pids_ctrl cg)\<lparr>pids_max := n\<rparr>\<rparr>)"

definition freeze :: "string \<Rightarrow> cgroups1 \<Rightarrow> cgroups1 \<times> (string + unit)" where
  "freeze path = cgroups_set path (\<lambda>cg. cg\<lparr>freezer := Frozen\<rparr>)"

definition thaw :: "string \<Rightarrow> cgroups1 \<Rightarrow> cgroups1 \<times> (string + unit)" where
  "thaw path = cgroups_set path (\<lambda>cg. cg\<lparr>freezer := Thawed\<rparr>)"

definition cgroups_init :: "cgroups1 \<Rightarrow> cgroups1" where
  "cgroups_init t =
     bt_modify ''/'' (\<lambda>root. fst (add_pid 1 (fst (add_pid 0 root))))
       (bt_insert ''/user.slice'' (CGroup_new ''user.slice'' ''/user.slice'')
       (bt_insert ''/system.slice'' (CGroup_new ''system.slice'' ''/system.slice'')
       (bt_insert ''/'' (CGroup_new ''root'' ''/'') t)))"

section \<open>Version 2\<close>

datatype Cgroup2Controller = Cpu | Memory | Io | Pids | Cpuset | Rdma | HugeTlb | Misc

record Memory2 =
  mem_max :: i64
  mem_min :: u64
  mem_low :: u64
  mem_high :: u64
  swap_max :: i64
  mem_current :: u64
  swap_current :: u64
  oom_group :: bool

record Cpu2 =
  cpu_weight :: u32
  weight_nice :: i32
  cpu_max :: "u64 \<times> u64"
  cpu_burst :: u64
  uclamp_min :: u32
  uclamp_max :: u32
  stat_usage :: u64
  stat_user :: u64
  stat_system :: u64
  nr_periods :: u64
  nr_throttled :: u64
  throttled_usec :: u64

record IoMax =
  rbps :: "u64 option"
  wbps :: "u64 option"
  riops :: "u64 option"
  wiops :: "u64 option"

record IoStat =
  io_major :: u32
  io_minor :: u32
  rbytes :: u64
  wbytes :: u64
  rios :: u64
  wios :: u64
  dbytes :: u64
  dios :: u64

record Io2 =
  io_weight :: u32
  io_max :: "(u32 \<times> u32, IoMax) btree"
  io_stat :: "IoStat list"

record Pids2 =
  pids2_max :: i64
  pids2_current :: u64
  events_max :: u64

record Cgroup2 =
  cg_id :: u64
  cg_path :: string
  parent_id :: "u64 option"
  children :: "u64 list"
  processes :: "u64 list"
  threads :: "u64 list"
  subtree_control :: "Cgroup2Controller list"
  controllers :: "Cgroup2Controller list"
  cg_frozen :: bool
  cg_memory :: Memory2
  cg_cpu :: Cpu2
  cg_io :: Io2
  cg_pids :: Pids2

definition Cgroup2_new :: "u64 \<Rightarrow> string \<Rightarrow> u64 option \<Rightarrow> Cgroup2" where
  "Cgroup2_new i path parent = \<lparr>cg_id = i, cg_path = path, parent_id = parent, children = [], processes = [], threads = [],
     subtree_control = [], controllers = [Cpu, Memory, Io, Pids, Cpuset], cg_frozen = False,
     cg_memory = \<lparr>mem_max = - 1, mem_min = 0, mem_low = 0, mem_high = - 1, swap_max = - 1, mem_current = 0,
       swap_current = 0, oom_group = False\<rparr>,
     cg_cpu = \<lparr>cpu_weight = 100, weight_nice = 0, cpu_max = (- 1, 100000), cpu_burst = 0, uclamp_min = 0,
       uclamp_max = 1024, stat_usage = 0, stat_user = 0, stat_system = 0, nr_periods = 0, nr_throttled = 0,
       throttled_usec = 0\<rparr>,
     cg_io = \<lparr>io_weight = 100, io_max = [], io_stat = []\<rparr>,
     cg_pids = \<lparr>pids2_max = - 1, pids2_current = 0, events_max = 0\<rparr>\<rparr>"

datatype Cgroup2Error = NotFound | AlreadyExists | NotEmpty | InvalidPath | ControllerNotAvailable | LimitExceeded | PermDenied

record Cgroup2Table =
  cgroups :: "(u64, Cgroup2) btree"
  path_to_id :: "(string, u64) btree"
  next_id :: u64

definition Cgroup2Table_new :: Cgroup2Table where
  "Cgroup2Table_new = \<lparr>cgroups = bt_insert 0 (Cgroup2_new 0 ''/'' None) [], path_to_id = bt_insert ''/'' 0 [], next_id = 1\<rparr>"

type_synonym 'a cg2 = "Cgroup2Table \<times> (Cgroup2Error + 'a)"

text \<open>\<open>trim_end_matches('/')\<close> and \<open>rfind('/')\<close>.\<close>

definition trim_end_slash :: "string \<Rightarrow> string" where
  "trim_end_slash path = rev (dropWhile (\<lambda>c. c = CHR ''/'') (rev path))"

definition rfind_slash :: "string \<Rightarrow> nat option" where
  "rfind_slash path = map_option (\<lambda>i. length path - 1 - i) (position (\<lambda>c. c = CHR ''/'') (rev path))"

definition parent_of :: "string \<Rightarrow> string" where
  "parent_of path =
     (if path = ''/'' then ''/''
      else let trimmed = trim_end_slash path in
        case rfind_slash trimmed of
          None \<Rightarrow> ''/''
        | Some pos \<Rightarrow> if pos = 0 then ''/'' else take pos trimmed)"

definition mkdir :: "string \<Rightarrow> Cgroup2Table \<Rightarrow> u64 cg2" where
  "mkdir path t =
     (if bt_get (path_to_id t) path \<noteq> None then (t, Inl AlreadyExists)
      else case bt_get (path_to_id t) (parent_of path) of
        None \<Rightarrow> (t, Inl NotFound)
      | Some pid \<Rightarrow>
          let i = next_id t;
              ctrls = (case bt_get (cgroups t) pid of Some p \<Rightarrow> subtree_control p | None \<Rightarrow> []);
              cg = (Cgroup2_new i path (Some pid))\<lparr>controllers := ctrls\<rparr> in
          (t\<lparr>next_id := next_id t + 1,
             cgroups := bt_modify pid (\<lambda>p. p\<lparr>children := children p @ [i]\<rparr>) (bt_insert i cg (cgroups t)),
             path_to_id := bt_insert path i (path_to_id t)\<rparr>, Inr i))"

definition rmdir :: "string \<Rightarrow> Cgroup2Table \<Rightarrow> unit cg2" where
  "rmdir path t =
     (case bt_get (path_to_id t) path of
        None \<Rightarrow> (t, Inl NotFound)
      | Some i \<Rightarrow>
          if (case bt_get (cgroups t) i of Some cg \<Rightarrow> processes cg \<noteq> [] \<or> children cg \<noteq> [] | None \<Rightarrow> False)
          then (t, Inl NotEmpty)
          else let gs = (case bt_get (cgroups t) i of
                           Some cg \<Rightarrow> (case parent_id cg of
                               Some p \<Rightarrow> bt_modify p (\<lambda>g. g\<lparr>children := filter (\<lambda>c. c \<noteq> i) (children g)\<rparr>) (cgroups t)
                             | None \<Rightarrow> cgroups t)
                         | None \<Rightarrow> cgroups t) in
            (t\<lparr>cgroups := bt_remove i gs, path_to_id := bt_remove path (path_to_id t)\<rparr>, Inr ()))"

text \<open>Look-up of a path and \<open>get_mut\<close> of its group, as in every setter; \<open>f\<close> answers for the rest.\<close>

definition with_group :: "string \<Rightarrow> (Cgroup2 \<Rightarrow> Cgroup2 \<times> (Cgroup2Error + unit)) \<Rightarrow> Cgroup2Table \<Rightarrow> unit cg2" where
  "with_group path f t =
     (case bt_get (path_to_id t) path of
        None \<Rightarrow> (t, Inl NotFound)
      | Some i \<Rightarrow>
          (case bt_get (cgroups t) i of
             None \<Rightarrow> (t, Inl NotFound)
           | Some cg \<Rightarrow> (case f cg of (cg', r) \<Rightarrow> (t\<lparr>cgroups := bt_modify i (\<lambda>_. cg') (cgroups t)\<rparr>, r))))"

definition attach_process :: "string \<Rightarrow> u64 \<Rightarrow> Cgroup2Table \<Rightarrow> unit cg2" where
  "attach_process path pid t =
     (if bt_get (path_to_id t) path = None then (t, Inl NotFound)
      else with_group path (\<lambda>cg.
          let p = cg_pids cg in
          if 0 \<le> pids2_max p \<and> of_int (pids2_max p) \<le> pids2_current p then
            (cg\<lparr>cg_pids := p\<lparr>events_max := events_max p + 1\<rparr>\<rparr>, Inl LimitExceeded)
          else (cg\<lparr>processes := processes cg @ [pid], cg_pids := p\<lparr>pids2_current := pids2_current p + 1\<rparr>\<rparr>, Inr ()))
        (t\<lparr>cgroups := bt_map (\<lambda>_ g. g\<lparr>processes := filter (\<lambda>q. q \<noteq> pid) (processes g)\<rparr>) (cgroups t)\<rparr>))"

fun enable_all :: "Cgroup2Controller list \<Rightarrow> Cgroup2 \<Rightarrow> Cgroup2 \<times> (Cgroup2Error + unit)" where
  "enable_all [] cg = (cg, Inr ())"
| "enable_all (c # cs) cg =
     (if c \<notin> set (controllers cg) then (cg, Inl ControllerNotAvailable)
      else enable_all cs (if c \<notin> set (subtree_control cg) then cg\<lparr>subtree_control := subtree_control cg @ [c]\<rparr> else cg))"

definition set_subtree_control :: "string \<Rightarrow> Cgroup2Controller list \<Rightarrow> Cgroup2Controller list \<Rightarrow> Cgroup2Table \<Rightarrow> unit cg2" where
  "set_subtree_control path enable disable =
     with_group path (\<lambda>cg.
       case enable_all enable cg of
         (cg', Inl e) \<Rightarrow> (cg', Inl e)
       | (cg', Inr _) \<Rightarrow> (fold (\<lambda>c g. g\<lparr>subtree_control := filter (\<lambda>d. d \<noteq> c) (subtree_control g)\<rparr>) disable cg', Inr ()))"

definition set_memory_max :: "string \<Rightarrow> i64 \<Rightarrow> Cgroup2Table \<Rightarrow> unit cg2" where
  "set_memory_max path n = with_group path (\<lambda>cg. (cg\<lparr>cg_memory := (cg_memory cg)\<lparr>mem_max := n\<rparr>\<rparr>, Inr ()))"

definition set_cpu_weight :: "string \<Rightarrow> u32 \<Rightarrow> Cgroup2Table \<Rightarrow> unit cg2" where
  "set_cpu_weight path w = with_group path (\<lambda>cg. (cg\<lparr>cg_cpu := (cg_cpu cg)\<lparr>cpu_weight := min (max w 1) 10000\<rparr>\<rparr>, Inr ()))"

definition set_cpu_max :: "string \<Rightarrow> u64 \<Rightarrow> u64 \<Rightarrow> Cgroup2Table \<Rightarrow> unit cg2" where
  "set_cpu_max path quota period = with_group path (\<lambda>cg. (cg\<lparr>cg_cpu := (cg_cpu cg)\<lparr>cpu_max := (quota, period)\<rparr>\<rparr>, Inr ()))"

definition set_pids_max :: "string \<Rightarrow> i64 \<Rightarrow> Cgroup2Table \<Rightarrow> unit cg2" where
  "set_pids_max path n = with_group path (\<lambda>cg. (cg\<lparr>cg_pids := (cg_pids cg)\<lparr>pids2_max := n\<rparr>\<rparr>, Inr ()))"

definition set_frozen :: "string \<Rightarrow> bool \<Rightarrow> Cgroup2Table \<Rightarrow> unit cg2" where
  "set_frozen path b = with_group path (\<lambda>cg. (cg\<lparr>cg_frozen := b\<rparr>, Inr ()))"

definition set_io_max_bytes :: "string \<Rightarrow> u64 \<Rightarrow> Cgroup2Table \<Rightarrow> unit cg2" where
  "set_io_max_bytes path n = with_group path (\<lambda>cg.
     (cg\<lparr>cg_io := (cg_io cg)\<lparr>io_max := bt_insert (0, 0)
        \<lparr>rbps = None, wbps = Some n, riops = None, wiops = None\<rparr> (io_max (cg_io cg))\<rparr>\<rparr>, Inr ()))"

text \<open>
  The recursion of \<open>count_descendants\<close> ends only if the groups form a tree; \<open>None\<close> stands for a
  recursion deeper than the given fuel.
\<close>

primrec count_descendants :: "nat \<Rightarrow> Cgroup2Table \<Rightarrow> u64 \<Rightarrow> nat option" where
  "count_descendants 0 t i = None"
| "count_descendants (Suc n) t i =
     (case bt_get (cgroups t) i of
        None \<Rightarrow> Some 0
      | Some cg \<Rightarrow> map_option (\<lambda>l. length (children cg) + sum_list l) (those (map (count_descendants n t) (children cg))))"

section \<open>Charges\<close>

text \<open>\<open>charge_memory\<close>, \<open>charge_cpu\<close> and \<open>charge_io\<close> act on the first group that lists the process.\<close>

definition with_process :: "u64 \<Rightarrow> (Cgroup2 \<Rightarrow> Cgroup2 \<times> (Cgroup2Error + unit)) \<Rightarrow> Cgroup2Table \<Rightarrow> unit cg2" where
  "with_process pid f t =
     (case first_key (\<lambda>g. pid \<in> set (processes g)) (cgroups t) of
        None \<Rightarrow> (t, Inr ())
      | Some i \<Rightarrow>
          (case bt_get (cgroups t) i of
             None \<Rightarrow> (t, Inr ())
           | Some cg \<Rightarrow> (case f cg of (cg', r) \<Rightarrow> (t\<lparr>cgroups := bt_modify i (\<lambda>_. cg') (cgroups t)\<rparr>, r))))"

definition charge_memory :: "u64 \<Rightarrow> u64 \<Rightarrow> Cgroup2Table \<Rightarrow> unit cg2" where
  "charge_memory pid bytes = with_process pid (\<lambda>cg.
     let m = cg_memory cg; new_current = sat_add (mem_current m) bytes in
     if 0 \<le> mem_max m then
       if of_int (mem_max m) < new_current then (cg, Inl LimitExceeded)
       else (cg\<lparr>cg_memory := m\<lparr>mem_current := new_current\<rparr>\<rparr>, Inr ())
     else (cg\<lparr>cg_memory := m\<lparr>mem_current := new_current\<rparr>\<rparr>, Inr ()))"

definition uncharge_memory :: "u64 \<Rightarrow> u64 \<Rightarrow> Cgroup2Table \<Rightarrow> Cgroup2Table" where
  "uncharge_memory pid bytes t = fst (with_process pid (\<lambda>cg.
     (cg\<lparr>cg_memory := (cg_memory cg)\<lparr>mem_current := sat_sub (mem_current (cg_memory cg)) bytes\<rparr>\<rparr>, Inr ())) t)"

definition charge_cpu :: "u64 \<Rightarrow> u64 \<Rightarrow> Cgroup2Table \<Rightarrow> unit cg2" where
  "charge_cpu pid usec = with_process pid (\<lambda>cg.
     if cg_frozen cg then (cg, Inl PermDenied)
     else let c = (cg_cpu cg)\<lparr>stat_usage := sat_add (stat_usage (cg_cpu cg)) usec\<rparr> in
       case cpu_max c of (quota, period) \<Rightarrow>
         if quota \<noteq> - 1 \<and> 0 < period \<and> quota < stat_usage c then
           (cg\<lparr>cg_cpu := c\<lparr>nr_throttled := sat_add (nr_throttled c) 1, throttled_usec := sat_add (throttled_usec c) usec\<rparr>\<rparr>,
            Inl LimitExceeded)
         else (cg\<lparr>cg_cpu := c\<rparr>, Inr ()))"

definition charge_io :: "u64 \<Rightarrow> u64 \<Rightarrow> Cgroup2Table \<Rightarrow> unit cg2" where
  "charge_io pid bytes = with_process pid (\<lambda>cg.
     let io = cg_io cg;
         current = (case io_stat io of s # _ \<Rightarrow> wbytes s | [] \<Rightarrow> 0) in
     if (case Option.bind (bt_get (io_max io) (0, 0)) wbps of Some limit \<Rightarrow> limit < sat_add current bytes | None \<Rightarrow> False)
     then (cg, Inl LimitExceeded)
     else case io_stat io of
       s # ss \<Rightarrow> (cg\<lparr>cg_io := io\<lparr>io_stat := s\<lparr>wbytes := sat_add (wbytes s) bytes, wios := sat_add (wios s) 1\<rparr> # ss\<rparr>\<rparr>, Inr ())
     | [] \<Rightarrow> (cg\<lparr>cg_io := io\<lparr>io_stat := [\<lparr>io_major = 0, io_minor = 0, rbytes = 0, wbytes = bytes, rios = 0, wios = 1,
               dbytes = 0, dios = 0\<rparr>]\<rparr>\<rparr>, Inr ()))"

text \<open>Both hierarchies, as \<open>cgroups.rs\<close> charges them.\<close>

record Cgroups =
  cg1 :: cgroups1
  cg2 :: Cgroup2Table

definition uncharge :: "u32 \<Rightarrow> u64 \<Rightarrow> Cgroups \<Rightarrow> Cgroups" where
  "uncharge pid bytes s =
     (let t1 = (case first_key (\<lambda>c. pid \<in> set (cgroup_pids c)) (cg1 s) of
                  Some k \<Rightarrow> bt_modify k (record_free bytes) (cg1 s) | None \<Rightarrow> cg1 s) in
      s\<lparr>cg1 := t1, cg2 := uncharge_memory (ucast pid) bytes (cg2 s)\<rparr>)"

definition try_charge :: "u32 \<Rightarrow> u64 \<Rightarrow> Cgroups \<Rightarrow> Cgroups \<times> (errno + unit)" where
  "try_charge pid bytes s =
     (let k = first_key (\<lambda>c. pid \<in> set (cgroup_pids c)) (cg1 s) in
      if (case Option.bind k (bt_get (cg1 s)) of Some cg \<Rightarrow> \<not> can_allocate bytes cg | None \<Rightarrow> False) then (s, Inl ENOMEM)
      else let s1 = (case k of Some p \<Rightarrow> s\<lparr>cg1 := bt_modify p (record_alloc bytes) (cg1 s)\<rparr> | None \<Rightarrow> s) in
        case charge_memory (ucast pid) bytes (cg2 s1) of
          (t, Inl _) \<Rightarrow> (uncharge pid bytes (s1\<lparr>cg2 := t\<rparr>), Inl ENOMEM)
        | (t, Inr _) \<Rightarrow> (s1\<lparr>cg2 := t\<rparr>, Inr ()))"

section \<open>The tree of groups\<close>

text \<open>
  Links between parents and children agree, a child is younger than its parent, and every path
  names a group.
\<close>

type_synonym links = "u64 \<Rightarrow> (u64 list \<times> u64 option) option"

definition link_tree :: "links \<Rightarrow> bool" where
  "link_tree L \<longleftrightarrow>
     (\<forall>i cs p. L i = Some (cs, p) \<longrightarrow> distinct cs \<and> (\<forall>c \<in> set cs. i < c \<and> (\<exists>ds. L c = Some (ds, Some i))))
     \<and> (\<forall>i cs p. L i = Some (cs, Some p) \<longrightarrow> (\<exists>ds q. L p = Some (ds, q) \<and> i \<in> set ds))"

definition links_of :: "(u64, Cgroup2) btree \<Rightarrow> links" where
  "links_of gs i = map_option (\<lambda>g. (children g, parent_id g)) (bt_get gs i)"

definition cg2_inv :: "nat \<Rightarrow> Cgroup2Table \<Rightarrow> bool" where
  "cg2_inv n t \<longleftrightarrow> bt_wf (cgroups t) \<and> link_tree (links_of (cgroups t)) \<and> unat (next_id t) \<le> Suc n
     \<and> (\<forall>i. bt_get (cgroups t) i \<noteq> None \<longrightarrow> i < next_id t)
     \<and> (\<forall>path i. bt_get (path_to_id t) path = Some i \<longrightarrow> bt_get (cgroups t) i \<noteq> None)
     \<and> (\<forall>path path' i. bt_get (path_to_id t) path = Some i \<longrightarrow> bt_get (path_to_id t) path' = Some i \<longrightarrow> path = path')"

lemma link_treeD:
  assumes "link_tree L" "L i = Some (cs, p)"
  shows "distinct cs" "c \<in> set cs \<Longrightarrow> i < c" "c \<in> set cs \<Longrightarrow> \<exists>ds. L c = Some (ds, Some i)"
    "p = Some q \<Longrightarrow> \<exists>ds r. L q = Some (ds, r) \<and> i \<in> set ds"
  using assms unfolding link_tree_def by blast+

lemma link_tree_add:
  assumes T: "link_tree L" and new: "L i = None" "\<And>j. L j \<noteq> None \<Longrightarrow> j < i" and p: "L p = Some (cs, q)"
  shows "link_tree (L(i \<mapsto> ([], Some p), p \<mapsto> (cs @ [i], q)))"
proof -
  let ?L = "L(i \<mapsto> ([], Some p), p \<mapsto> (cs @ [i], q))"
  have ip: "p < i" "p \<noteq> i" using new(2) [of p] p by auto
  have keep: "\<exists>ds'. ?L j = Some (ds', r)" if "L j = Some (ds, r)" for j ds r using that p new(1) by auto
  have i: "i \<notin> set cs" using link_treeD(3) [OF T p, of i] new(1) by auto
  have "distinct ds \<and> (\<forall>c \<in> set ds. j < c \<and> (\<exists>es. ?L c = Some (es, Some j)))" if "?L j = Some (ds, r)" for j ds r
  proof (cases "j = p \<or> j = i")
    case True
    with that ip have "ds = [] \<or> j = p \<and> ds = cs @ [i]" by auto
    then consider "ds = []" | "j = p" "ds = cs @ [i]" by blast
    then show ?thesis
    proof cases
      case 2
      have "p < c \<and> (\<exists>es. ?L c = Some (es, Some p))" if "c \<in> set cs" for c
        using link_treeD(2,3) [OF T p that] keep by blast
      with 2 link_treeD(1) [OF T p] i ip show ?thesis by simp
    qed simp
  next
    case False
    with that have "L j = Some (ds, r)" by simp
    from link_treeD(1-3) [OF T this] keep show ?thesis by blast
  qed
  moreover have "\<exists>es s. ?L r = Some (es, s) \<and> j \<in> set es" if "?L j = Some (ds, Some r)" for j ds r
  proof (cases "j = i")
    case True
    with that ip have "r = p" by simp
    with True show ?thesis by simp
  next
    case False
    with that p have "\<exists>ds. L j = Some (ds, Some r)" by (auto split: if_splits)
    then obtain es s where "L r = Some (es, s)" "j \<in> set es" using link_treeD(4) [OF T] by blast
    moreover from this new(1) have "r \<noteq> i" by auto
    ultimately show ?thesis using p by auto
  qed
  ultimately show ?thesis unfolding link_tree_def by blast
qed

lemma link_tree_cut:
  assumes T: "link_tree L" and i: "L i = Some ([], Some p)" and p: "L p = Some (cs, q)"
  shows "link_tree (L(p \<mapsto> (filter (\<lambda>c. c \<noteq> i) cs, q), i := None))"
proof -
  let ?L = "L(p \<mapsto> (filter (\<lambda>c. c \<noteq> i) cs, q), i := None)"
  have ip: "p \<noteq> i" using link_treeD(4) [OF T i refl] i p by auto
  have no: "r \<noteq> i" if "L j = Some (ds, Some r)" for j ds r
    using link_treeD(4) [OF T that refl] i by auto
  have keep: "\<exists>ds'. ?L j = Some (ds', r)" if "L j = Some (ds, r)" "j \<noteq> i" for j ds r using that p by auto
  have "distinct ds \<and> (\<forall>c \<in> set ds. j < c \<and> (\<exists>es. ?L c = Some (es, Some j)))" if "?L j = Some (ds, r)" for j ds r
  proof -
    from that p obtain ds0 where d: "L j = Some (ds0, r)" "ds = filter (\<lambda>c. c \<noteq> i) ds0 \<or> ds = ds0 \<and> j \<noteq> p" "j \<noteq> i"
      by (auto split: if_splits)
    have "i \<notin> set ds"
    proof
      assume "i \<in> set ds"
      with d(2) have "i \<in> set ds0" "j \<noteq> p" by auto
      with link_treeD(3) [OF T d(1), of i] i show False by auto
    qed
    moreover have "distinct ds" "set ds \<subseteq> set ds0" using d(2) link_treeD(1) [OF T d(1)] by auto
    ultimately show ?thesis using link_treeD(2,3) [OF T d(1)] keep by blast
  qed
  moreover have "\<exists>es s. ?L r = Some (es, s) \<and> j \<in> set es" if "?L j = Some (ds, Some r)" for j ds r
  proof -
    from that p obtain ds0 where d: "L j = Some (ds0, Some r)" "j \<noteq> i" by (auto split: if_splits)
    from link_treeD(4) [OF T d(1) refl] obtain es s where "L r = Some (es, s)" "j \<in> set es" by blast
    with no [OF d(1)] d(2) p show ?thesis by auto
  qed
  ultimately show ?thesis unfolding link_tree_def by blast
qed

text \<open>A group without links to others can go as well.\<close>

lemma link_tree_cut_root:
  assumes T: "link_tree L" and i: "L i = Some ([], None)"
  shows "link_tree (L(i := None))"
proof -
  have no: "r \<noteq> i" if "L j = Some (ds, Some r)" for j ds r using link_treeD(4) [OF T that refl] i by auto
  have "i \<notin> set ds" if "L j = Some (ds, r)" for j ds r using link_treeD(3) [OF T that, of i] i by auto
  with T no show ?thesis unfolding link_tree_def by (auto split: if_splits)
qed

lemma links_modify [simp]:
  "links_of (bt_modify k f gs) = (links_of gs)(k := map_option (\<lambda>g. (children (f g), parent_id (f g))) (bt_get gs k))"
  by (auto simp: links_of_def fun_eq_iff option.map_comp comp_def)

lemma links_insert [simp]: "links_of (bt_insert k g gs) = (links_of gs)(k \<mapsto> (children g, parent_id g))"
  by (auto simp: links_of_def fun_eq_iff)

lemma links_remove [simp]: "links_of (bt_remove k gs) = (links_of gs)(k := None)"
  by (auto simp: links_of_def fun_eq_iff)

lemma links_None: "links_of gs i = None \<longleftrightarrow> bt_get gs i = None"
  by (simp add: links_of_def)

lemma cg2_invD:
  assumes "cg2_inv n t"
  shows "bt_wf (cgroups t)" "link_tree (links_of (cgroups t))" "unat (next_id t) \<le> Suc n"
    "bt_get (cgroups t) i \<noteq> None \<Longrightarrow> i < next_id t"
    "bt_get (path_to_id t) path = Some i \<Longrightarrow> bt_get (cgroups t) i \<noteq> None"
    "bt_get (path_to_id t) path = Some i \<Longrightarrow> bt_get (path_to_id t) path' = Some i \<Longrightarrow> path' = path"
  using assms unfolding cg2_inv_def by blast+

lemma cg2_invI:
  assumes "cgroups t = gs" "path_to_id t = ps" "next_id t = nx"
    and "bt_wf gs" "link_tree (links_of gs)" "unat nx \<le> Suc n" "\<And>i. bt_get gs i \<noteq> None \<Longrightarrow> i < nx"
    and "\<And>path i. bt_get ps path = Some i \<Longrightarrow> bt_get gs i \<noteq> None"
    and "\<And>path path' i. bt_get ps path = Some i \<Longrightarrow> bt_get ps path' = Some i \<Longrightarrow> path = path'"
  shows "cg2_inv n t"
  using assms(4-9) unfolding cg2_inv_def assms(1-3) by blast

text \<open>A change of a group's settings leaves the tree alone.\<close>

lemma cg2_inv_modify:
  assumes inv: "cg2_inv n t" and g: "bt_get (cgroups t) i = Some g" "children g' = children g" "parent_id g' = parent_id g"
  shows "cg2_inv n (t\<lparr>cgroups := bt_modify i (\<lambda>_. g') (cgroups t)\<rparr>)"
proof -
  have "links_of (bt_modify i (\<lambda>_. g') (cgroups t)) = links_of (cgroups t)"
    using g by (simp add: fun_upd_idem_iff) (simp add: links_of_def)
  with inv show ?thesis by (auto simp: cg2_inv_def)
qed

lemma cg2_inv_with_group:
  assumes inv: "cg2_inv n t" and f: "\<And>g. children (fst (f g)) = children g \<and> parent_id (fst (f g)) = parent_id g"
  shows "cg2_inv n (fst (with_group path f t))" "cg2_inv n (fst (with_process pid f t))"
proof -
  have step: "cg2_inv n (t\<lparr>cgroups := bt_modify i (\<lambda>_. fst (f g)) (cgroups t)\<rparr>)" if "bt_get (cgroups t) i = Some g" for i g
    using f by (intro cg2_inv_modify [OF inv that]) simp_all
  show "cg2_inv n (fst (with_group path f t))"
    using inv step by (auto simp: with_group_def case_prod_beta split: option.split)
  show "cg2_inv n (fst (with_process pid f t))"
    using inv step by (auto simp: with_process_def case_prod_beta split: option.split)
qed

lemma cg2_inv_mono: "cg2_inv n t \<Longrightarrow> n \<le> m \<Longrightarrow> cg2_inv m t"
  by (auto simp: cg2_inv_def)

lemma mkdir_inv:
  assumes inv: "cg2_inv n t" and n: "n < 2 ^ 63"
  shows "cg2_inv (Suc n) (fst (mkdir path t))"
proof (cases "bt_get (path_to_id t) path \<noteq> None \<or> bt_get (path_to_id t) (parent_of path) = None")
  case True
  then have "fst (mkdir path t) = t" by (auto simp: mkdir_def)
  with cg2_inv_mono [OF inv, of "Suc n"] show ?thesis by simp
next
  case False
  then obtain p where p: "bt_get (path_to_id t) path = None" "bt_get (path_to_id t) (parent_of path) = Some p" by auto
  note I = cg2_invD [OF inv]
  let ?i = "next_id t"
  obtain g where g: "bt_get (cgroups t) p = Some g" using I(5) [OF p(2)] by auto
  have fresh: "bt_get (cgroups t) ?i = None" using I(4) [of ?i] by (cases "bt_get (cgroups t) ?i") simp_all
  have ne: "p \<noteq> ?i" using fresh g by auto
  have room: "next_id t \<noteq> - 1" using I(3) n by auto
  let ?cg = "(Cgroup2_new ?i path (Some p))\<lparr>controllers := subtree_control g\<rparr>"
  let ?gs = "bt_modify p (\<lambda>p. p\<lparr>children := children p @ [?i]\<rparr>) (bt_insert ?i ?cg (cgroups t))"
  have t': "fst (mkdir path t) = t\<lparr>next_id := ?i + 1, cgroups := ?gs, path_to_id := bt_insert path ?i (path_to_id t)\<rparr>"
    using p g by (simp add: mkdir_def Let_def)
  have "links_of ?gs = (links_of (cgroups t))(?i \<mapsto> ([], Some p), p \<mapsto> (children g @ [?i], parent_id g))"
    using g ne by (simp add: Cgroup2_new_def)
  moreover have "link_tree \<dots>"
    using I(2,4) fresh g by (intro link_tree_add) (auto simp: links_None, simp add: links_of_def)
  ultimately have tree: "link_tree (links_of ?gs)" by simp
  have young: "j < ?i + 1" if "bt_get ?gs j \<noteq> None" for j
    using that I(4) [of j] less_plus_1 [OF _ room] self_less_plus_1 [OF room] by (auto split: if_splits)
  have paths: "bt_get ?gs j \<noteq> None" if "bt_get (bt_insert path ?i (path_to_id t)) path' = Some j" for path' j
    using that I(5) [of path' j] g ne by (cases "path' = path") auto
  have inj: "path' = path''" if "bt_get (bt_insert path ?i (path_to_id t)) path' = Some j"
    "bt_get (bt_insert path ?i (path_to_id t)) path'' = Some j" for path' path'' j
    using that I(5) [of _ ?i] I(6) [of path'' j path'] fresh by (cases "path' = path"; cases "path'' = path") auto
  have small: "unat (?i + 1) \<le> Suc (Suc n)" using I(3) unat_plus_1 [OF room] by simp
  have wf: "bt_wf ?gs" using I(1) by simp
  show ?thesis unfolding t' by (rule cg2_invI [OF _ _ _ wf tree small]) (simp, simp, simp, erule young, erule paths, erule (1) inj)
qed

lemma rmdir_inv:
  assumes inv: "cg2_inv n t"
  shows "cg2_inv n (fst (rmdir path t))"
proof (cases "fst (rmdir path t) = t")
  case False
  note I = cg2_invD [OF inv]
  from False obtain i where i: "bt_get (path_to_id t) path = Some i" by (auto simp: rmdir_def split: option.splits)
  then obtain g where g: "bt_get (cgroups t) i = Some g" using I(5) by blast
  with False i have none: "children g = []" "processes g = []" by (auto simp: rmdir_def split: if_splits)
  have Li: "links_of (cgroups t) i = Some ([], parent_id g)" using g none by (simp add: links_of_def)
  let ?gs = "case parent_id g of Some p \<Rightarrow> bt_modify p (\<lambda>g. g\<lparr>children := filter (\<lambda>c. c \<noteq> i) (children g)\<rparr>) (cgroups t)
      | None \<Rightarrow> cgroups t"
  have t': "fst (rmdir path t) = t\<lparr>cgroups := bt_remove i ?gs, path_to_id := bt_remove path (path_to_id t)\<rparr>"
    using i g none by (simp add: rmdir_def)
  have wf: "bt_wf ?gs" and same: "bt_get ?gs j = None \<longleftrightarrow> bt_get (cgroups t) j = None" for j
    using I(1) by (auto split: option.split)
  have tree: "link_tree (links_of (bt_remove i ?gs))"
  proof (cases "parent_id g")
    case None
    with link_tree_cut_root [OF I(2)] Li show ?thesis by simp
  next
    case (Some p)
    with Li have Li': "links_of (cgroups t) i = Some ([], Some p)" by simp
    then obtain h where h: "bt_get (cgroups t) p = Some h" using link_treeD(4) [OF I(2)] by (fastforce simp: links_of_def)
    then have "links_of (cgroups t) p = Some (children h, parent_id h)" by (simp add: links_of_def)
    from link_tree_cut [OF I(2) Li' this] Some h show ?thesis by simp
  qed
  have paths: "bt_get (bt_remove i ?gs) j \<noteq> None" if "bt_get (bt_remove path (path_to_id t)) path' = Some j" for path' j
  proof -
    from that have p': "bt_get (path_to_id t) path' = Some j" "path' \<noteq> path" by (simp_all split: if_splits)
    with I(6) [OF i] have "j \<noteq> i" by blast
    with I(5) [OF p'(1)] same show ?thesis by simp
  qed
  have inj: "path' = path''" if "bt_get (bt_remove path (path_to_id t)) path' = Some j"
    "bt_get (bt_remove path (path_to_id t)) path'' = Some j" for path' path'' j
    using that I(6) by (metis bt_get_remove fun_upd_apply option.distinct(1))
  have young: "j < next_id t" if "bt_get (bt_remove i ?gs) j \<noteq> None" for j
    using that I(4) [of j] same [of j] by (cases "j = i") (simp_all del: not_None_eq)
  show ?thesis unfolding t' by (rule cg2_invI [OF _ _ _ bt_wf_remove [OF wf] tree I(3)]) (simp, simp, simp, erule young, erule paths, erule (1) inj)
qed (use inv in simp)

section \<open>Counting descendants\<close>

text \<open>\<open>below L a\<close>: the groups whose chain of parents passes through \<open>a\<close>.\<close>

definition parent_rel :: "links \<Rightarrow> (u64 \<times> u64) set" where
  "parent_rel L = {(c, p). \<exists>cs. L c = Some (cs, Some p)}"

definition below :: "links \<Rightarrow> u64 \<Rightarrow> u64 set" where
  "below L a = {d. (d, a) \<in> (parent_rel L)\<^sup>+}"

lemma parent_rel_iff:
  assumes "link_tree L" "L p = Some (cs, q)"
  shows "(c, p) \<in> parent_rel L \<longleftrightarrow> c \<in> set cs"
  using link_treeD(3) [OF assms] link_treeD(4) [OF assms(1), of c _ "Some p" p] assms(2)
  by (fastforce simp: parent_rel_def)

lemma parent_less:
  assumes "link_tree L" "(c, p) \<in> parent_rel L"
  shows "p < c"
proof -
  from assms(2) obtain cs where "L c = Some (cs, Some p)" by (auto simp: parent_rel_def)
  from link_treeD(4) [OF assms(1) this refl] obtain ds r where "L p = Some (ds, r)" "c \<in> set ds" by blast
  from link_treeD(2) [OF assms(1) this] show ?thesis .
qed

lemma below_less:
  assumes T: "link_tree L" and "(d, a) \<in> (parent_rel L)\<^sup>+"
  shows "a < d"
  using assms(2) by (induction rule: trancl_induct) (auto dest: parent_less [OF T] intro: less_trans)

lemma single_parent: "single_valued (parent_rel L)"
  by (auto simp: single_valued_def parent_rel_def)

text \<open>Two ancestors of one group are on one chain.\<close>

lemma ancestors_chain:
  assumes "(d, a) \<in> (parent_rel L)\<^sup>*" "(d, b) \<in> (parent_rel L)\<^sup>*"
  shows "(a, b) \<in> (parent_rel L)\<^sup>* \<or> (b, a) \<in> (parent_rel L)\<^sup>*"
  using single_valued_confluent [OF single_parent assms] .

lemma below_children:
  assumes T: "link_tree L" and p: "L p = Some (cs, q)"
  shows "below L p = (\<Union>c \<in> set cs. insert c (below L c))"
proof (intro equalityI subsetI)
  fix d assume "d \<in> below L p"
  then obtain c where "(d, c) \<in> (parent_rel L)\<^sup>*" "(c, p) \<in> parent_rel L"
    by (auto simp: below_def dest: tranclD2)
  with parent_rel_iff [OF T p] show "d \<in> (\<Union>c \<in> set cs. insert c (below L c))"
    by (auto simp: below_def rtrancl_eq_or_trancl)
next
  fix d assume "d \<in> (\<Union>c \<in> set cs. insert c (below L c))"
  then obtain c where "(c, p) \<in> parent_rel L" "d = c \<or> (d, c) \<in> (parent_rel L)\<^sup>+"
    using parent_rel_iff [OF T p] by (auto simp: below_def)
  then show "d \<in> below L p" by (auto simp: below_def)
qed

lemma siblings_apart:
  assumes T: "link_tree L" and p: "L p = Some (cs, q)" and c: "c \<in> set cs" "c' \<in> set cs" "c \<noteq> c'"
  shows "insert c (below L c) \<inter> insert c' (below L c') = {}"
proof (rule ccontr)
  assume "insert c (below L c) \<inter> insert c' (below L c') \<noteq> {}"
  then obtain d where "(d, c) \<in> (parent_rel L)\<^sup>*" "(d, c') \<in> (parent_rel L)\<^sup>*"
    by (auto simp: below_def rtrancl_eq_or_trancl)
  from ancestors_chain [OF this] c(3) have "(c, c') \<in> (parent_rel L)\<^sup>+ \<or> (c', c) \<in> (parent_rel L)\<^sup>+"
    by (auto simp: rtrancl_eq_or_trancl)
  moreover have False if "(x, y) \<in> (parent_rel L)\<^sup>+" "x \<in> set cs" "y \<in> set cs" for x y
  proof -
    have xp: "(x, p) \<in> parent_rel L" using parent_rel_iff [OF T p] that(2) by simp
    from that(1) obtain z where "(x, z) \<in> parent_rel L" "(z, y) \<in> (parent_rel L)\<^sup>*" by (meson tranclD)
    with xp have "(p, y) \<in> (parent_rel L)\<^sup>*" using single_parent by (metis single_valuedD)
    then have "p = y \<or> y < p" using below_less [OF T] by (auto simp: rtrancl_eq_or_trancl)
    with link_treeD(2) [OF T p that(3)] show False by auto
  qed
  ultimately show False using c(1,2) by blast
qed

lemma below_none:
  assumes T: "link_tree L" and "L p = None"
  shows "below L p = {}"
proof -
  have "(c, p) \<notin> parent_rel L" for c
    using link_treeD(4) [OF T, of c _ "Some p" p] assms(2) by (fastforce simp: parent_rel_def)
  then show ?thesis by (auto simp: below_def dest: tranclD2)
qed

lemma card_below:
  assumes T: "link_tree L" and p: "L p = Some (cs, q)"
  shows "card (below L p) = length cs + (\<Sum>c \<leftarrow> cs. card (below L c))"
proof -
  have self: "c \<notin> below L c" for c using below_less [OF T, of c c] by (auto simp: below_def)
  have "card (below L p) = (\<Sum>c \<in> set cs. card (insert c (below L c)))"
    unfolding below_children [OF T p] using siblings_apart [OF T p] by (intro card_UN_disjoint) auto
  also have "\<dots> = (\<Sum>c \<leftarrow> cs. card (insert c (below L c)))"
    using link_treeD(1) [OF T p] by (rule sum_list_distinct_conv_sum_set [symmetric])
  also have "\<dots> = (\<Sum>c \<leftarrow> cs. Suc (card (below L c)))" by (simp add: self)
  also have "\<dots> = length cs + (\<Sum>c \<leftarrow> cs. card (below L c))" by (induction cs) simp_all
  finally show ?thesis .
qed

lemma those_map_Some: "(\<And>x. x \<in> set xs \<Longrightarrow> f x = Some (g x)) \<Longrightarrow> those (map f xs) = Some (map g xs)"
  by (induction xs) simp_all

lemma count_descendants_eq:
  assumes T: "link_tree (links_of (cgroups t))" and b: "\<And>j. bt_get (cgroups t) j \<noteq> None \<Longrightarrow> unat j < N"
  shows "N - unat i < n \<Longrightarrow> count_descendants n t i = Some (card (below (links_of (cgroups t)) i))"
proof (induction n arbitrary: i)
  case (Suc n)
  let ?L = "links_of (cgroups t)"
  show ?case
  proof (cases "bt_get (cgroups t) i")
    case None
    then show ?thesis using below_none [OF T, of i] by (simp add: links_None)
  next
    case (Some g)
    then have L: "?L i = Some (children g, parent_id g)" by (simp add: links_of_def)
    have "count_descendants n t c = Some (card (below ?L c))" if "c \<in> set (children g)" for c
    proof (rule Suc.IH)
      have "i < c" using link_treeD(2) [OF T L that] .
      moreover have "unat c < N" using link_treeD(3) [OF T L that] by (intro b) (auto simp: links_None [symmetric])
      ultimately show "N - unat c < n" using Suc.prems by (simp add: word_less_nat_alt)
    qed
    then have "those (map (count_descendants n t) (children g)) = Some (map (\<lambda>c. card (below ?L c)) (children g))"
      by (rule those_map_Some)
    with Some card_below [OF T L] show ?thesis by simp
  qed
qed simp

section \<open>Every table of groups\<close>

datatype cg2_op = Mkdir string | Rmdir string | Attach string u64 | SubtreeControl string "Cgroup2Controller list" "Cgroup2Controller list"
  | MemoryMax string i64 | CpuWeight string u32 | CpuMax string u64 u64 | PidsMax string i64 | SetFrozen string bool | IoMaxBytes string u64
  | ChargeMemory u64 u64 | UnchargeMemory u64 u64 | ChargeCpu u64 u64 | ChargeIo u64 u64

fun cg2_step :: "cg2_op \<Rightarrow> Cgroup2Table \<Rightarrow> Cgroup2Table" where
  "cg2_step (Mkdir path) t = fst (mkdir path t)"
| "cg2_step (Rmdir path) t = fst (rmdir path t)"
| "cg2_step (Attach path pid) t = fst (attach_process path pid t)"
| "cg2_step (SubtreeControl path en dis) t = fst (set_subtree_control path en dis t)"
| "cg2_step (MemoryMax path n) t = fst (set_memory_max path n t)"
| "cg2_step (CpuWeight path w) t = fst (set_cpu_weight path w t)"
| "cg2_step (CpuMax path q p) t = fst (set_cpu_max path q p t)"
| "cg2_step (PidsMax path n) t = fst (set_pids_max path n t)"
| "cg2_step (SetFrozen path b) t = fst (set_frozen path b t)"
| "cg2_step (IoMaxBytes path n) t = fst (set_io_max_bytes path n t)"
| "cg2_step (ChargeMemory pid n) t = fst (charge_memory pid n t)"
| "cg2_step (UnchargeMemory pid n) t = uncharge_memory pid n t"
| "cg2_step (ChargeCpu pid n) t = fst (charge_cpu pid n t)"
| "cg2_step (ChargeIo pid n) t = fst (charge_io pid n t)"

lemma enable_all_links: "children (fst (enable_all cs g)) = children g \<and> parent_id (fst (enable_all cs g)) = parent_id g"
  by (induction cs arbitrary: g) simp_all

lemma disable_links:
  "children (fold (\<lambda>c g. g\<lparr>subtree_control := filter (\<lambda>d. d \<noteq> c) (subtree_control g)\<rparr>) cs g) = children g
   \<and> parent_id (fold (\<lambda>c g. g\<lparr>subtree_control := filter (\<lambda>d. d \<noteq> c) (subtree_control g)\<rparr>) cs g) = parent_id g"
  by (induction cs arbitrary: g) simp_all

lemma attach_process_inv:
  assumes inv: "cg2_inv n t"
  shows "cg2_inv n (fst (attach_process path pid t))"
proof -
  let ?f = "\<lambda>_ g. g\<lparr>processes := filter (\<lambda>q. q \<noteq> pid) (processes g)\<rparr>"
  let ?t = "t\<lparr>cgroups := bt_map ?f (cgroups t)\<rparr>"
  have "links_of (bt_map ?f (cgroups t)) = links_of (cgroups t)"
    by (auto simp: links_of_def fun_eq_iff option.map_comp comp_def)
  with inv have "cg2_inv n ?t" by (simp add: cg2_inv_def)
  then have "cg2_inv n (fst (with_group path f ?t))" if "\<And>g. children (fst (f g)) = children g \<and> parent_id (fst (f g)) = parent_id g" for f
    using that by (rule cg2_inv_with_group)
  with inv show ?thesis unfolding attach_process_def by (simp add: Let_def)
qed

text \<open>Every other operation changes one group and none of its links.\<close>

lemmas cg2_setters = set_subtree_control_def set_memory_max_def set_cpu_weight_def set_cpu_max_def set_pids_max_def
  set_frozen_def set_io_max_bytes_def
lemmas cg2_charges = charge_memory_def uncharge_memory_def charge_cpu_def charge_io_def

lemma subtree_links:
  "children (fst (case enable_all en g of (g', Inl e) \<Rightarrow> (g', Inl e)
      | (g', Inr _) \<Rightarrow> (fold (\<lambda>c g. g\<lparr>subtree_control := filter (\<lambda>d. d \<noteq> c) (subtree_control g)\<rparr>) dis g', Inr ()))) = children g
   \<and> parent_id (fst (case enable_all en g of (g', Inl e) \<Rightarrow> (g', Inl e)
      | (g', Inr _) \<Rightarrow> (fold (\<lambda>c g. g\<lparr>subtree_control := filter (\<lambda>d. d \<noteq> c) (subtree_control g)\<rparr>) dis g', Inr ()))) = parent_id g"
  using enable_all_links [of en g] by (cases "enable_all en g"; cases "snd (enable_all en g)") (simp_all add: disable_links)

lemma cg2_setter_inv:
  assumes "cg2_inv n t"
  shows "cg2_inv n (fst (set_subtree_control path en dis t))" "cg2_inv n (fst (set_memory_max path i t))"
    "cg2_inv n (fst (set_cpu_weight path w t))" "cg2_inv n (fst (set_cpu_max path q p t))"
    "cg2_inv n (fst (set_pids_max path i t))" "cg2_inv n (fst (set_frozen path b t))"
    "cg2_inv n (fst (set_io_max_bytes path q t))"
  unfolding cg2_setters by (rule cg2_inv_with_group(1) [OF assms], simp add: subtree_links)+

lemma cg2_charge_inv:
  assumes "cg2_inv n t"
  shows "cg2_inv n (fst (charge_memory pid b t))" "cg2_inv n (uncharge_memory pid b t)"
    "cg2_inv n (fst (charge_cpu pid b t))" "cg2_inv n (fst (charge_io pid b t))"
  unfolding cg2_charges
  by (rule cg2_inv_with_group(2) [OF assms], simp add: Let_def case_prod_beta split: list.split)+

lemma cg2_step_inv:
  assumes inv: "cg2_inv n t" and n: "n < 2 ^ 63"
  shows "cg2_inv (Suc n) (cg2_step op t)"
proof (cases "\<exists>path. op = Mkdir path")
  case False
  then have "cg2_inv n (cg2_step op t)"
    by (cases op) (simp_all add: rmdir_inv attach_process_inv cg2_setter_inv cg2_charge_inv inv)
  then show ?thesis by (rule cg2_inv_mono) simp
qed (use mkdir_inv [OF inv n] in auto)

interpretation cg: counted_machine Cgroup2Table_new cg2_step "\<lambda>_. True" cg2_inv "2 ^ 63"
proof unfold_locales
  have "links_of (cgroups Cgroup2Table_new) = [0 \<mapsto> ([], None)]"
    by (simp add: Cgroup2Table_new_def Cgroup2_new_def links_of_def fun_eq_iff)
  then show "cg2_inv 0 Cgroup2Table_new"
    by (simp add: cg2_inv_def link_tree_def) (simp add: Cgroup2Table_new_def bt_wf_def)
qed (simp add: cg2_step_inv)

text \<open>
  C11: The recursion of \<open>count_descendants\<close> terminates. In every table that fewer than
  \<open>2 ^ 63\<close> operations on the hierarchy can produce, it returns, at a depth below the number of operations plus three,
  the number of groups whose chain of parents passes through the given one; for every group, removed or not.
\<close>

theorem count_descendants_returns:
  assumes "length ops < 2 ^ 63" and "t = fold cg2_step ops Cgroup2Table_new"
  shows "count_descendants (length ops + 3) t i = Some (card (below (links_of (cgroups t)) i))"
proof -
  have inv: "cg2_inv (length ops) t"
    unfolding assms(2) using assms(1) by (intro cg.reachable_counted) (simp_all add: list_all_iff)
  have "unat j < length ops + 2" if "bt_get (cgroups t) j \<noteq> None" for j
    using cg2_invD(4) [OF inv that] cg2_invD(3) [OF inv] by (simp add: word_less_nat_alt)
  from count_descendants_eq [OF cg2_invD(2) [OF inv] this] show ?thesis by simp
qed

definition cg2_demo :: Cgroup2Table where
  "cg2_demo = fold cg2_step [Mkdir ''/a'', Mkdir ''/a/b'', Mkdir ''/c''] Cgroup2Table_new"

theorem count_descendants_returns_witness:
  "card (below (links_of (cgroups cg2_demo)) 0) = 3"
proof -
  have "count_descendants 6 cg2_demo 0 = Some 3" unfolding cg2_demo_def by code_simp
  with count_descendants_returns [OF _ cg2_demo_def, of 0] show ?thesis by simp
qed

section \<open>Charges on both hierarchies\<close>

definition group1 :: "u32 \<Rightarrow> cgroups1 \<Rightarrow> CGroup option" where
  "group1 pid t = Option.bind (first_key (\<lambda>c. pid \<in> set (cgroup_pids c)) t) (bt_get t)"

definition group2 :: "u64 \<Rightarrow> Cgroup2Table \<Rightarrow> Cgroup2 option" where
  "group2 pid t = Option.bind (first_key (\<lambda>g. pid \<in> set (processes g)) (cgroups t)) (bt_get (cgroups t))"

abbreviation usage1 :: "u32 \<Rightarrow> Cgroups \<Rightarrow> u64 option" where
  "usage1 pid s \<equiv> map_option (\<lambda>g. usage_bytes (cgroup_memory g)) (group1 pid (cg1 s))"

abbreviation usage2 :: "u32 \<Rightarrow> Cgroups \<Rightarrow> u64 option" where
  "usage2 pid s \<equiv> map_option (\<lambda>g. mem_current (cg_memory g)) (group2 (ucast pid) (cg2 s))"

lemma first_key_modify:
  assumes "\<And>v. bt_get m k = Some v \<Longrightarrow> p (f v) = p v" and "distinct (map fst m)"
  shows "first_key p (bt_modify k f m) = first_key p m"
proof -
  have "p (snd e) = p (f (snd e))" if "e \<in> set m" "fst e = k" for e
    using assms(1) [of "snd e"] that assms(2) by (metis map_of_eq_Some_iff prod.collapse)
  then have "List.find (\<lambda>e. p (snd e)) (bt_modify k f m) = map_option (\<lambda>e. if fst e = k then (fst e, f (snd e)) else e) (List.find (\<lambda>e. p (snd e)) m)"
    unfolding bt_modify_def by (induction m) auto
  then show ?thesis by (auto simp: first_key_def option.map_comp comp_def intro: option.map_cong)
qed

text \<open>Changing the group of a process in place.\<close>

lemma group1_modify:
  assumes "bt_wf t" "first_key (\<lambda>c. pid \<in> set (cgroup_pids c)) t = Some k" "\<And>g. cgroup_pids (f g) = cgroup_pids g"
  shows "group1 pid (bt_modify k f t) = map_option f (group1 pid t)"
  using assms first_key_modify [of t k "\<lambda>c. pid \<in> set (cgroup_pids c)" f] bt_wf_distinct [of t]
  by (simp add: group1_def)

lemma group2_process:
  assumes "bt_wf (cgroups t)" "\<And>g. processes (fst (f g)) = processes g" "with_process pid f t = (t', r)"
  shows "group2 pid t' = map_option (\<lambda>g. fst (f g)) (group2 pid t)"
    "r = (case group2 pid t of None \<Rightarrow> Inr () | Some g \<Rightarrow> snd (f g))" "bt_wf (cgroups t')"
proof -
  let ?k = "first_key (\<lambda>g. pid \<in> set (processes g)) (cgroups t)"
  have "group2 pid t' = map_option (\<lambda>g. fst (f g)) (group2 pid t) \<and> r = (case group2 pid t of None \<Rightarrow> Inr () | Some g \<Rightarrow> snd (f g))
      \<and> bt_wf (cgroups t')"
  proof (cases ?k)
    case None
    with assms(1,3) show ?thesis by (auto simp: with_process_def group2_def)
  next
    case (Some k)
    obtain g where g: "bt_get (cgroups t) k = Some g" by (rule first_key_Some [OF assms(1) Some])
    have "first_key (\<lambda>g. pid \<in> set (processes g)) (bt_modify k (\<lambda>_. fst (f g)) (cgroups t)) = Some k"
      using first_key_modify [of "cgroups t" k "\<lambda>g. pid \<in> set (processes g)" "\<lambda>_. fst (f g)"] assms(1,2) Some g bt_wf_distinct [OF assms(1)]
      by simp
    with Some g assms(1,3) show ?thesis by (auto simp: with_process_def group2_def split: prod.splits)
  qed
  then show "group2 pid t' = map_option (\<lambda>g. fst (f g)) (group2 pid t)"
    "r = (case group2 pid t of None \<Rightarrow> Inr () | Some g \<Rightarrow> snd (f g))" "bt_wf (cgroups t')" by blast+
qed

lemma charge_memory_cases:
  assumes "bt_wf (cgroups t)" "charge_memory pid bytes t = (t', r)"
  shows "bt_wf (cgroups t')"
    "r = Inr () \<Longrightarrow> map_option (\<lambda>g. mem_current (cg_memory g)) (group2 pid t')
       = map_option (\<lambda>g. sat_add (mem_current (cg_memory g)) bytes) (group2 pid t)"
    "r = Inr () \<Longrightarrow> group2 pid t' = Some g \<Longrightarrow> mem_max (cg_memory g) < 0 \<or> mem_current (cg_memory g) \<le> of_int (mem_max (cg_memory g))"
    "r = Inl e \<Longrightarrow> group2 pid t' = group2 pid t"
  using group2_process [OF assms(1) _ assms(2) [unfolded charge_memory_def]]
  by (auto simp: Let_def option.map_comp comp_def map_option_case not_less split: option.splits if_splits)

lemma uncharge_memory_current:
  assumes "bt_wf (cgroups t)"
  shows "map_option (\<lambda>g. mem_current (cg_memory g)) (group2 pid (uncharge_memory pid bytes t))
    = map_option (\<lambda>g. sat_sub (mem_current (cg_memory g)) bytes) (group2 pid t)"
  unfolding uncharge_memory_def
  by (subst group2_process(1) [OF assms _ surjective_pairing]) (simp_all add: option.map_comp comp_def)

lemma sat_sub_add: "unat a + unat b < 2 ^ 64 \<Longrightarrow> sat_sub (a + b) b = a" for a b :: u64
  by (simp add: word_unat_eq_iff unat_sat_sub unat_word_ariths)

text \<open>
  C12: The outcome of a memory charge. A charge that succeeds adds the bytes to the usage of the
  process's group in both hierarchies and leaves each within its limit. One that fails returns
  \<open>-ENOMEM\<close> and leaves the version 1 usage as it was, also when the version 2 limit refused it
  after the version 1 group had been charged. In that case, however, the roll-back also takes the
  bytes off the version 2 usage, to which they were never added.
\<close>

theorem try_charge_outcome:
  assumes "bt_wf (cg1 s)" and "bt_wf (cgroups (cg2 s))"
    and "\<forall>u. usage1 pid s = Some u \<longrightarrow> unat u + unat bytes < 2 ^ 64"
    and "try_charge pid bytes s = (s', r)"
  shows "case r of
      Inr _ \<Rightarrow> usage1 pid s' = map_option (\<lambda>u. u + bytes) (usage1 pid s)
        \<and> usage2 pid s' = map_option (\<lambda>u. sat_add u bytes) (usage2 pid s)
        \<and> (\<forall>g. group1 pid (cg1 s') = Some g \<longrightarrow> limit_bytes (cgroup_memory g) < 0
              \<or> usage_bytes (cgroup_memory g) \<le> of_int (limit_bytes (cgroup_memory g)))
        \<and> (\<forall>g. group2 (ucast pid) (cg2 s') = Some g \<longrightarrow> mem_max (cg_memory g) < 0
              \<or> mem_current (cg_memory g) \<le> of_int (mem_max (cg_memory g)))
    | Inl e \<Rightarrow> e = ENOMEM \<and> usage1 pid s' = usage1 pid s
        \<and> (if (\<forall>g. group1 pid (cg1 s) = Some g \<longrightarrow> can_allocate bytes g)
           then usage2 pid s' = map_option (\<lambda>u. sat_sub u bytes) (usage2 pid s)
           else usage2 pid s' = usage2 pid s)"
proof (cases "\<forall>g. group1 pid (cg1 s) = Some g \<longrightarrow> can_allocate bytes g")
  case False
  then show ?thesis using assms(4) by (auto simp: try_charge_def group1_def Let_def)
next
  case True
  define k where "k = first_key (\<lambda>c. pid \<in> set (cgroup_pids c)) (cg1 s)"
  define s1 where "s1 = (case k of Some p \<Rightarrow> s\<lparr>cg1 := bt_modify p (record_alloc bytes) (cg1 s)\<rparr> | None \<Rightarrow> s)"
  have g1: "group1 pid (cg1 s1) = map_option (record_alloc bytes) (group1 pid (cg1 s))"
  proof (cases k)
    case None
    then show ?thesis by (simp add: s1_def group1_def k_def)
  next
    case (Some p)
    then show ?thesis using group1_modify [OF assms(1), of pid p "record_alloc bytes"]
      by (simp add: s1_def k_def record_alloc_def Let_def)
  qed
  have wf1: "bt_wf (cg1 s1)" and s1: "cg2 s1 = cg2 s" using assms(1) by (simp_all add: s1_def split: option.split)
  obtain t r2 where ch: "charge_memory (ucast pid) bytes (cg2 s) = (t, r2)" by fastforce
  note C = charge_memory_cases [OF assms(2) ch]
  have res: "(s', r) = (case r2 of Inl _ \<Rightarrow> (uncharge pid bytes (s1\<lparr>cg2 := t\<rparr>), Inl ENOMEM) | Inr _ \<Rightarrow> (s1\<lparr>cg2 := t\<rparr>, Inr ()))"
    using assms(4) True ch s1
    by (auto simp: try_charge_def Let_def group1_def k_def [symmetric] s1_def [symmetric] split: option.splits sum.splits)
  show ?thesis
  proof (cases r2)
    case (Inr x)
    with C(2,3) res g1 True show ?thesis
      by (auto simp: option.map_comp comp_def record_alloc_def can_allocate_def Let_def)
  next
    case (Inl e)
    let ?s = "s1\<lparr>cg2 := t\<rparr>"
    have "first_key (\<lambda>c. pid \<in> set (cgroup_pids c)) (cg1 s1) = k"
      unfolding s1_def using bt_wf_distinct [OF assms(1)]
      by (auto simp: k_def [symmetric] record_alloc_def Let_def first_key_modify split: option.split)
    then have "group1 pid (cg1 (uncharge pid bytes ?s)) = map_option (record_free bytes) (group1 pid (cg1 s1))"
      using group1_modify [OF wf1, of pid _ "record_free bytes"]
      by (auto simp: uncharge_def Let_def record_free_def group1_def split: option.split)
    then have "usage1 pid (uncharge pid bytes ?s) = usage1 pid s"
      using assms(3) g1 by (cases "group1 pid (cg1 s)") (simp_all add: record_free_def record_alloc_def Let_def sat_sub_add)
    moreover have "usage2 pid (uncharge pid bytes ?s) = map_option (\<lambda>u. sat_sub u bytes) (usage2 pid s)"
      using uncharge_memory_current [OF C(1)] C(4) [OF Inl] by (simp add: uncharge_def Let_def option.map_comp comp_def)
    ultimately show ?thesis using res Inl True by simp
  qed
qed

text \<open>Process 7 in a version 2 group with a limit of one page, all of it in use.\<close>

definition cg_demo :: Cgroups where
  "cg_demo = \<lparr>cg1 = fst (attach_pid ''/'' 7 [(''/'', CGroup_new ''root'' ''/'')]),
     cg2 = fold cg2_step [Mkdir ''/a'', MemoryMax ''/a'' 4096, Attach ''/a'' 7, ChargeMemory 7 4096] Cgroup2Table_new\<rparr>"

lemma cg_demo_wf: "bt_wf (cg1 cg_demo)" "bt_wf (cgroups (cg2 cg_demo))"
proof -
  show "bt_wf (cg1 cg_demo)"
    by (simp add: cg_demo_def attach_pid_def bt_map_def remove_pid_def add_pid_def CGroup_new_def bt_wf_def)
  have "cg2_inv (Suc (Suc (Suc (Suc 0)))) (cg2 cg_demo)"
    using cg.reachable_counted [of "[Mkdir ''/a'', MemoryMax ''/a'' 4096, Attach ''/a'' 7, ChargeMemory 7 4096]"]
    by (simp add: cg_demo_def)
  then show "bt_wf (cgroups (cg2 cg_demo))" by (rule cg2_invD)
qed

lemmas cg_eval = attach_pid_def bt_map_def bt_modify_def remove_pid_def add_pid_def CGroup_new_def group1_def first_key_def
  Cgroup2Table_new_def Cgroup2_new_def mkdir_def parent_of_def trim_end_slash_def rfind_slash_def set_memory_max_def
  with_group_def attach_process_def charge_memory_def with_process_def group2_def sat_add_def checked_add_def
  try_charge_def can_allocate_def record_alloc_def record_free_def uncharge_def uncharge_memory_def sat_sub_def Let_def

lemma cg_demo_eq:
  "cg2 cg_demo = Cgroup2Table_new\<lparr>next_id := 2, path_to_id := [(''/'', 0), (''/a'', 1)],
     cgroups := [(0, (Cgroup2_new 0 ''/'' None)\<lparr>children := [1]\<rparr>),
       (1, (Cgroup2_new 1 ''/a'' (Some 0))\<lparr>controllers := [], processes := [7],
          cg_memory := (cg_memory (Cgroup2_new 1 ''/a'' (Some 0)))\<lparr>mem_max := 4096, mem_current := 4096\<rparr>,
          cg_pids := (cg_pids (Cgroup2_new 1 ''/a'' (Some 0)))\<lparr>pids2_current := 1\<rparr>\<rparr>)]\<rparr>"
  "cg1 cg_demo = [(''/'', (CGroup_new ''root'' ''/'')\<lparr>cgroup_pids := [7], pids_ctrl := \<lparr>pids_max = - 1, pids_current = 1\<rparr>\<rparr>)]"
  by (simp_all add: cg_demo_def cg_eval)

lemma cg_demo_usage: "usage1 7 cg_demo = Some 0" "usage2 7 cg_demo = Some 4096"
  by (simp_all add: cg_demo_eq cg_eval)

theorem try_charge_outcome_witness:
  "snd (try_charge 7 8192 cg_demo) = Inl ENOMEM \<and> usage1 7 (fst (try_charge 7 8192 cg_demo)) = Some 0"
proof -
  have r: "snd (try_charge 7 8192 cg_demo) = Inl ENOMEM" by (simp add: cg_demo_eq cg_eval)
  have "\<forall>u. usage1 7 cg_demo = Some u \<longrightarrow> unat u + unat (8192 :: u64) < 2 ^ 64" by (simp only: cg_demo_usage) simp
  from try_charge_outcome [OF cg_demo_wf this surjective_pairing] r
  have "usage1 7 (fst (try_charge 7 8192 cg_demo)) = usage1 7 cg_demo" by simp
  with r show ?thesis by (simp only: cg_demo_usage)
qed

text \<open>
  A refused charge therefore empties the version 2 account: afterwards the full limit is available
  again although nothing was released.
\<close>

lemma refused_charge_frees_limit:
  "snd (try_charge 7 4096 cg_demo) = Inl ENOMEM \<and> snd (try_charge 7 4096 (fst (try_charge 7 4096 cg_demo))) = Inr ()"
  by (simp add: cg_demo_eq cg_eval)

text \<open>In version 1 the sum of usage and request wraps, so a huge request passes a small limit.\<close>

lemma charge_wraps_past_limit:
  "can_allocate (- 4096) (record_alloc 4096 ((CGroup_new name path)\<lparr>cgroup_memory := (cgroup_memory (CGroup_new name path))\<lparr>limit_bytes := 4096\<rparr>\<rparr>))"
  by (simp add: can_allocate_def record_alloc_def CGroup_new_def Let_def)

text \<open>A failed \<open>attach_pid\<close> has already taken the process out of its group and so out of its limits.\<close>

lemma failed_attach_detaches:
  assumes "bt_get t path = None" "bt_wf t"
  shows "snd (attach_pid path pid t) \<noteq> Inr () \<and> group1 pid (fst (attach_pid path pid t)) = None"
proof -
  have "first_key (\<lambda>c. pid \<in> set (cgroup_pids c)) (bt_map (\<lambda>_. remove_pid pid) t) = None"
    by (auto simp: first_key_None bt_values_def bt_map_def remove_pid_def Let_def)
  with assms show ?thesis by (simp add: attach_pid_def Let_def group1_def)
qed

end
