(* ===== verification/Vm_Table.thy ===== *)
theory Vm_Table
  imports Page_Fault Cgroup
begin

text \<open>
  The table of address spaces of \<open>src/kernel/src/mm/vmm/space.rs\<close>, the counts of shared page
  tables, the entry points that system calls and the page-fault handler use, and the copies to and
  from the memory of a process (\<open>mm/vmm/user.rs\<close>) and to swap.
\<close>

section \<open>The state\<close>

record VmState =
  machine :: Vm
  address_spaces :: "(u32, AddressSpace) btree"
  cr3_extra_refs :: "(u64, u32) btree"
  charges :: Cgroups

definition cr3_share :: "u64 \<Rightarrow> VmState \<Rightarrow> VmState" where
  "cr3_share cr3 t =
     (if cr3 = 0 then t
      else t\<lparr>cr3_extra_refs := bt_insert cr3
        ((case bt_get (cr3_extra_refs t) cr3 of Some n \<Rightarrow> n | None \<Rightarrow> 0) + 1) (cr3_extra_refs t)\<rparr>)"

definition cr3_is_shared :: "u64 \<Rightarrow> VmState \<Rightarrow> bool" where
  "cr3_is_shared cr3 t \<longleftrightarrow> 0 < (case bt_get (cr3_extra_refs t) cr3 of Some n \<Rightarrow> n | None \<Rightarrow> 0)"

definition cr3_unshare :: "u64 \<Rightarrow> VmState \<Rightarrow> VmState" where
  "cr3_unshare cr3 t =
     (case bt_get (cr3_extra_refs t) cr3 of
        Some n \<Rightarrow> if 1 < n then t\<lparr>cr3_extra_refs := bt_insert cr3 (n - 1) (cr3_extra_refs t)\<rparr>
                  else t\<lparr>cr3_extra_refs := bt_remove cr3 (cr3_extra_refs t)\<rparr>
      | None \<Rightarrow> t)"

text \<open>\<open>ADDRESS_SPACES.lock().insert(pid, s)\<close>: an address space that the pid had before is dropped.\<close>

definition put_space :: "u32 \<Rightarrow> AddressSpace \<Rightarrow> VmState \<Rightarrow> VmState" where
  "put_space pid s t =
     (let t' = t\<lparr>address_spaces := bt_insert pid s (address_spaces t)\<rparr> in
      case bt_get (address_spaces t) pid of
        None \<Rightarrow> t'
      | Some old \<Rightarrow> t'\<lparr>machine := AddressSpace_drop old (machine t)\<rparr>)"

text \<open>What a method called through \<open>get_mut\<close> leaves behind.\<close>

definition set_space :: "u32 \<Rightarrow> Vm \<Rightarrow> AddressSpace \<Rightarrow> VmState \<Rightarrow> VmState" where
  "set_space pid m s t = t\<lparr>machine := m, address_spaces := bt_insert pid s (address_spaces t)\<rparr>"

section \<open>The life of an address space\<close>

definition create_address_space ::
  "unit vm_reclaim \<Rightarrow> u64 \<Rightarrow> u64 option \<Rightarrow> u64 option \<Rightarrow> u32 \<Rightarrow> VmState \<Rightarrow> VmState \<times> bool" where
  "create_address_space rc current rnd1 rnd2 pid t =
     (case AddressSpace_new rc current rnd1 rnd2 pid (machine t) of
        (m, Some s) \<Rightarrow> (put_space pid s (t\<lparr>machine := m\<rparr>), True)
      | (m, None) \<Rightarrow> (t\<lparr>machine := m\<rparr>, False))"

definition destroy_address_space :: "u32 \<Rightarrow> VmState \<Rightarrow> VmState" where
  "destroy_address_space pid t =
     (case bt_get (address_spaces t) pid of
        None \<Rightarrow> t
      | Some dying \<Rightarrow>
          let t = t\<lparr>address_spaces := bt_remove pid (address_spaces t)\<rparr>; cr3 = as_cr3 dying in
          if cr3 \<noteq> 0 \<and> cr3_is_shared cr3 t then
            let t = cr3_unshare cr3 t;
                t = (case first_key (\<lambda>s. as_cr3 s = cr3) (address_spaces t) of
                       None \<Rightarrow> t
                     | Some sib \<Rightarrow> t\<lparr>address_spaces := bt_modify sib
                         (\<lambda>s. s\<lparr>owned_frames := owned_frames s @ owned_frames dying\<rparr>) (address_spaces t)\<rparr>);
                dying = dying\<lparr>as_cr3 := 0, owned_frames := []\<rparr> in
            t\<lparr>machine := AddressSpace_drop dying (machine t)\<rparr>
          else t\<lparr>machine := AddressSpace_drop dying (machine t)\<rparr>)"

definition share_address_space :: "u32 \<Rightarrow> u32 \<Rightarrow> VmState \<Rightarrow> VmState \<times> bool" where
  "share_address_space parent_pid child_pid t =
     (case bt_get (address_spaces t) parent_pid of
        None \<Rightarrow> (t, False)
      | Some parent \<Rightarrow>
          let child = share child_pid parent; cr3 = as_cr3 child in
          if cr3 = 0 then (t, False) else (put_space child_pid child (cr3_share cr3 t), True))"

text \<open>\<open>activate_cr3\<close> loads a register and leaves this state as it is.\<close>

definition replace_address_space ::
  "unit vm_reclaim \<Rightarrow> u64 \<Rightarrow> u64 option \<Rightarrow> u64 option \<Rightarrow> u32 \<Rightarrow> VmState \<Rightarrow> VmState \<times> bool" where
  "replace_address_space rc current rnd1 rnd2 pid t =
     (case AddressSpace_new rc current rnd1 rnd2 pid (machine t) of
        (m, None) \<Rightarrow> (t\<lparr>machine := m\<rparr>, False)
      | (m, Some new_as) \<Rightarrow> (put_space pid new_as (t\<lparr>machine := m\<rparr>), True))"

definition fork_address_space ::
  "unit vm_reclaim \<Rightarrow> u64 \<Rightarrow> u64 option \<Rightarrow> u64 option \<Rightarrow> u32 \<Rightarrow> u32 \<Rightarrow> VmState \<Rightarrow> VmState \<times> bool" where
  "fork_address_space rc current rnd1 rnd2 parent_pid child_pid t =
     (case bt_get (address_spaces t) parent_pid of
        None \<Rightarrow> (t, False)
      | Some parent \<Rightarrow>
          (case fork rc current rnd1 rnd2 child_pid (machine t) parent of
             (m, Some child_space) \<Rightarrow> (put_space child_pid child_space (t\<lparr>machine := m\<rparr>), True)
           | (m, None) \<Rightarrow> (t\<lparr>machine := m\<rparr>, False)))"

section \<open>Faults and system calls\<close>

definition handle_page_fault ::
  "(string \<Rightarrow> u64 \<Rightarrow> u8 list) \<Rightarrow> unit vm_reclaim \<Rightarrow> u32 \<Rightarrow> u64 \<Rightarrow> bool \<Rightarrow> VmState \<Rightarrow> (VmState \<times> bool) exec" where
  "handle_page_fault rd rc pid fault_addr is_write t =
     (case bt_get (address_spaces t) pid of
        None \<Rightarrow> Done (t, False)
      | Some s \<Rightarrow>
          (case (if is_write then handle_cow_fault rc fault_addr (machine t) s else (machine t, s, False)) of
             (m, s, True) \<Rightarrow> Done (set_space pid m s t, True)
           | (m, s, False) \<Rightarrow>
               exec_bind (handle_swap_in rc fault_addr m s) (\<lambda>(m, s, handled).
                 if handled then Done (set_space pid m s t, True)
                 else case handle_demand_fault rd rc fault_addr m s of
                   (m, s, handled) \<Rightarrow> Done (set_space pid m s t, handled))))"

definition get_cr3 :: "u32 \<Rightarrow> VmState \<Rightarrow> u64 option" where
  "get_cr3 pid t = map_option as_cr3 (bt_get (address_spaces t) pid)"

text \<open>
  The part that \<open>mmap\<close> and \<open>mmap_file\<close> share; \<open>op\<close> is the method of the address space. The outer
  \<open>None\<close> is a call that does not return.
\<close>

definition charged_mmap ::
  "(Vm \<Rightarrow> AddressSpace \<Rightarrow> (Vm \<times> AddressSpace \<times> u64 option) option) \<Rightarrow> u32 \<Rightarrow> u64 \<Rightarrow> ProtFlags \<Rightarrow> VmState \<Rightarrow> (VmState \<times> int) option" where
  "charged_mmap op pid sz prot t0 =
     (case check_wx_violation (machine t0) prot of (m, denied) \<Rightarrow>
      let t = t0\<lparr>machine := m\<rparr> in
      if denied then Some (t, - 13)
      else case try_charge pid sz (charges t) of
        (cg, Inl _) \<Rightarrow> Some (t\<lparr>charges := cg\<rparr>, - 12)
      | (cg, Inr _) \<Rightarrow>
          let t = t\<lparr>charges := cg\<rparr>; failed = (\<lambda>t. (t\<lparr>charges := uncharge pid sz (charges t)\<rparr>, - 12)) in
          (case bt_get (address_spaces t) pid of
             None \<Rightarrow> Some (failed t)
           | Some s \<Rightarrow>
               (case op (machine t) s of
                  None \<Rightarrow> None
                | Some (m, s, Some mapped_addr) \<Rightarrow> Some (set_space pid m s t, sint mapped_addr)
                | Some (m, s, None) \<Rightarrow> Some (failed (set_space pid m s t)))))"

definition vm_mmap :: "unit vm_reclaim \<Rightarrow> u32 \<Rightarrow> u64 \<Rightarrow> u64 \<Rightarrow> u64 \<Rightarrow> u64 \<Rightarrow> VmState \<Rightarrow> (VmState \<times> int) option" where
  "vm_mmap rc pid addr sz prot flags =
     charged_mmap (mmap_anonymous rc addr sz (from_mmap_prot prot) (MmapFlags_from_linux flags)) pid sz (from_mmap_prot prot)"

definition vm_mmap_file ::
  "(string \<Rightarrow> u64 \<Rightarrow> u8 list) \<Rightarrow> unit vm_reclaim \<Rightarrow> u32 \<Rightarrow> u64 \<Rightarrow> u64 \<Rightarrow> u64 \<Rightarrow> u64 \<Rightarrow> string \<Rightarrow> u64 \<Rightarrow> VmState
     \<Rightarrow> (VmState \<times> int) option" where
  "vm_mmap_file rd rc pid addr sz prot flags path offset =
     charged_mmap (mmap_file rd rc addr sz (from_mmap_prot prot) (MmapFlags_from_linux flags) path offset) pid sz (from_mmap_prot prot)"

definition vm_munmap :: "u32 \<Rightarrow> u64 \<Rightarrow> u64 \<Rightarrow> VmState \<Rightarrow> VmState \<times> int" where
  "vm_munmap pid addr sz t =
     (case bt_get (address_spaces t) pid of
        None \<Rightarrow> (t, - 22)
      | Some s \<Rightarrow>
          (case munmap addr sz (machine t) s of
             (m, s) \<Rightarrow> (let t = set_space pid m s t in (t\<lparr>charges := uncharge pid sz (charges t)\<rparr>, 0))))"

definition vm_brk :: "unit vm_reclaim \<Rightarrow> u32 \<Rightarrow> u64 \<Rightarrow> VmState \<Rightarrow> VmState \<times> int" where
  "vm_brk rc pid new_brk t0 =
     (case bt_get (address_spaces t0) pid of
        None \<Rightarrow> (t0, - 12)
      | Some s \<Rightarrow>
          let old = as_brk s; grows = (new_brk \<noteq> 0 \<and> old < new_brk) in
          (case (if grows then try_charge pid (new_brk - old) (charges t0) else (charges t0, Inr ())) of
             (cg, Inl _) \<Rightarrow> (t0\<lparr>charges := cg\<rparr>, sint old)
           | (cg, Inr _) \<Rightarrow>
               (case brk rc new_brk (machine t0) s of
                  (m, s, r) \<Rightarrow>
                    let t = set_space pid m s (t0\<lparr>charges := cg\<rparr>); result = sint r in
                    if result < 0 then
                      (if grows then t\<lparr>charges := uncharge pid (new_brk - old) (charges t)\<rparr> else t, result)
                    else if grows \<and> r \<le> old then
                      (t\<lparr>charges := uncharge pid (new_brk - old) (charges t)\<rparr>, result)
                    else if r < old then
                      (t\<lparr>charges := uncharge pid (old - r) (charges t)\<rparr>, result)
                    else (t, result))))"

section \<open>The memory of a process\<close>

definition write_user_memory :: "u32 \<Rightarrow> u64 \<Rightarrow> u8 list \<Rightarrow> VmState \<Rightarrow> VmState" where
  "write_user_memory pid vaddr data t =
     (case bt_get (address_spaces t) pid of
        None \<Rightarrow> t
      | Some s \<Rightarrow> t\<lparr>machine := write_user_pages (machine t) (as_cr3 s) vaddr data\<rparr>)"

definition read_user_memory :: "u32 \<Rightarrow> u64 \<Rightarrow> u8 list \<Rightarrow> VmState \<Rightarrow> u8 list" where
  "read_user_memory pid vaddr buf t =
     (case bt_get (address_spaces t) pid of
        None \<Rightarrow> buf
      | Some s \<Rightarrow> read_user_pages (machine t) (as_cr3 s) vaddr buf)"

text \<open>
  The arguments \<open>free1\<close> and \<open>free2\<close> say whether the two calls of \<open>try_lock\<close> find the table
  unlocked.
\<close>

definition swap_out_page :: "bool \<Rightarrow> bool \<Rightarrow> u32 \<Rightarrow> u64 \<Rightarrow> VmState \<Rightarrow> VmState \<times> bool" where
  "swap_out_page free1 free2 pid vaddr t =
     (let page = page_align_down vaddr in
      case (if free1 then bt_get (address_spaces t) pid else None) of
        None \<Rightarrow> (t, False)
      | Some s \<Rightarrow>
          (case get_mapped_frame (machine t) (as_cr3 s) page of
             None \<Rightarrow> (t, False)
           | Some phys \<Rightarrow>
               let buf = read_user_memory pid page (replicate 4096 0) t in
               (case page_out pid page buf (swap_manager (machine t)) of
                  (sw, None) \<Rightarrow> (t\<lparr>machine := (machine t)\<lparr>swap_manager := sw\<rparr>\<rparr>, False)
                | (sw, Some _) \<Rightarrow>
                    let t = t\<lparr>machine := (machine t)\<lparr>swap_manager := sw\<rparr>\<rparr> in
                    if \<not> free2 then (t, False)
                    else
                      let t = set_space pid (unmap_page_in_table (machine t) (as_cr3 s) page)
                                (s\<lparr>owned_frames := filter (\<lambda>f. f \<noteq> phys) (owned_frames s)\<rparr>) t in
                      (t\<lparr>machine := free_physical_frame (machine t) phys\<rparr>, True))))"

section \<open>The regions of \<open>/proc/pid/maps\<close>\<close>

record MemRegionInfo =
  mri_start :: u64
  mri_end :: u64
  readable :: bool
  mri_writable :: bool
  executable :: bool
  mri_private :: bool
  mri_offset :: u64
  mri_name :: string

definition perms_str :: "MemRegionInfo \<Rightarrow> string" where
  "perms_str r = (if readable r then ''r'' else ''-'') @ (if mri_writable r then ''w'' else ''-'')
     @ (if executable r then ''x'' else ''-'') @ (if mri_private r then ''p'' else ''s'')"

definition get_memory_regions :: "u32 \<Rightarrow> VmState \<Rightarrow> MemRegionInfo list" where
  "get_memory_regions pid t =
     (case bt_get (address_spaces t) pid of
        None \<Rightarrow> []
      | Some s \<Rightarrow>
          sort_key mri_start
            ((if HEAP_START < as_brk s
              then [\<lparr>mri_start = HEAP_START, mri_end = as_brk s, readable = True, mri_writable = True, executable = False,
                     mri_private = True, mri_offset = 0, mri_name = ''[heap]''\<rparr>] else [])
             @ map (\<lambda>v. \<lparr>mri_start = vma_start v, mri_end = vma_end v, readable = prot_read (vma_prot v),
                     mri_writable = prot_write (vma_prot v), executable = prot_execute (vma_prot v),
                     mri_private = (\<not> map_shared (vma_flags v)), mri_offset = file_offset v,
                     mri_name = (case file_path v of Some p \<Rightarrow> p | None \<Rightarrow> [])\<rparr>) (bt_values (vmas s))
             @ [\<lparr>mri_start = STACK_TOP - STACK_SIZE, mri_end = STACK_TOP, readable = True, mri_writable = True,
                 executable = False, mri_private = True, mri_offset = 0, mri_name = ''[stack]''\<rparr>]))"

end
