(* ===== verification/Frame_Owner.thy ===== *)
theory Frame_Owner
  imports Vm_Table
begin

text \<open>
  Who owns a physical frame. Every operation on an address space takes frames from the pool and
  adds them to its list of owned frames; over any run of the table of address spaces no frame has
  two owners, none is free while it is owned, and the counts of shared page tables are right.
\<close>

section \<open>Operations that keep the pool apart\<close>

text \<open>An operation after which the pool still holds none of the frames in use.\<close>

definition spares :: "('e \<Rightarrow> nat multiset) \<Rightarrow> 'e Machine_scheme \<Rightarrow> 'e Machine_scheme \<Rightarrow> bool" where
  "spares R m m' \<longleftrightarrow> (\<forall>U. apart R m U \<longrightarrow> apart R m' U)"

lemma spares_refl [simp]: "spares R m m"
  by (simp add: spares_def)

lemma spares_trans: "spares R m n \<Longrightarrow> spares R n m' \<Longrightarrow> spares R m m'"
  by (simp add: spares_def)

lemma spares_same: "frame_pool m' = frame_pool m \<Longrightarrow> Machine.more m' = Machine.more m \<Longrightarrow> spares R m m'"
  by (simp add: spares_def apart_def)

lemma spares_vm:
  assumes "ignores_vm R"
  shows "spares R m (m\<lparr>swap_manager := x\<rparr>)" "spares R m (m\<lparr>aslr_seed := y\<rparr>)" "spares R m (m\<lparr>wx_violations := z\<rparr>)"
  by (simp_all add: spares_def apart_vm [OF assms])

lemma spares_fold: "(\<And>x m. x \<in> set xs \<Longrightarrow> spares R m (f x m)) \<Longrightarrow> spares R m (fold f xs m)"
  by (induction xs arbitrary: m) (auto intro: spares_trans)

lemma write_entry_spares: "spares R m (write_entry m t i e)"
  by (rule spares_same) (simp_all add: write_entry_def)

lemma zero_spares: "spares R m (zero_physical_frame m f)"
  by (rule spares_same) (simp_all add: zero_physical_frame_def)

lemma copy_spares: "spares R m (copy_physical_frame m f g)" "spares R m (copy_to_physical_frame m f bs)"
  by (rule spares_same; simp add: copy_physical_frame_def copy_to_physical_frame_def)+

lemma fill_spares: "spares R m (fill_file_backed_page rd m path off f)"
  by (simp add: fill_file_backed_page_def Let_def copy_spares)

lemma unmap_spares: "spares R m (unmap_page_in_table m cr3 v)" "spares R m (update_page_flags_in_table m cr3 v fl)"
  by (auto simp: unmap_page_in_table_def update_page_flags_in_table_def Let_def write_entry_spares split: option.split)

lemma check_wx_spares: "ignores_vm R \<Longrightarrow> check_wx_violation m prot = (m', d) \<Longrightarrow> spares R m m'"
  by (auto simp: check_wx_violation_def spares_vm split: if_splits)

lemma allocate_table_spares:
  assumes "reclaim_ok R rc" and "allocate_page_table_frame rc m = (m', r)"
  shows "spares R m m'"
  unfolding spares_def
proof (intro allI impI)
  fix U assume a: "apart R m U"
  obtain m1 r1 where al: "allocate_physical_frame rc m = (m1, r1)" by force
  with allocate_physical_frame_out [OF a assms(1)] have "handed_out R m U m1 r1" by simp
  then have "apart R m1 U" by (auto simp: handed_out_def split: option.splits intro: apart_subset)
  with al assms(2) zero_spares show "apart R m' U"
    by (auto simp: allocate_page_table_frame_def spares_def split: option.splits)
qed

lemma next_table_spares:
  assumes "reclaim_ok R rc" and "next_table rc m t i c = (m', r)"
  shows "spares R m m'"
  using assms(2) allocate_table_spares [OF assms(1), of m]
  by (auto simp: next_table_def Let_def split: if_splits prod.splits option.splits intro: spares_trans write_entry_spares)

lemma map_page_spares:
  assumes "reclaim_ok R rc"
  shows "spares R m (map_page_in_table rc m cr3 v f fl)"
  by (simp add: map_page_in_table_def split: prod.split option.split)
    (meson spares_trans write_entry_spares next_table_spares [OF assms])

text \<open>Freeing a frame in use takes it out of the frames in use.\<close>

lemma free_frame_pool:
  assumes "pool_ok p" and "frame_addr f"
  shows "pool_ok (pool_free_frame p f)" "frames_of (pool_free_frame p f) = add_mset (pfn f) (frames_of p)"
proof -
  have "f AND NOT (block_size 0 - 1) = f"
    using assms(2) page_align_down_id [of f] by (simp add: frame_addr_def page_align_down_def block_size_def PAGE_SIZE_def)
  moreover have "block_frames f 0 = {# pfn f #}" by (simp add: block_frames_def)
  ultimately show "pool_ok (pool_free_frame p f)" "frames_of (pool_free_frame p f) = add_mset (pfn f) (frames_of p)"
    using free_order_spec(1,2) [OF assms(1), of 0 f] by (simp_all add: free_is_order_0)
qed

lemma free_apart:
  assumes "apart R m (insert (pfn f) U)" and "pfn f \<notin> U" and "frame_addr f"
  shows "apart R (free_physical_frame m f) U" "apart R (m\<lparr>frame_pool := pool_free_frame (frame_pool m) f\<rparr>) U"
proof -
  note P = free_frame_pool [OF _ assms(3)]
  have bound: "pfn f < 2 ^ 40" using assms(3) by (simp add: frame_addr_def pfn_def less_mult_imp_div_less)
  have 2: "apart R (n\<lparr>frame_pool := pool_free_frame (frame_pool n) f\<rparr>) U" if n: "apart R n (insert (pfn f) U)" for n
  proof -
    have "count (frames_of (frame_pool n) + R (Machine.more n)) (pfn f) = 0"
      using n by (auto simp: apart_def not_in_iff [symmetric])
    then show ?thesis using n assms(2) P [of "frame_pool n"] bound by (auto simp: apart_def)
  qed
  show "apart R (m\<lparr>frame_pool := pool_free_frame (frame_pool m) f\<rparr>) U" by (rule 2 [OF assms(1)])
  have "apart R (zero_physical_frame m f) (insert (pfn f) U)" using assms(1) zero_spares by (auto simp: spares_def)
  from 2 [OF this] show "apart R (free_physical_frame m f) U" by (simp add: free_physical_frame_def Let_def)
qed

section \<open>Operations that take frames\<close>

text \<open>An operation on an address space that adds fresh frames to those it owns.\<close>

definition takes :: "('e \<Rightarrow> nat multiset) \<Rightarrow> 'e Machine_scheme \<Rightarrow> AddressSpace \<Rightarrow> 'e Machine_scheme \<Rightarrow> AddressSpace \<Rightarrow> bool" where
  "takes R m s m' s' \<longleftrightarrow> as_cr3 s' = as_cr3 s \<and> (\<forall>U. apart R m U \<longrightarrow> (\<exists>fs. owned_frames s' = owned_frames s @ fs
     \<and> list_all frame_addr fs \<and> distinct (map pfn fs) \<and> pfn ` set fs \<inter> U = {} \<and> apart R m' (U \<union> pfn ` set fs)))"

lemma takes_spares:
  assumes "spares R m m'" and "owned_frames s' = owned_frames s" "as_cr3 s' = as_cr3 s"
  shows "takes R m s m' s'"
  using assms by (auto simp: takes_def spares_def intro!: exI [of _ "[]"])

lemma takes_trans:
  assumes "takes R m s n u" and "takes R n u m' s'"
  shows "takes R m s m' s'"
  unfolding takes_def
proof (intro conjI allI impI)
  show "as_cr3 s' = as_cr3 s" using assms by (simp add: takes_def)
  fix U assume "apart R m U"
  with assms(1) obtain fs where fs: "owned_frames u = owned_frames s @ fs" "list_all frame_addr fs" "distinct (map pfn fs)"
    "pfn ` set fs \<inter> U = {}" "apart R n (U \<union> pfn ` set fs)" by (auto simp: takes_def)
  with assms(2) obtain gs where "owned_frames s' = owned_frames u @ gs" "list_all frame_addr gs" "distinct (map pfn gs)"
    "pfn ` set gs \<inter> (U \<union> pfn ` set fs) = {}" "apart R m' ((U \<union> pfn ` set fs) \<union> pfn ` set gs)" by (force simp: takes_def)
  with fs show "\<exists>fs. owned_frames s' = owned_frames s @ fs \<and> list_all frame_addr fs \<and> distinct (map pfn fs)
      \<and> pfn ` set fs \<inter> U = {} \<and> apart R m' (U \<union> pfn ` set fs)"
    by (intro exI [of _ "fs @ gs"]) (auto simp: image_Un Un_assoc)
qed

lemma takes_frame:
  assumes "reclaim_ok R rc" and "allocate_physical_frame rc m = (m', Some f)"
  shows "takes R m s m' (s\<lparr>owned_frames := owned_frames s @ [f]\<rparr>)"
  using allocate_physical_frame_out [OF _ assms] by (auto simp: takes_def handed_out_def)

lemma no_frame_spares:
  assumes "reclaim_ok R rc" and "allocate_physical_frame rc m = (m', None)"
  shows "spares R m m'"
  using allocate_physical_frame_out [OF _ assms] by (auto simp: spares_def handed_out_def)

lemma takes_then: "takes R m s n u \<Longrightarrow> spares R n m' \<Longrightarrow> takes R m s m' u"
  using takes_trans takes_spares by blast

lemma takes_after: "spares R m n \<Longrightarrow> takes R n s m' s' \<Longrightarrow> takes R m s m' s'"
  using takes_trans takes_spares by blast

lemma takes_update: "takes R m s m' s' \<Longrightarrow> owned_frames u = owned_frames s' \<Longrightarrow> as_cr3 u = as_cr3 s' \<Longrightarrow> takes R m s m' u"
  by (simp add: takes_def)

lemma populate_takes:
  assumes "reclaim_ok R rc" "ignores_vm R"
  shows "populate rc prot ps m s = (m', s', b) \<Longrightarrow> takes R m s m' s'"
proof (induction ps arbitrary: m s)
  case (Cons p ps)
  obtain m1 r where a: "allocate_physical_frame rc m = (m1, r)" by force
  show ?case
  proof (cases r)
    case None
    with Cons.prems a show ?thesis by (auto intro: takes_spares no_frame_spares [OF assms(1)])
  next
    case (Some f)
    let ?s = "s\<lparr>owned_frames := owned_frames s @ [f]\<rparr>"
    define m2 where "m2 = track_anon (as_pid ?s) p f (zero_physical_frame (map_page_in_table rc m1 (as_cr3 ?s) p f (to_page_flags prot)) f)"
    have "spares R m1 m2" unfolding m2_def track_anon_def
      by (intro spares_trans [OF spares_trans [OF map_page_spares [OF assms(1)] zero_spares] spares_vm(1) [OF assms(2)]])
    note T = takes_then [OF takes_frame [OF assms(1) a [unfolded Some]] this]
    have "populate rc prot ps m2 ?s = (m', s', b)" using Cons.prems a Some by (simp add: m2_def Let_def)
    from takes_trans [OF T Cons.IH [OF this]] show ?thesis .
  qed
qed (simp add: takes_spares)

lemma add_pages_takes:
  assumes "reclaim_ok R rc"
  shows "add_pages rc ps m s = (m', s', b) \<Longrightarrow> takes R m s m' s'"
proof (induction ps arbitrary: m s)
  case (Cons p ps)
  obtain m1 r where a: "allocate_physical_frame rc m = (m1, r)" by force
  show ?case
  proof (cases r)
    case None
    with Cons.prems a show ?thesis by (auto intro: takes_spares no_frame_spares [OF assms(1)])
  next
    case (Some f)
    let ?s = "s\<lparr>owned_frames := owned_frames s @ [f]\<rparr>"
    define m2 where "m2 = zero_physical_frame (map_page_in_table rc m1 (as_cr3 ?s) p f user_rw) f"
    have "spares R m1 m2" unfolding m2_def by (rule spares_trans [OF map_page_spares [OF assms(1)] zero_spares])
    note T = takes_then [OF takes_frame [OF assms(1) a [unfolded Some]] this]
    have "add_pages rc ps m2 ?s = (m', s', b)" using Cons.prems a Some by (simp add: m2_def Let_def)
    from takes_trans [OF T Cons.IH [OF this]] show ?thesis .
  qed
qed (simp add: takes_spares)

lemma allocate_region_owned:
  "allocate_mmap_region sz s = Some (s', r) \<Longrightarrow> owned_frames s' = owned_frames s \<and> as_cr3 s' = as_cr3 s"
  by (auto simp: allocate_mmap_region_def Let_def split: if_splits)

lemma mmap_choose_owned:
  "mmap_choose addr sz flags s = Some (s', r) \<Longrightarrow> owned_frames s' = owned_frames s \<and> as_cr3 s' = as_cr3 s"
  by (auto simp: mmap_choose_def Let_def dest: allocate_region_owned split: if_splits)

lemma mmap_anonymous_takes:
  assumes R: "reclaim_ok R rc" "ignores_vm R" and eq: "mmap_anonymous rc addr sz prot flags m s = Some (m', s', r)"
  shows "takes R m s m' s'"
proof -
  obtain m1 d where wx: "check_wx_violation m prot = (m1, d)" by force
  note sp = check_wx_spares [OF R(2) wx]
  show ?thesis
  proof (cases d)
    case True
    with eq wx sp show ?thesis by (auto simp: mmap_anonymous_def Let_def intro: takes_spares)
  next
    case False
    with eq wx obtain s1 c where ch: "mmap_choose addr (page_align_up sz) flags s = Some (s1, c)"
      by (auto simp: mmap_anonymous_def Let_def split: option.splits)
    have 1: "takes R m s m1 s1" using sp mmap_choose_owned [OF ch] by (auto intro: takes_spares)
    show ?thesis
    proof (cases c)
      case None
      with eq wx ch False 1 show ?thesis by (auto simp: mmap_anonymous_def Let_def)
    next
      case (Some v)
      obtain m2 s2 b where pop: "(if map_populate flags then populate rc prot (page_list v (page_align_up sz div PAGE_SIZE)) m1 s1 else (m1, s1, True)) = (m2, s2, b)"
        by (metis prod_cases3)
      then have "takes R m1 s1 m2 s2" using populate_takes [OF R] by (auto simp: takes_spares split: if_splits)
      with 1 have "takes R m s m2 s2" by (rule takes_trans)
      then show ?thesis using eq wx ch False Some pop
        by (auto simp: mmap_anonymous_def Let_def split: bool.splits intro: takes_update)
    qed
  qed
qed

lemma mmap_file_takes:
  assumes R: "reclaim_ok R rc" "ignores_vm R" and eq: "mmap_file rd rc addr sz prot flags path off m s = Some (m', s', r)"
  shows "takes R m s m' s'"
proof -
  obtain m1 s1 c where an: "mmap_anonymous rc addr sz prot flags m s = Some (m1, s1, c)"
    using eq by (auto simp: mmap_file_def split: option.splits)
  note T = mmap_anonymous_takes [OF R an]
  have fill: "spares R m (fold (\<lambda>i m. case get_mapped_frame m cr3 (g i) of None \<Rightarrow> m
      | Some frame \<Rightarrow> fill_file_backed_page rd m path (h i) frame) xs m)" for m cr3 g h xs
    by (rule spares_fold) (auto simp: fill_spares split: option.split)
  show ?thesis
  proof (cases c)
    case None
    with eq an T show ?thesis by (simp add: mmap_file_def)
  next
    case (Some v)
    have "owned_frames s' = owned_frames s1 \<and> as_cr3 s' = as_cr3 s1 \<and> spares R m1 m'"
      using eq an Some fill by (auto simp: mmap_file_def Let_def split: option.splits if_splits)
    then show ?thesis using T by (auto intro: takes_update takes_then)
  qed
qed

lemma unmap_pages_spares: "spares R m (unmap_pages cr3 ps m)"
  unfolding unmap_pages_def by (rule spares_fold) (rule unmap_spares)

lemma munmap_takes:
  assumes "munmap addr sz m s = (m', s')"
  shows "takes R m s m' s'"
proof -
  have one: "munmap_one a b k (m, s) = (m', s') \<Longrightarrow> takes R m s m' s'" for a b k m s m' s'
    by (auto simp: munmap_one_def remove_vma_def Let_def split: option.splits if_splits intro!: takes_spares unmap_pages_spares)
  have "fold (munmap_one a b) ks (m, s) = (m', s') \<Longrightarrow> takes R m s m' s'" for a b ks
  proof (induction ks arbitrary: m s)
    case (Cons k ks)
    obtain m1 s1 where 1: "munmap_one a b k (m, s) = (m1, s1)" by force
    with Cons.prems have "fold (munmap_one a b) ks (m1, s1) = (m', s')" by simp
    from takes_trans [OF one [OF 1] Cons.IH [OF this]] show ?case .
  qed (simp add: takes_spares)
  with assms show ?thesis by (auto simp: munmap_def Let_def)
qed

lemma brk_takes:
  assumes "reclaim_ok R rc" and eq: "brk rc new m s = (m', s', r)"
  shows "takes R m s m' s'"
proof (cases "as_brk s < page_align_up new \<and> new \<noteq> 0 \<and> \<not> HEAP_MAX < page_align_up new")
  case True
  let ?ps = "page_list (page_align_up (as_brk s)) ((page_align_up (page_align_up new) - page_align_up (as_brk s)) div PAGE_SIZE)"
  obtain m1 s1 b where a: "add_pages rc ?ps m s = (m1, s1, b)" by (metis prod_cases3)
  with add_pages_takes [OF assms(1)] have "takes R m s m1 s1" by blast
  with True eq a show ?thesis by (auto simp: brk_def Let_def split: bool.splits intro: takes_update)
next
  case False
  with eq show ?thesis
    by (auto simp: brk_def Let_def split: if_splits intro!: takes_spares unmap_pages_spares)
qed

lemma cow_fault_takes:
  assumes R: "reclaim_ok R rc" and eq: "handle_cow_fault rc a m s = (m', s', r)"
  shows "takes R m s m' s'"
proof (cases "bt_get (cow_pages s) (page_align_down a)")
  case (Some g)
  obtain m1 o1 where al: "allocate_physical_frame rc m = (m1, o1)" by force
  show ?thesis
  proof (cases o1)
    case None
    with eq Some al show ?thesis by (auto simp: handle_cow_fault_def Let_def intro: takes_spares no_frame_spares [OF R])
  next
    case f: (Some f)
    let ?s = "s\<lparr>owned_frames := owned_frames s @ [f]\<rparr>"
    have "spares R m1 m'" using eq Some al f
      by (auto simp: handle_cow_fault_def Let_def intro!: spares_trans [OF spares_trans [OF copy_spares(1) unmap_spares(1)] map_page_spares [OF R]])
    with takes_frame [OF R al [unfolded f]] have "takes R m s m' ?s" by (rule takes_then)
    with eq Some al f show ?thesis by (auto simp: handle_cow_fault_def Let_def intro: takes_update)
  qed
qed (use eq in \<open>auto simp: handle_cow_fault_def Let_def intro: takes_spares\<close>)

lemma fill_first_spares:
  assumes "ignores_vm R"
  shows "spares R m (fill_first rd pid v page f m)"
proof (cases "vma_type v = FileBacked")
  case True
  then show ?thesis
    by (simp add: fill_first_def Let_def zero_spares spares_trans [OF zero_spares fill_spares] split: option.split)
next
  case False
  then show ?thesis
    by (simp add: fill_first_def Let_def track_anon_def spares_trans [OF zero_spares spares_vm(1) [OF assms]])
qed

lemma demand_fault_takes:
  assumes R: "reclaim_ok R rc" "ignores_vm R" and eq: "handle_demand_fault rd rc a m s = (m', s', r)"
  shows "takes R m s m' s'"
proof (cases "find_vma s (page_align_down a)")
  case v: (Some v)
  obtain m1 o1 where al: "allocate_physical_frame rc m = (m1, o1)" by force
  show ?thesis
  proof (cases "vma_type v = Guard \<or> \<not> demandable (vma_type v) \<or> get_mapped_frame m (as_cr3 s) (page_align_down a) \<noteq> None \<or> o1 = None")
    case True
    then show ?thesis using eq v al
      by (auto simp: handle_demand_fault_def Let_def split: if_splits intro: takes_spares no_frame_spares [OF R(1)])
  next
    case False
    then obtain f where f: "o1 = Some f" by auto
    let ?s = "s\<lparr>owned_frames := owned_frames s @ [f]\<rparr>"
    have eqs: "m' = fill_first rd (as_pid s) v (page_align_down a) f
        (map_page_in_table rc m1 (as_cr3 s) (page_align_down a) f (to_page_flags (vma_prot v)))" "s' = ?s"
      using handle_demand_fault_eq [OF v _ _ _ al [unfolded f], of rd] eq False by (simp_all add: demand_served_def)
    have "spares R m1 m'" unfolding eqs by (rule spares_trans [OF map_page_spares [OF R(1)] fill_first_spares [OF R(2)]])
    from takes_then [OF takes_frame [OF R(1) al [unfolded f]] this] show ?thesis by (simp add: eqs)
  qed
qed (use eq in \<open>auto simp: handle_demand_fault_def Let_def intro: takes_spares\<close>)

lemma swap_in_takes:
  assumes R: "reclaim_ok R rc" "ignores_vm R" and eq: "handle_swap_in rc a m s = Done (m', s', r)"
  shows "takes R m s m' s'"
proof (cases "is_swapped (as_pid s) (page_align_down a) (swap_manager m)")
  case True
  let ?v = "page_align_down a"
  obtain m1 o1 where al: "pool_allocate m = (m1, o1)" by force
  have out: "apart R m U \<Longrightarrow> handed_out R m U m1 o1" for U using pool_allocate_out al by blast
  show ?thesis
  proof (cases o1)
    case None
    have "spares R m m1" using out None by (auto simp: spares_def handed_out_def)
    with eq True al None show ?thesis by (auto simp: handle_swap_in_def Let_def intro: takes_spares)
  next
    case (Some f)
    from eq True al Some obtain sw d where pi: "page_in (as_pid s) ?v (swap_manager m1) = Done (sw, d)"
      by (auto simp: handle_swap_in_def Let_def exec_bind_Done_iff)
    have T: "takes R m s m1 (s\<lparr>owned_frames := owned_frames s @ [f]\<rparr>)"
      using out Some by (auto simp: takes_def handed_out_def)
    show ?thesis
    proof (cases d)
      case None
      have m': "m' = m1\<lparr>swap_manager := sw, frame_pool := pool_free_frame (frame_pool m1) f\<rparr>" "s' = s"
        using eq True al Some pi None by (simp_all add: handle_swap_in_def Let_def)
      have "spares R m m'"
        unfolding spares_def
      proof (intro allI impI)
        fix U assume "apart R m U"
        from out [OF this] Some have h: "frame_addr f" "pfn f \<notin> U" "apart R m1 (insert (pfn f) U)" by (auto simp: handed_out_def)
        have "apart R (m1\<lparr>swap_manager := sw\<rparr>) (insert (pfn f) U)" using h(3) apart_vm(2) [OF R(2)] by blast
        from free_apart(2) [OF this h(2,1)] show "apart R m' U" by (simp add: m')
      qed
      then show ?thesis by (simp add: m'(2) takes_spares)
    next
      case data: (Some data)
      define m2 where "m2 = map_page_in_table rc (copy_to_physical_frame (m1\<lparr>swap_manager := sw\<rparr>) f data) (as_cr3 s) ?v f (vma_page_flags s ?v)"
      have m': "m' = track_anon (as_pid s) ?v f m2" "s' = s\<lparr>owned_frames := owned_frames s @ [f]\<rparr>"
        using eq True al Some pi data by (simp_all add: handle_swap_in_def Let_def m2_def)
      have "spares R m1 m2" unfolding m2_def
        by (rule spares_trans [OF spares_trans [OF spares_vm(1) [OF R(2)] copy_spares(2)] map_page_spares [OF R(1)]])
      then have "spares R m1 m'" unfolding m' track_anon_def by (rule spares_trans [OF _ spares_vm(1) [OF R(2)]])
      from takes_then [OF T this] show ?thesis by (simp add: m'(2))
    qed
  qed
qed (use eq in \<open>auto simp: handle_swap_in_def Let_def intro: takes_spares\<close>)

section \<open>New address spaces, forks and the end\<close>

lemma clone_spares: "spares R m (clone_kernel_mappings m current t)"
  unfolding clone_kernel_mappings_def Let_def
  by (auto intro!: spares_fold write_entry_spares)

lemma new_space_frames:
  assumes R: "reclaim_ok R rc" "ignores_vm R" and a: "apart R m U"
    and eq: "AddressSpace_new rc current r1 r2 pid m = (m', r)"
  shows "case r of None \<Rightarrow> apart R m' U
    | Some s \<Rightarrow> owned_frames s = [] \<and> frame_addr (as_cr3 s) \<and> pfn (as_cr3 s) \<notin> U \<and> apart R m' (insert (pfn (as_cr3 s)) U)"
proof -
  obtain m1 o1 where al: "allocate_physical_frame rc m = (m1, o1)" by force
  note out = allocate_physical_frame_out [OF a R(1) al]
  show ?thesis
  proof (cases o1)
    case None
    with eq al out show ?thesis by (auto simp: AddressSpace_new_def allocate_page_table_frame_def handed_out_def)
  next
    case (Some t)
    define m2 where "m2 = clone_kernel_mappings (zero_physical_frame m1 t) current t"
    have "spares R m1 m2" unfolding m2_def by (rule spares_trans [OF zero_spares clone_spares])
    with out Some have m2: "frame_addr t" "pfn t \<notin> U" "apart R m2 (insert (pfn t) U)" by (auto simp: handed_out_def spares_def)
    obtain sd1 heap where h: "aslr_heap_start (aslr_seed m2) r1 = (sd1, heap)" by force
    obtain sd2 top where e: "aslr_mmap_end sd1 r2 = (sd2, top)" by force
    have "apart R (m2\<lparr>aslr_seed := sd2\<rparr>) (insert (pfn t) U)" using m2(3) apart_vm(1) [OF R(2)] by blast
    then show ?thesis using eq al Some m2(1,2) h e
      by (auto simp: AddressSpace_new_def allocate_page_table_frame_def Let_def m2_def)
  qed
qed

lemma share_page_spares:
  assumes "reclaim_ok R rc" and "share_page rc p fl (m, c) v = (m', c')"
  shows "spares R m m' \<and> owned_frames c' = owned_frames c \<and> as_cr3 c' = as_cr3 c"
  using assms(2) spares_trans [OF map_page_spares [OF assms(1)] unmap_spares(2)]
  by (auto simp: share_page_def Let_def split: option.splits)

lemma fork_vma_spares:
  assumes R: "reclaim_ok R rc" and eq: "fork_vma rc p v (m, c) = (m', c')"
  shows "spares R m m' \<and> owned_frames c' = owned_frames c \<and> as_cr3 c' = as_cr3 c"
proof -
  have loop: "foldl (share_page rc p fl) (m, c) ps = (m', c') \<Longrightarrow>
      spares R m m' \<and> owned_frames c' = owned_frames c \<and> as_cr3 c' = as_cr3 c" for fl ps m c m' c'
  proof (induction ps arbitrary: m c)
    case (Cons v ps)
    obtain m1 c1 where 1: "share_page rc p fl (m, c) v = (m1, c1)" by force
    with Cons.prems have "foldl (share_page rc p fl) (m1, c1) ps = (m', c')" by simp
    from Cons.IH [OF this] share_page_spares [OF R 1] show ?case by (auto intro: spares_trans)
  qed simp
  show ?thesis
  proof (cases "vma_type v = Guard")
    case False
    obtain m1 c1 where 1: "foldl (share_page rc p (cow_flags (vma_prot v))) (m, c) (page_list (vma_start v) (vma_page_count v)) = (m1, c1)"
      by force
    with eq False have "m' = m1" "c' = add_vma (v\<lparr>vma_cow := True, ref_count := 2\<rparr>) c1" by (simp_all add: fork_vma_def)
    with loop [OF 1] show ?thesis by simp
  qed (use eq in \<open>auto simp: fork_vma_def add_vma_def\<close>)
qed

lemma fork_frames:
  assumes R: "reclaim_ok R rc" "ignores_vm R" and a: "apart R m U"
    and eq: "fork rc current r1 r2 pid m s = (m', r)"
  shows "case r of None \<Rightarrow> apart R m' U
    | Some c \<Rightarrow> owned_frames c = [] \<and> frame_addr (as_cr3 c) \<and> pfn (as_cr3 c) \<notin> U \<and> apart R m' (insert (pfn (as_cr3 c)) U)"
proof -
  have loop: "fold (fork_vma rc p) vs (m, c) = (m', c') \<Longrightarrow>
      spares R m m' \<and> owned_frames c' = owned_frames c \<and> as_cr3 c' = as_cr3 c" for p vs m c m' c'
  proof (induction vs arbitrary: m c)
    case (Cons v vs)
    obtain m1 c1 where 1: "fork_vma rc p v (m, c) = (m1, c1)" by force
    with Cons.prems have "fold (fork_vma rc p) vs (m1, c1) = (m', c')" by simp
    from Cons.IH [OF this] fork_vma_spares [OF R(1) 1] show ?case by (auto intro: spares_trans)
  qed simp
  obtain m1 o1 where n: "AddressSpace_new rc current r1 r2 pid m = (m1, o1)" by force
  note N = new_space_frames [OF R a n]
  show ?thesis
  proof (cases o1)
    case None
    with eq n N show ?thesis by (auto simp: fork_def)
  next
    case (Some c)
    obtain m2 c2 where f: "fold (fork_vma rc (as_cr3 s)) (bt_values (vmas s)) (m1, c\<lparr>as_brk := as_brk s, mmap_next := mmap_next s\<rparr>) = (m2, c2)"
      by force
    with eq n Some have "m' = m2" "r = Some c2" by (simp_all add: fork_def)
    with loop [OF f] N Some show ?thesis by (simp add: spares_def)
  qed
qed

lemma free_list_apart:
  assumes "list_all frame_addr fs" "distinct (map pfn fs)" "pfn ` set fs \<inter> U = {}" "apart R m (pfn ` set fs \<union> U)"
  shows "apart R (fold (\<lambda>f m. free_physical_frame m f) fs m) U"
  using assms
proof (induction fs arbitrary: m)
  case (Cons f fs)
  have "pfn f \<notin> pfn ` set fs \<union> U" using Cons.prems(2,3) by auto
  moreover have "apart R m (insert (pfn f) (pfn ` set fs \<union> U))" using Cons.prems(4) by simp
  ultimately have "apart R (free_physical_frame m f) (pfn ` set fs \<union> U)" using Cons.prems(1) by (intro free_apart(1)) auto
  with Cons show ?case by auto
qed simp

section \<open>The table of address spaces\<close>

definition owned_by :: "AddressSpace \<Rightarrow> nat multiset" where
  "owned_by s = mset (map pfn (owned_frames s))"

type_synonym spaces = "(u32, AddressSpace) btree"

definition owned_in :: "spaces \<Rightarrow> nat multiset" where
  "owned_in = bt_sum owned_by"

definition holders :: "u64 \<Rightarrow> spaces \<Rightarrow> nat" where
  "holders c = bt_sum (\<lambda>s. if as_cr3 s = c then 1 else 0)"

definition roots :: "spaces \<Rightarrow> u64 set" where
  "roots sp = {c. 0 < holders c sp}"

text \<open>The frames in use: frame 0 is never handed out.\<close>

definition in_use :: "spaces \<Rightarrow> nat set" where
  "in_use sp = insert 0 (pfn ` roots sp) \<union> set_mset (owned_in sp)"

definition space_frames :: "AddressSpace \<Rightarrow> bool" where
  "space_frames s \<longleftrightarrow> frame_addr (as_cr3 s) \<and> pfn (as_cr3 s) \<noteq> 0 \<and> list_all frame_addr (owned_frames s)"

definition spaces_ok :: "spaces \<Rightarrow> bool" where
  "spaces_ok sp \<longleftrightarrow> bt_wf sp \<and> (\<forall>pid s. bt_get sp pid = Some s \<longrightarrow> space_frames s)
     \<and> (\<forall>f. count (owned_in sp) f \<le> 1) \<and> insert 0 (pfn ` roots sp) \<inter> set_mset (owned_in sp) = {}"

definition extra_refs :: "u64 \<Rightarrow> VmState \<Rightarrow> nat" where
  "extra_refs c t = (case bt_get (cr3_extra_refs t) c of Some n \<Rightarrow> unat n | None \<Rightarrow> 0)"

text \<open>
  The invariant: no frame has two owners, none in use is free, and a page table has one extra
  reference for each holder beyond the first.
\<close>

definition vms_ok :: "(unit Vm_ext \<Rightarrow> nat multiset) \<Rightarrow> VmState \<Rightarrow> bool" where
  "vms_ok R t \<longleftrightarrow> spaces_ok (address_spaces t) \<and> apart R (machine t) (in_use (address_spaces t))
     \<and> (\<forall>c. extra_refs c t = holders c (address_spaces t) - 1)"

lemma sums_insert:
  assumes "bt_wf sp"
  shows "owned_in (bt_insert pid s sp) = owned_by s + owned_in (bt_remove pid sp)"
    "holders c (bt_insert pid s sp) = (if as_cr3 s = c then 1 else 0) + holders c (bt_remove pid sp)"
  using assms by (simp_all add: owned_in_def holders_def bt_sum_insert)

lemma sums_remove:
  assumes "bt_wf sp" and "bt_get sp pid = Some s"
  shows "owned_in sp = owned_by s + owned_in (bt_remove pid sp)"
    "holders c sp = (if as_cr3 s = c then 1 else 0) + holders c (bt_remove pid sp)"
  using assms by (simp_all add: owned_in_def holders_def bt_sum_remove)

lemma roots_insert: "bt_wf sp \<Longrightarrow> roots (bt_insert pid s sp) = insert (as_cr3 s) (roots (bt_remove pid sp))"
  by (auto simp: roots_def sums_insert)

lemma roots_remove: "bt_wf sp \<Longrightarrow> bt_get sp pid = Some s \<Longrightarrow> roots sp = insert (as_cr3 s) (roots (bt_remove pid sp))"
  by (auto simp: roots_def sums_remove)

lemma root_space:
  assumes "bt_wf sp" and "c \<in> roots sp"
  obtains pid s where "bt_get sp pid = Some s" "as_cr3 s = c"
proof -
  have "\<exists>e \<in> set sp. as_cr3 (snd e) = c"
    using assms(2) unfolding roots_def holders_def bt_sum_def by (induction sp) (auto split: if_splits)
  then show thesis using that bt_get_iff [OF assms(1)] by (metis prod.collapse)
qed

lemma spaces_ok_put:
  assumes "spaces_ok sp" "space_frames s" and "owned_in (bt_insert pid s sp) = O1" "roots (bt_insert pid s sp) = C"
    and "\<And>f. count O1 f \<le> 1" "insert 0 (pfn ` C) \<inter> set_mset O1 = {}"
  shows "spaces_ok (bt_insert pid s sp)"
  unfolding spaces_ok_def assms(3,4) using assms(1,2,5,6) by (auto simp: spaces_ok_def)

text \<open>A change of one address space that takes frames.\<close>

lemma vms_takes:
  assumes ok: "vms_ok R t" and s: "bt_get (address_spaces t) pid = Some s" and T: "takes R (machine t) s m s'"
  shows "vms_ok R (set_space pid m s' t)"
proof -
  let ?sp = "address_spaces t" and ?rest = "bt_remove pid (address_spaces t)"
  have sp: "spaces_ok ?sp" and wf: "bt_wf ?sp" and ap: "apart R (machine t) (in_use ?sp)"
    using ok by (simp_all add: vms_ok_def spaces_ok_def)
  from T ap obtain fs where cr3: "as_cr3 s' = as_cr3 s" and fs: "owned_frames s' = owned_frames s @ fs" "list_all frame_addr fs"
    "distinct (map pfn fs)" "pfn ` set fs \<inter> in_use ?sp = {}" "apart R m (in_use ?sp \<union> pfn ` set fs)"
    unfolding takes_def by metis
  define sp' where "sp' = bt_insert pid s' ?sp"
  have own: "owned_in sp' = owned_in ?sp + mset (map pfn fs)"
    using fs(1) by (simp add: sp'_def sums_insert [OF wf] sums_remove [OF wf s] owned_by_def ac_simps)
  have hold: "holders c sp' = holders c ?sp" for c by (simp add: sp'_def sums_insert [OF wf] sums_remove [OF wf s] cr3)
  then have roots: "roots sp' = roots ?sp" by (simp add: roots_def)
  have use: "in_use sp' = in_use ?sp \<union> pfn ` set fs" by (auto simp: in_use_def own roots)
  have "count (mset (map pfn fs)) f \<le> 1" "f \<in> pfn ` set fs \<Longrightarrow> count (owned_in ?sp) f = 0"
    "f \<notin> pfn ` set fs \<Longrightarrow> count (mset (map pfn fs)) f = 0" for f
    using fs(3,4) by (auto simp: distinct_count_atmost_1 in_use_def not_in_iff [symmetric] count_eq_zero_iff)
  moreover have "count (owned_in ?sp) f \<le> 1" for f using sp by (simp add: spaces_ok_def)
  ultimately have "count (owned_in sp') f \<le> 1" for f
    unfolding own count_union by (cases "f \<in> pfn ` set fs") simp_all
  moreover have "insert 0 (pfn ` roots sp') \<inter> set_mset (owned_in sp') = {}"
    using sp fs(4) by (auto simp: own roots spaces_ok_def in_use_def)
  moreover have "space_frames s'"
    using sp s fs(1,2) cr3 by (auto simp: spaces_ok_def space_frames_def)
  ultimately have "spaces_ok sp'" unfolding sp'_def by (intro spaces_ok_put [OF sp _ refl refl])
  with ok fs(5) use hold show ?thesis
    by (simp add: vms_ok_def set_space_def extra_refs_def flip: sp'_def)
qed

lemma vms_machine: "vms_ok R t \<Longrightarrow> spares R (machine t) m \<Longrightarrow> vms_ok R (t\<lparr>machine := m\<rparr>)"
  by (simp add: vms_ok_def extra_refs_def spares_def)

lemma vms_charges [simp]: "vms_ok R (t\<lparr>charges := c\<rparr>) \<longleftrightarrow> vms_ok R t"
  by (simp add: vms_ok_def extra_refs_def)

text \<open>A new address space for a pid that has none, with a fresh top table.\<close>

lemma vms_put_new:
  assumes ok: "vms_ok R t" and none: "bt_get (address_spaces t) pid = None"
    and s: "owned_frames s = []" "frame_addr (as_cr3 s)" "pfn (as_cr3 s) \<notin> in_use (address_spaces t)"
      "apart R m (insert (pfn (as_cr3 s)) (in_use (address_spaces t)))"
  shows "vms_ok R (put_space pid s (t\<lparr>machine := m\<rparr>))"
proof -
  let ?sp = "address_spaces t"
  define sp' where "sp' = bt_insert pid s ?sp"
  have sp: "spaces_ok ?sp" and wf: "bt_wf ?sp" using ok by (simp_all add: vms_ok_def spaces_ok_def)
  have own: "owned_in sp' = owned_in ?sp" and hold: "holders c sp' = (if as_cr3 s = c then 1 else 0) + holders c ?sp" for c
    using s(1) none by (simp_all add: sp'_def sums_insert [OF wf] bt_remove_absent owned_by_def)
  have roots: "roots sp' = insert (as_cr3 s) (roots ?sp)" by (auto simp: roots_def hold)
  have fresh: "as_cr3 s \<notin> roots ?sp" "pfn (as_cr3 s) \<noteq> 0" "pfn (as_cr3 s) \<notin># owned_in ?sp" using s(3) by (auto simp: in_use_def)
  then have h0: "holders (as_cr3 s) ?sp = 0" by (simp add: roots_def)
  have "space_frames s" using s(1,2) fresh(2) by (simp add: space_frames_def)
  moreover have "insert 0 (pfn ` roots sp') \<inter> set_mset (owned_in sp') = {}" "\<And>f. count (owned_in sp') f \<le> 1"
    using sp fresh by (auto simp: spaces_ok_def own roots)
  ultimately have "spaces_ok sp'" unfolding sp'_def by (intro spaces_ok_put [OF sp _ refl refl])
  moreover have "in_use sp' = insert (pfn (as_cr3 s)) (in_use ?sp)" by (auto simp: in_use_def own roots)
  moreover have "holders c sp' - 1 = holders c ?sp - 1" for c using h0 by (cases "as_cr3 s = c") (simp_all add: hold)
  ultimately show ?thesis using ok s(4) none
    by (simp add: vms_ok_def put_space_def extra_refs_def Let_def flip: sp'_def)
qed

lemma create_ok:
  assumes "vms_ok R t" "reclaim_ok R rc" "ignores_vm R" "bt_get (address_spaces t) pid = None"
    and "create_address_space rc current r1 r2 pid t = (t', b)"
  shows "vms_ok R t'"
proof -
  obtain m o1 where n: "AddressSpace_new rc current r1 r2 pid (machine t) = (m, o1)" by force
  have "apart R (machine t) (in_use (address_spaces t))" using assms(1) by (simp add: vms_ok_def)
  from new_space_frames [OF assms(2,3) this n] show ?thesis
    using assms(1,4,5) n vms_put_new [OF assms(1,4)]
    by (cases o1) (auto simp: create_address_space_def vms_ok_def extra_refs_def)
qed

lemma fork_ok:
  assumes "vms_ok R t" "reclaim_ok R rc" "ignores_vm R" "bt_get (address_spaces t) child = None"
    and "fork_address_space rc current r1 r2 parent child t = (t', b)"
  shows "vms_ok R t'"
proof (cases "bt_get (address_spaces t) parent")
  case (Some s)
  obtain m o1 where n: "fork rc current r1 r2 child (machine t) s = (m, o1)" by force
  have "apart R (machine t) (in_use (address_spaces t))" using assms(1) by (simp add: vms_ok_def)
  from fork_frames [OF assms(2,3) this n] show ?thesis
    using assms(1,4,5) n Some vms_put_new [OF assms(1,4)]
    by (cases o1) (auto simp: fork_address_space_def vms_ok_def extra_refs_def)
qed (use assms in \<open>auto simp: fork_address_space_def\<close>)

text \<open>The number of holders is bounded by the number of pids, so the counts never wrap.\<close>

lemma length_spaces: "bt_wf sp \<Longrightarrow> length sp \<le> 2 ^ 32" for sp :: spaces
proof -
  assume "bt_wf sp"
  then have "distinct (map fst sp)" by (rule bt_wf_distinct)
  then have "length sp = card (set (map fst sp))" using distinct_card by fastforce
  also have "\<dots> \<le> card (UNIV :: u32 set)" by (rule card_mono) simp_all
  also have "\<dots> = 2 ^ 32" by (simp add: card_word)
  finally show ?thesis .
qed

lemma holders_le: "holders c sp \<le> length sp"
  unfolding holders_def bt_sum_def by (induction sp) auto

lemma length_insert_fresh: "bt_get m k = None \<Longrightarrow> length (bt_insert k v m) = Suc (length m)"
  by (induction m) (auto split: if_splits)

lemma share_ok:
  assumes ok: "vms_ok R t" and none: "bt_get (address_spaces t) child = None"
    and eq: "share_address_space parent child t = (t', b)"
  shows "vms_ok R t'"
proof (cases "bt_get (address_spaces t) parent")
  case (Some s)
  let ?sp = "address_spaces t" and ?s = "share child s"
  have sp: "spaces_ok ?sp" and wf: "bt_wf ?sp" using ok by (simp_all add: vms_ok_def spaces_ok_def)
  define sp' where "sp' = bt_insert child ?s ?sp"
  have s: "as_cr3 ?s = as_cr3 s" "owned_frames ?s = []" "space_frames s"
    using sp Some by (auto simp: share_def spaces_ok_def)
  then have nz: "as_cr3 s \<noteq> 0" by (auto simp: space_frames_def pfn_def)
  have own: "owned_in sp' = owned_in ?sp" and hold: "holders c sp' = (if as_cr3 s = c then 1 else 0) + holders c ?sp" for c
    using s none by (simp_all add: sp'_def sums_insert [OF wf] bt_remove_absent owned_by_def)
  have pos: "0 < holders (as_cr3 s) ?sp" using sums_remove(2) [OF wf Some, of "as_cr3 s"] by simp
  then have roots: "roots sp' = roots ?sp" by (auto simp: roots_def hold)
  have "space_frames ?s" using s by (simp add: space_frames_def)
  moreover have "insert 0 (pfn ` roots sp') \<inter> set_mset (owned_in sp') = {}" "\<And>f. count (owned_in sp') f \<le> 1"
    using sp by (auto simp: spaces_ok_def own roots)
  ultimately have "spaces_ok sp'" unfolding sp'_def by (intro spaces_ok_put [OF sp _ refl refl])
  moreover have "in_use sp' = in_use ?sp" by (simp add: in_use_def own roots)
  moreover have t': "t' = (cr3_share (as_cr3 s) t)\<lparr>address_spaces := sp'\<rparr>"
    using eq Some s nz none by (simp add: share_address_space_def put_space_def cr3_share_def sp'_def Let_def)
  moreover have "extra_refs c t' = holders c sp' - 1" for c
  proof (cases "c = as_cr3 s")
    case True
    have "length ?sp < 2 ^ 32"
    proof -
      have "length (bt_insert child ?s ?sp) = Suc (length ?sp)" using none by (rule length_insert_fresh)
      then show ?thesis using length_spaces [OF bt_wf_insert [OF wf], of child ?s] by simp
    qed
    then have small: "holders (as_cr3 s) ?sp < 2 ^ 32" using holders_le [of "as_cr3 s" ?sp] by simp
    have e: "extra_refs c t = holders c ?sp - 1" using ok by (simp add: vms_ok_def)
    define n where "n = (case bt_get (cr3_extra_refs t) c of Some n \<Rightarrow> n | None \<Rightarrow> 0)"
    have "unat n = holders c ?sp - 1" using e by (simp add: n_def extra_refs_def split: option.splits)
    then have "unat (n + 1) = holders c ?sp" using small pos True by (intro unat_plus_1 [THEN trans]) auto
    then show ?thesis using True nz by (simp add: t' extra_refs_def cr3_share_def hold n_def)
  next
    case False
    then show ?thesis using ok nz by (simp add: t' extra_refs_def cr3_share_def hold vms_ok_def)
  qed
  ultimately show ?thesis using ok by (simp add: vms_ok_def t' cr3_share_def)
qed (use assms in \<open>auto simp: share_address_space_def\<close>)

text \<open>The end of the last holder of a page table.\<close>

lemma modify_is_insert: "bt_wf m \<Longrightarrow> bt_get m k = Some v \<Longrightarrow> bt_modify k f m = bt_insert k (f v) m"
proof (induction m)
  case (Cons e m)
  then have wf: "bt_wf m" by (simp add: bt_wf_def)
  show ?case
  proof (cases "fst e = k")
    case True
    then have "bt_modify k f m = m"
      using bt_wf_Cons_absent [OF Cons.prems(1)] by (induction m) (auto simp: bt_modify_def split: if_splits)
    with True Cons.prems(2) show ?thesis by (cases e) (simp add: bt_modify_def)
  next
    case False
    with Cons.prems(2) have g: "bt_get m k = Some v" by (cases e) (simp split: if_splits)
    then have "fst e < k" using Cons.prems(1) by (force simp: bt_wf_def dest: map_of_SomeD)
    with False Cons.IH [OF wf g] show ?thesis by (cases e) (simp add: bt_modify_def)
  qed
qed simp

lemma distinct_if_count:
  assumes "\<And>a. count (mset xs) a \<le> 1"
  shows "distinct xs"
  unfolding distinct_count_atmost_1
proof
  fix a show "count (mset xs) a = (if a \<in> set xs then 1 else 0)"
  proof (cases "a \<in> set xs")
    case True
    then have "0 < count (mset xs) a" by (simp only: count_greater_zero_iff set_mset_mset)
    with assms [of a] have "count (mset xs) a = 1" by linarith
    with True show ?thesis by simp
  qed (simp add: count_eq_zero_iff)
qed

lemma drop_apart:
  assumes s: "space_frames s" and d: "distinct (map pfn (owned_frames s))" "pfn (as_cr3 s) \<notin> pfn ` set (owned_frames s)"
    and U: "pfn (as_cr3 s) \<notin> U" "pfn ` set (owned_frames s) \<inter> U = {}"
    and ap: "apart R m (insert (pfn (as_cr3 s)) (pfn ` set (owned_frames s) \<union> U))"
  shows "apart R (AddressSpace_drop s m) U"
proof -
  have "apart R (fold (\<lambda>f m. free_physical_frame m f) (owned_frames s) m) (insert (pfn (as_cr3 s)) U)"
    using assms by (intro free_list_apart) (auto simp: space_frames_def Un_insert_right)
  from free_apart(1) [OF this U(1)] show ?thesis
    using s by (auto simp: AddressSpace_drop_def space_frames_def pfn_def Let_def)
qed

lemma last_holder:
  assumes ok: "vms_ok R t" and s: "bt_get (address_spaces t) pid = Some s" and one: "\<not> cr3_is_shared (as_cr3 s) t"
  defines "rest \<equiv> bt_remove pid (address_spaces t)"
  shows "spaces_ok rest" "holders c rest - 1 = extra_refs c t"
    "apart R m (in_use (address_spaces t) \<union> V) \<Longrightarrow> V \<inter> in_use (address_spaces t) = {} \<Longrightarrow>
       apart R (AddressSpace_drop s m) (in_use rest \<union> V)"
proof -
  let ?sp = "address_spaces t"
  have sp: "spaces_ok ?sp" and wf: "bt_wf ?sp"
    and refs: "\<And>c. extra_refs c t = holders c ?sp - 1" using ok by (simp_all add: vms_ok_def spaces_ok_def)
  note S = sums_remove [OF wf s, folded rest_def] and rts = roots_remove [OF wf s, folded rest_def]
  have "extra_refs (as_cr3 s) t = 0" using one by (auto simp: cr3_is_shared_def extra_refs_def word_less_nat_alt split: option.splits)
  then have h: "holders (as_cr3 s) rest = 0" using refs [of "as_cr3 s"] S(2) [of "as_cr3 s"] by simp
  then have notin: "as_cr3 s \<notin> roots rest" by (simp add: roots_def)
  show "holders c rest - 1 = extra_refs c t" using h refs [of c] S(2) [of c] by (cases "as_cr3 s = c") simp_all
  have sfr: "space_frames u" if "bt_get rest q = Some u" for q u
    using sp s that by (auto simp: spaces_ok_def rest_def split: if_splits)
  have sf: "space_frames s" using sp s by (auto simp: spaces_ok_def)
  have cnt: "count (owned_by s) f + count (owned_in rest) f \<le> 1" for f using sp by (simp add: spaces_ok_def S(1) flip: count_union)
  have dis: "insert 0 (pfn ` insert (as_cr3 s) (roots rest)) \<inter> (set_mset (owned_by s) \<union> set_mset (owned_in rest)) = {}"
    using sp by (simp add: spaces_ok_def S(1) rts)
  have wf': "bt_wf rest" using wf by (simp add: rest_def)
  show "spaces_ok rest" unfolding spaces_ok_def
  proof (intro conjI allI impI wf')
    show "count (owned_in rest) f \<le> 1" for f using cnt [of f] by simp
    show "insert 0 (pfn ` roots rest) \<inter> set_mset (owned_in rest) = {}" using dis by auto
    show "space_frames u" if "bt_get rest q = Some u" for q u using sfr that by blast
  qed
  have "pfn (as_cr3 s) \<notin> pfn ` roots rest"
  proof
    assume "pfn (as_cr3 s) \<in> pfn ` roots rest"
    then obtain c where c: "c \<in> roots rest" "pfn (as_cr3 s) = pfn c" by auto
    from root_space [OF wf' c(1)] obtain q u where "bt_get rest q = Some u" "as_cr3 u = c" by blast
    then have "as_cr3 s = c" using sfr sf c(2) aligned_pfn_inject by (auto simp: space_frames_def frame_addr_def)
    with c(1) notin show False by simp
  qed
  then have 1: "pfn (as_cr3 s) \<notin> in_use rest" using sf dis by (auto simp: in_use_def space_frames_def)
  have own: "set_mset (owned_by s) = pfn ` set (owned_frames s)" by (simp add: owned_by_def)
  have "set_mset (owned_by s) \<inter> set_mset (owned_in rest) = {}"
  proof (intro equals0I, elim IntE)
    fix f assume "f \<in># owned_by s" "f \<in># owned_in rest"
    then have "0 < count (owned_by s) f" "0 < count (owned_in rest) f" by simp_all
    with cnt [of f] show False by linarith
  qed
  then have 2: "pfn ` set (owned_frames s) \<inter> in_use rest = {}" using dis own by (auto simp: in_use_def)
  have "count (owned_by s) f \<le> 1" for f using cnt [of f] by simp
  then have 3: "distinct (map pfn (owned_frames s))" unfolding owned_by_def by (rule distinct_if_count)
  have 4: "pfn (as_cr3 s) \<notin> pfn ` set (owned_frames s)" using dis own by auto
  have use: "in_use ?sp = insert (pfn (as_cr3 s)) (pfn ` set (owned_frames s) \<union> in_use rest)"
    by (auto simp: in_use_def S(1) rts own)
  assume V: "apart R m (in_use ?sp \<union> V)" "V \<inter> in_use ?sp = {}"
  have "pfn (as_cr3 s) \<notin> in_use rest \<union> V" "pfn ` set (owned_frames s) \<inter> (in_use rest \<union> V) = {}"
    using 1 2 V(2) by (auto simp: use)
  from drop_apart [OF sf 3 4 this, of R m] V(1) show "apart R (AddressSpace_drop s m) (in_use rest \<union> V)"
    by (simp add: use Un_assoc)
qed

lemma unshare_refs:
  assumes "cr3_is_shared c t"
  shows "extra_refs d (cr3_unshare c t) = (if d = c then extra_refs c t - 1 else extra_refs d t)"
proof -
  obtain n where n: "bt_get (cr3_extra_refs t) c = Some n" "0 < n"
    using assms by (auto simp: cr3_is_shared_def split: option.splits)
  show ?thesis
  proof (cases "1 < n")
    case True
    then have "unat (n - 1) = unat n - 1" by (simp add: unat_sub word_le_nat_alt word_less_nat_alt)
    with True n show ?thesis by (simp add: cr3_unshare_def extra_refs_def)
  next
    case False
    with n(2) have "unat n = 1" by (simp add: word_less_nat_alt)
    with False n show ?thesis by (simp add: cr3_unshare_def extra_refs_def)
  qed
qed

lemma cr3_unshare_spaces: "cr3_unshare c (t\<lparr>address_spaces := x\<rparr>) = (cr3_unshare c t)\<lparr>address_spaces := x\<rparr>"
  by (simp add: cr3_unshare_def split: option.split)

lemma cr3_unshare_machine: "machine (cr3_unshare c t) = machine t"
  by (simp add: cr3_unshare_def split: option.split)

lemma destroy_ok:
  assumes ok: "vms_ok R t"
  shows "vms_ok R (destroy_address_space pid t)"
proof (cases "bt_get (address_spaces t) pid")
  case s: (Some s)
  let ?sp = "address_spaces t" and ?c = "as_cr3 s"
  define rest where "rest = bt_remove pid ?sp"
  have sp: "spaces_ok ?sp" and wf: "bt_wf ?sp" and refs: "\<And>c. extra_refs c t = holders c ?sp - 1"
    using ok by (simp_all add: vms_ok_def spaces_ok_def)
  have sf: "space_frames s" using sp s by (auto simp: spaces_ok_def)
  have nz: "?c \<noteq> 0" using sf by (auto simp: space_frames_def pfn_def)
  note S = sums_remove [OF wf s, folded rest_def]
  show ?thesis
  proof (cases "cr3_is_shared ?c t")
    case False
    note L = last_holder [OF ok s False, folded rest_def]
    have "apart R (AddressSpace_drop s (machine t)) (in_use rest)" using L(3) [of "machine t" "{}"] ok by (simp add: vms_ok_def)
    moreover have "destroy_address_space pid t = t\<lparr>address_spaces := rest, machine := AddressSpace_drop s (machine t)\<rparr>"
      using s False by (simp add: destroy_address_space_def rest_def cr3_is_shared_def Let_def)
    ultimately show ?thesis using L(1,2) by (simp add: vms_ok_def extra_refs_def)
  next
    case True
    have wf': "bt_wf rest" using wf by (simp add: rest_def)
    have "0 < extra_refs ?c t" using True by (auto simp: cr3_is_shared_def extra_refs_def word_less_nat_alt split: option.splits)
    then have h: "0 < holders ?c rest" using refs [of ?c] S(2) [of ?c] by simp
    then have "?c \<in> roots rest" by (simp add: roots_def)
    from root_space [OF wf' this] obtain q0 u0 where "bt_get rest q0 = Some u0" "as_cr3 u0 = ?c" by blast
    moreover have "u0 \<in> set (bt_values rest)" using bt_values_iff [OF wf'] calculation(1) by blast
    ultimately have "first_key (\<lambda>s. as_cr3 s = ?c) rest \<noteq> None" unfolding first_key_None by blast
    then obtain q where q: "first_key (\<lambda>s. as_cr3 s = ?c) rest = Some q" by auto
    from first_key_Some [OF wf' q] obtain u where u: "bt_get rest q = Some u" "as_cr3 u = ?c" by blast
    define u' where "u' = u\<lparr>owned_frames := owned_frames u @ owned_frames s\<rparr>"
    define sp' where "sp' = bt_insert q u' rest"
    have sp'_eq: "bt_modify q (\<lambda>s'. s'\<lparr>owned_frames := owned_frames s' @ owned_frames s\<rparr>) rest = sp'"
      using modify_is_insert [OF wf' u(1)] by (simp add: sp'_def u'_def)
    note U = sums_remove [OF wf' u(1)]
    have own: "owned_in sp' = owned_in ?sp"
      by (simp add: sp'_def sums_insert [OF wf'] S(1) U(1) u'_def owned_by_def ac_simps)
    have hold: "holders c sp' = holders c rest" for c by (simp add: sp'_def sums_insert [OF wf'] U(2) u'_def)
    have roots: "roots sp' = roots ?sp" using h by (auto simp: roots_def hold S(2))
    have "space_frames u" using sp u(1) by (auto simp: spaces_ok_def rest_def split: if_splits)
    then have "space_frames u'" using sf by (simp add: space_frames_def u'_def)
    then have "space_frames v" if "bt_get sp' k = Some v" for k v
      using that sp by (auto simp: sp'_def rest_def spaces_ok_def split: if_splits)
    moreover have "bt_wf sp'" using wf' by (simp add: sp'_def)
    ultimately have "spaces_ok sp'" using sp unfolding spaces_ok_def own roots by blast
    moreover have "in_use sp' = in_use ?sp" by (simp add: in_use_def own roots)
    moreover have "extra_refs c (cr3_unshare ?c t) = holders c sp' - 1" for c
      using refs S(2) by (simp add: unshare_refs [OF True] hold)
    moreover have "destroy_address_space pid t = (cr3_unshare ?c t)\<lparr>address_spaces := sp'\<rparr>"
      using s True nz q sp'_eq
      by (simp add: destroy_address_space_def cr3_unshare_spaces AddressSpace_drop_def Let_def cr3_is_shared_def rest_def)
    ultimately show ?thesis using ok by (simp add: vms_ok_def extra_refs_def cr3_unshare_machine)
  qed
qed (use ok in \<open>simp add: destroy_address_space_def\<close>)

text \<open>\<open>execve\<close> of a process that shares its page table with no other.\<close>

lemma replace_ok:
  assumes ok: "vms_ok R t" "reclaim_ok R rc" "ignores_vm R"
    and alone: "\<And>s. bt_get (address_spaces t) pid = Some s \<Longrightarrow> \<not> cr3_is_shared (as_cr3 s) t"
    and eq: "replace_address_space rc current r1 r2 pid t = (t', b)"
  shows "vms_ok R t'"
proof (cases "bt_get (address_spaces t) pid")
  case None
  have "replace_address_space rc current r1 r2 pid t = create_address_space rc current r1 r2 pid t"
    by (simp add: replace_address_space_def create_address_space_def split: prod.split option.split)
  with create_ok [OF ok None] eq show ?thesis by simp
next
  case s: (Some s)
  let ?sp = "address_spaces t"
  obtain m o1 where n: "AddressSpace_new rc current r1 r2 pid (machine t) = (m, o1)" by force
  have ap: "apart R (machine t) (in_use ?sp)" using ok(1) by (simp add: vms_ok_def)
  note N = new_space_frames [OF ok(2,3) ap n]
  show ?thesis
  proof (cases o1)
    case None
    with N n eq ok(1) show ?thesis by (auto simp: replace_address_space_def vms_ok_def extra_refs_def)
  next
    case (Some u)
    have u: "owned_frames u = []" "frame_addr (as_cr3 u)" "pfn (as_cr3 u) \<notin> in_use ?sp"
      "apart R m (in_use ?sp \<union> {pfn (as_cr3 u)})" using N Some by simp_all
    define rest where "rest = bt_remove pid ?sp"
    define sp' where "sp' = bt_insert pid u ?sp"
    have sp: "spaces_ok ?sp" and wf: "bt_wf ?sp" using ok(1) by (simp_all add: vms_ok_def spaces_ok_def)
    note L = last_holder [OF ok(1) s alone [OF s], folded rest_def]
    have own: "owned_in sp' = owned_in rest" and hold: "holders c sp' = (if as_cr3 u = c then 1 else 0) + holders c rest" for c
      using u(1) by (simp_all add: sp'_def sums_insert [OF wf] rest_def owned_by_def)
    have roots: "roots sp' = insert (as_cr3 u) (roots rest)" by (auto simp: roots_def hold)
    have sub: "in_use rest \<subseteq> in_use ?sp"
      using sums_remove(1) [OF wf s] roots_remove [OF wf s] by (auto simp: in_use_def rest_def)
    have fresh: "as_cr3 u \<notin> roots rest" "pfn (as_cr3 u) \<noteq> 0" "pfn (as_cr3 u) \<notin># owned_in rest"
      using u(3) sub by (auto simp: in_use_def)
    have "space_frames u" using u(1,2) fresh(2) by (simp add: space_frames_def)
    moreover have "insert 0 (pfn ` roots sp') \<inter> set_mset (owned_in sp') = {}" "\<And>f. count (owned_in sp') f \<le> 1"
      using L(1) fresh by (auto simp: spaces_ok_def own roots)
    ultimately have "spaces_ok sp'" unfolding sp'_def by (intro spaces_ok_put [OF sp _ refl refl])
    moreover have "in_use sp' = in_use rest \<union> {pfn (as_cr3 u)}" by (auto simp: in_use_def own roots)
    moreover have "apart R (AddressSpace_drop s m) (in_use rest \<union> {pfn (as_cr3 u)})" using L(3) [OF u(4)] u(3) by simp
    moreover have "holders c sp' - 1 = extra_refs c t" for c
      using L(2) [of c] fresh(1) by (cases "as_cr3 u = c") (simp_all add: hold roots_def)
    moreover have "t' = t\<lparr>address_spaces := sp', machine := AddressSpace_drop s m\<rparr>"
      using eq n Some s by (simp add: replace_address_space_def put_space_def sp'_def Let_def)
    ultimately show ?thesis by (simp add: vms_ok_def extra_refs_def)
  qed
qed

section \<open>Faults and system calls\<close>

lemma page_fault_ok:
  assumes ok: "vms_ok R t" and R: "reclaim_ok R rc" "ignores_vm R"
    and eq: "handle_page_fault rd rc pid a w t = Done (t', b)"
  shows "vms_ok R t'"
proof (cases "bt_get (address_spaces t) pid")
  case s: (Some s)
  obtain m1 s1 h1 where 1: "(if w then handle_cow_fault rc a (machine t) s else (machine t, s, False)) = (m1, s1, h1)"
    by (metis prod_cases3)
  then have T1: "takes R (machine t) s m1 s1"
    using cow_fault_takes [OF R(1)] by (auto simp: takes_spares split: if_splits)
  show ?thesis
  proof (cases h1)
    case True
    with eq s 1 have "t' = set_space pid m1 s1 t" by (simp add: handle_page_fault_def)
    with vms_takes [OF ok s T1] show ?thesis by simp
  next
    case False
    with eq s 1 obtain m2 s2 h2 where 2: "handle_swap_in rc a m1 s1 = Done (m2, s2, h2)"
      by (auto simp: handle_page_fault_def exec_bind_Done_iff)
    have T2: "takes R (machine t) s m2 s2" by (rule takes_trans [OF T1 swap_in_takes [OF R 2]])
    obtain m3 s3 h3 where 3: "handle_demand_fault rd rc a m2 s2 = (m3, s3, h3)" by (metis prod_cases3)
    have T3: "takes R (machine t) s m3 s3" by (rule takes_trans [OF T2 demand_fault_takes [OF R 3]])
    have "t' = (if h2 then set_space pid m2 s2 t else set_space pid m3 s3 t)"
      using eq s 1 False 2 3 by (auto simp: handle_page_fault_def)
    with vms_takes [OF ok s T2] vms_takes [OF ok s T3] show ?thesis by simp
  qed
qed (use ok eq in \<open>auto simp: handle_page_fault_def\<close>)

lemma charged_mmap_ok:
  assumes ok: "vms_ok R t" and R: "ignores_vm R"
    and op: "\<And>m s m' s' r. op m s = Some (m', s', r) \<Longrightarrow> takes R m s m' s'"
    and eq: "charged_mmap op pid sz prot t = Some (t', r)"
  shows "vms_ok R t'"
proof -
  obtain m d where wx: "check_wx_violation (machine t) prot = (m, d)" by force
  define t1 where "t1 = t\<lparr>machine := m\<rparr>"
  have ok1: "vms_ok R t1" unfolding t1_def by (rule vms_machine [OF ok check_wx_spares [OF R wx]])
  obtain cg e where ch: "try_charge pid sz (charges t1) = (cg, e)" by force
  define t2 where "t2 = t1\<lparr>charges := cg\<rparr>"
  have ok2: "vms_ok R t2" using ok1 by (simp add: t2_def)
  consider "d" | "\<not> d" "isl e" | "\<not> d" "\<not> isl e" "bt_get (address_spaces t2) pid = None"
    | s where "\<not> d" "\<not> isl e" "bt_get (address_spaces t2) pid = Some s" by (cases "bt_get (address_spaces t2) pid") auto
  then show ?thesis
  proof cases
    case 1
    with eq wx ok1 show ?thesis by (auto simp: charged_mmap_def t1_def Let_def)
  next
    case 2
    with eq wx ch ok2 show ?thesis by (auto simp: charged_mmap_def t1_def t2_def Let_def isl_def)
  next
    case 3
    with eq wx ch ok2 show ?thesis
      by (cases e) (auto simp: charged_mmap_def t1_def t2_def Let_def)
  next
    case (4 s)
    with eq wx ch obtain m' s' c where o: "op (machine t2) s = Some (m', s', c)"
      by (cases e) (auto simp: charged_mmap_def t1_def t2_def Let_def split: option.splits)
    note S = vms_takes [OF ok2 4(3) op [OF o]]
    have "t' = set_space pid m' s' t2 \<or> (\<exists>c. t' = (set_space pid m' s' t2)\<lparr>charges := c\<rparr>)"
      using eq wx ch 4 o by (cases e; cases c) (auto simp: charged_mmap_def t1_def t2_def Let_def)
    with S show ?thesis by auto
  qed
qed

lemma munmap_ok:
  assumes ok: "vms_ok R t" and eq: "vm_munmap pid addr sz t = (t', r)"
  shows "vms_ok R t'"
proof (cases "bt_get (address_spaces t) pid")
  case (Some s)
  obtain m s1 where m: "munmap addr sz (machine t) s = (m, s1)" by force
  from vms_takes [OF ok Some munmap_takes [OF m]] eq Some m show ?thesis
    by (auto simp: vm_munmap_def Let_def)
qed (use ok eq in \<open>auto simp: vm_munmap_def\<close>)

lemma brk_ok:
  assumes ok: "vms_ok R t" and R: "reclaim_ok R rc" and eq: "vm_brk rc pid new t = (t', r)"
  shows "vms_ok R t'"
proof (cases "bt_get (address_spaces t) pid")
  case s: (Some s)
  let ?grows = "new \<noteq> 0 \<and> as_brk s < new"
  obtain cg e where ch: "(if ?grows then try_charge pid (new - as_brk s) (charges t) else (charges t, Inr ())) = (cg, e)"
    by (metis surj_pair)
  obtain m s1 v where b: "brk rc new (machine t) s = (m, s1, v)" by (metis prod_cases3)
  have "vms_ok R (t\<lparr>charges := cg\<rparr>)" using ok by simp
  then have S: "vms_ok R (set_space pid m s1 (t\<lparr>charges := cg\<rparr>))" by (rule vms_takes) (use s brk_takes [OF R b] in simp_all)
  have "(\<exists>c. t' = t\<lparr>charges := c\<rparr>) \<or> t' = set_space pid m s1 (t\<lparr>charges := cg\<rparr>)
      \<or> (\<exists>c. t' = (set_space pid m s1 (t\<lparr>charges := cg\<rparr>))\<lparr>charges := c\<rparr>)"
    using eq s ch b unfolding vm_brk_def Let_def by (cases e) (auto split: if_splits)
  with S ok show ?thesis by auto
qed (use ok eq in \<open>auto simp: vm_brk_def\<close>)

lemma write_loop_pool:
  "frame_pool (write_user_loop m cr3 a bs n) = frame_pool m" "Machine.more (write_user_loop m cr3 a bs n) = Machine.more m"
proof -
  have "frame_pool (write_user_loop m cr3 a bs n) = frame_pool m \<and> Machine.more (write_user_loop m cr3 a bs n) = Machine.more m"
  proof (induction m cr3 a bs n rule: write_user_loop.induct)
    case (1 m cr3 a bs n)
    show ?case
    proof (cases "n < length bs")
      case True
      note IH = 1 [OF True refl refl refl]
      show ?thesis
        by (subst (1 2) write_user_loop.simps) (use True IH in \<open>simp add: Let_def split: option.splits\<close>)
    next
      case False
      then show ?thesis by (subst (1 2) write_user_loop.simps) simp
    qed
  qed
  then show "frame_pool (write_user_loop m cr3 a bs n) = frame_pool m" "Machine.more (write_user_loop m cr3 a bs n) = Machine.more m"
    by simp_all
qed

lemma write_memory_ok: "vms_ok R t \<Longrightarrow> vms_ok R (write_user_memory pid a bs t)"
  by (auto simp: write_user_memory_def write_user_pages_def write_loop_pool split: option.split
      intro!: vms_machine spares_same)

text \<open>Giving up one owned frame.\<close>

lemma mset_filter_out:
  "distinct (map g xs) \<Longrightarrow> x \<in> set xs \<Longrightarrow> mset (map g xs) = add_mset (g x) (mset (map g (filter (\<lambda>y. y \<noteq> x) xs)))"
proof (induction xs)
  case (Cons y xs)
  show ?case
  proof (cases "x = y")
    case True
    with Cons.prems(1) have "filter (\<lambda>z. z \<noteq> x) xs = xs" by (auto simp: filter_id_conv)
    with True show ?thesis by simp
  qed (use Cons in auto)
qed simp

lemma give_up_frame:
  assumes ok: "vms_ok R t" and s: "bt_get (address_spaces t) pid = Some s" and f: "f \<in> set (owned_frames s)"
    and m: "spares R (machine t) m"
  shows "vms_ok R (set_space pid (free_physical_frame m f) (s\<lparr>owned_frames := filter (\<lambda>g. g \<noteq> f) (owned_frames s)\<rparr>) t)"
proof -
  let ?sp = "address_spaces t" and ?s = "s\<lparr>owned_frames := filter (\<lambda>g. g \<noteq> f) (owned_frames s)\<rparr>"
  define sp' where "sp' = bt_insert pid ?s ?sp"
  have sp: "spaces_ok ?sp" and wf: "bt_wf ?sp" using ok by (simp_all add: vms_ok_def spaces_ok_def)
  have sf: "space_frames s" using sp s by (auto simp: spaces_ok_def)
  note S = sums_remove [OF wf s]
  have cnt: "count (owned_in ?sp) g \<le> 1" for g using sp by (simp add: spaces_ok_def)
  have "count (owned_by s) g \<le> 1" for g using cnt [of g] by (simp add: S(1))
  then have d: "distinct (map pfn (owned_frames s))" unfolding owned_by_def by (rule distinct_if_count)
  from mset_filter_out [OF this f] have "owned_by s = add_mset (pfn f) (owned_by ?s)" by (simp add: owned_by_def)
  then have own: "owned_in ?sp = add_mset (pfn f) (owned_in sp')" by (simp add: sp'_def sums_insert [OF wf] S(1))
  have hold: "holders c sp' = holders c ?sp" for c by (simp add: sp'_def sums_insert [OF wf] S(2))
  then have roots: "roots sp' = roots ?sp" by (simp add: roots_def)
  have fresh: "pfn f \<notin># owned_in sp'" using cnt [of "pfn f"] by (simp add: own count_eq_zero_iff)
  have fa: "frame_addr f" using sf f by (auto simp: space_frames_def list_all_iff)
  have "pfn f \<notin> insert 0 (pfn ` roots ?sp)" using sp own by (auto simp: spaces_ok_def)
  with fresh have out: "pfn f \<notin> in_use sp'" by (auto simp: in_use_def roots)
  have use: "in_use ?sp = insert (pfn f) (in_use sp')" by (auto simp: in_use_def own roots)
  have "apart R m (insert (pfn f) (in_use sp'))" using ok m by (simp add: vms_ok_def spares_def use)
  note ap = free_apart(1) [OF this out fa]
  have "space_frames ?s" using sf by (auto simp: space_frames_def list_all_iff)
  moreover have "insert 0 (pfn ` roots sp') \<inter> set_mset (owned_in sp') = {}" using sp by (auto simp: spaces_ok_def own roots)
  moreover have "count (owned_in sp') g \<le> 1" for g
    using cnt [of g] unfolding own count_add_mset by (cases "g = pfn f") simp_all
  ultimately have "spaces_ok sp'" unfolding sp'_def by (intro spaces_ok_put [OF sp _ refl refl])
  with ap show ?thesis using ok by (simp add: vms_ok_def set_space_def extra_refs_def hold flip: sp'_def)
qed

lemma swap_out_ok:
  assumes ok: "vms_ok R t" and R: "ignores_vm R" and s: "bt_get (address_spaces t) pid = Some s"
    and f: "get_mapped_frame (machine t) (as_cr3 s) (page_align_down a) = Some f" "f \<in> set (owned_frames s)"
    and eq: "swap_out_page free1 free2 pid a t = (t', b)"
  shows "vms_ok R t'"
proof (cases free1)
  case True
  let ?page = "page_align_down a"
  obtain sw r where po: "page_out pid ?page (read_user_memory pid ?page (replicate 4096 0) t) (swap_manager (machine t)) = (sw, r)"
    by force
  define t1 where "t1 = t\<lparr>machine := (machine t)\<lparr>swap_manager := sw\<rparr>\<rparr>"
  have ok1: "vms_ok R t1" unfolding t1_def by (rule vms_machine [OF ok spares_vm(1) [OF R]])
  have s1: "bt_get (address_spaces t1) pid = Some s" using s by (simp add: t1_def)
  note G = give_up_frame [OF ok1 s1 f(2) unmap_spares(1) [of _ _ "as_cr3 s" ?page]]
  consider "r = None \<or> \<not> free2" | e where "r = Some e" "free2" by (cases r) auto
  then show ?thesis
  proof cases
    case 1
    with eq s f True po ok1 show ?thesis by (auto simp: swap_out_page_def t1_def Let_def split: option.splits)
  next
    case 2
    with eq s f True po
    have "t' = set_space pid (free_physical_frame (unmap_page_in_table (machine t1) (as_cr3 s) ?page) f)
        (s\<lparr>owned_frames := filter (\<lambda>g. g \<noteq> f) (owned_frames s)\<rparr>) t1"
      by (cases t) (simp add: swap_out_page_def t1_def set_space_def Let_def)
    with G show ?thesis by simp
  qed
qed (use ok eq in \<open>auto simp: swap_out_page_def Let_def\<close>)

section \<open>Runs\<close>

text \<open>
  The steps of the system. A pid given to a new process is not in use, a process that executes a
  new program does not share its page table, and swap takes only frames of the process itself.
\<close>

inductive vm_step :: "(string \<Rightarrow> u64 \<Rightarrow> u8 list) \<Rightarrow> unit vm_reclaim \<Rightarrow> VmState \<Rightarrow> VmState \<Rightarrow> bool" for rd rc where
  Create: "bt_get (address_spaces t) pid = None \<Longrightarrow> create_address_space rc current r1 r2 pid t = (t', b) \<Longrightarrow> vm_step rd rc t t'"
| Destroy: "vm_step rd rc t (destroy_address_space pid t)"
| Share: "bt_get (address_spaces t) child = None \<Longrightarrow> share_address_space parent child t = (t', b) \<Longrightarrow> vm_step rd rc t t'"
| Fork: "bt_get (address_spaces t) child = None \<Longrightarrow> fork_address_space rc current r1 r2 parent child t = (t', b) \<Longrightarrow> vm_step rd rc t t'"
| Exec: "(\<And>s. bt_get (address_spaces t) pid = Some s \<Longrightarrow> \<not> cr3_is_shared (as_cr3 s) t) \<Longrightarrow>
    replace_address_space rc current r1 r2 pid t = (t', b) \<Longrightarrow> vm_step rd rc t t'"
| Fault: "handle_page_fault rd rc pid a w t = Done (t', b) \<Longrightarrow> vm_step rd rc t t'"
| Mmap: "vm_mmap rc pid a sz prot flags t = Some (t', r) \<Longrightarrow> vm_step rd rc t t'"
| MmapFile: "vm_mmap_file rd rc pid a sz prot flags path off t = Some (t', r) \<Longrightarrow> vm_step rd rc t t'"
| Munmap: "vm_munmap pid a sz t = (t', r) \<Longrightarrow> vm_step rd rc t t'"
| Brk: "vm_brk rc pid new t = (t', r) \<Longrightarrow> vm_step rd rc t t'"
| Write: "vm_step rd rc t (write_user_memory pid a bs t)"
| SwapOut: "bt_get (address_spaces t) pid = Some s \<Longrightarrow>
    get_mapped_frame (machine t) (as_cr3 s) (page_align_down a) = Some f \<Longrightarrow> f \<in> set (owned_frames s) \<Longrightarrow>
    swap_out_page free1 free2 pid a t = (t', b) \<Longrightarrow> vm_step rd rc t t'"

lemma vm_step_ok:
  assumes "vm_step rd rc t t'" and R: "reclaim_ok R rc" "ignores_vm R" and "vms_ok R t"
  shows "vms_ok R t'"
  using assms(1,4)
proof cases
  case (Mmap pid a sz prot flags r)
  then show ?thesis using assms(4) R charged_mmap_ok [OF _ R(2) mmap_anonymous_takes [OF R]] by (simp add: vm_mmap_def)
next
  case (MmapFile pid a sz prot flags path off r)
  then show ?thesis using assms(4) R charged_mmap_ok [OF _ R(2) mmap_file_takes [OF R]] by (simp add: vm_mmap_file_def)
qed (use R in \<open>auto intro: create_ok destroy_ok share_ok fork_ok replace_ok page_fault_ok munmap_ok brk_ok write_memory_ok swap_out_ok\<close>)

lemma vm_run_ok: "rtranclp (vm_step rd rc) t t' \<Longrightarrow> reclaim_ok R rc \<Longrightarrow> ignores_vm R \<Longrightarrow> vms_ok R t \<Longrightarrow> vms_ok R t'"
  by (induction rule: rtranclp_induct) (auto intro: vm_step_ok)

lemma vms_okD:
  assumes "vms_ok R t" and s: "bt_get (address_spaces t) pid = Some s"
  shows "pfn (as_cr3 s) \<notin># frames_of (frame_pool (machine t))" "holders (as_cr3 s) (address_spaces t) = 1 + extra_refs (as_cr3 s) t"
    "distinct (map pfn (owned_frames s))" "f \<in> set (owned_frames s) \<Longrightarrow> pfn f \<notin># frames_of (frame_pool (machine t))"
    "pid' \<noteq> pid \<Longrightarrow> bt_get (address_spaces t) pid' = Some s' \<Longrightarrow> pfn ` set (owned_frames s) \<inter> pfn ` set (owned_frames s') = {}"
proof -
  let ?sp = "address_spaces t"
  have sp: "spaces_ok ?sp" and wf: "bt_wf ?sp" and ap: "apart R (machine t) (in_use ?sp)"
    and refs: "extra_refs (as_cr3 s) t = holders (as_cr3 s) ?sp - 1" using assms(1) by (simp_all add: vms_ok_def spaces_ok_def)
  note S = sums_remove [OF wf s]
  have free: "f \<notin># frames_of (frame_pool (machine t))" if "f \<in> in_use ?sp" for f using ap that by (auto simp: apart_def)
  show "pfn (as_cr3 s) \<notin># frames_of (frame_pool (machine t))" using roots_remove [OF wf s] by (intro free) (simp add: in_use_def)
  show "holders (as_cr3 s) ?sp = 1 + extra_refs (as_cr3 s) t" using refs S(2) [of "as_cr3 s"] by simp
  have cnt: "count (owned_by s) f + count (owned_in (bt_remove pid ?sp)) f \<le> 1" for f
    using sp by (simp add: spaces_ok_def S(1) flip: count_union)
  have "count (owned_by s) f \<le> 1" for f using cnt [of f] by simp
  then show "distinct (map pfn (owned_frames s))" unfolding owned_by_def by (rule distinct_if_count)
  show "f \<in> set (owned_frames s) \<Longrightarrow> pfn f \<notin># frames_of (frame_pool (machine t))"
    by (intro free) (auto simp: in_use_def S(1) owned_by_def)
  assume "pid' \<noteq> pid" and s': "bt_get ?sp pid' = Some s'"
  then have "bt_get (bt_remove pid ?sp) pid' = Some s'" by simp
  from sums_remove(1) [OF _ this] wf have sub: "owned_in (bt_remove pid ?sp) = owned_by s' + owned_in (bt_remove pid' (bt_remove pid ?sp))"
    by simp
  show "pfn ` set (owned_frames s) \<inter> pfn ` set (owned_frames s') = {}"
  proof (intro equals0I, elim IntE)
    fix g assume "g \<in> pfn ` set (owned_frames s)" "g \<in> pfn ` set (owned_frames s')"
    then have "g \<in># owned_by s" "g \<in># owned_by s'" by (simp_all add: owned_by_def)
    then have "0 < count (owned_by s) g" "0 < count (owned_by s') g" by simp_all
    with cnt [of g] show False by (simp add: sub)
  qed
qed


definition vt_demo :: VmState where
  "vt_demo = \<lparr>machine = fk_demo, address_spaces = [], cr3_extra_refs = [], charges = cg_demo\<rparr>"

lemma vt_demo_ok: "vms_ok (\<lambda>_. {#}) vt_demo"
proof -
  have "apart (\<lambda>_. {#}) fk_demo ({6, 7, 9} \<union> pfn ` tables fk_demo 0x1000)" using fk_demo_frames(2) by (simp add: pt_inv_def)
  then have "apart (\<lambda>_. {#}) fk_demo {0}" by (auto simp: apart_def fk_demo_pool)
  then show ?thesis
    by (simp add: vms_ok_def vt_demo_def spaces_ok_def in_use_def roots_def holders_def owned_in_def extra_refs_def)
qed


section \<open>Frames freed under another process\<close>

lemma freed_in_pool:
  assumes "pool_ok (frame_pool m)" and "frame_addr f"
  shows "pool_ok (frame_pool (free_physical_frame m f))"
    "frames_of (frame_pool (free_physical_frame m f)) = add_mset (pfn f) (frames_of (frame_pool m))"
  using free_frame_pool [OF assms] by (simp_all add: free_physical_frame_def zero_physical_frame_def Let_def)

lemma dropped_in_pool:
  assumes "pool_ok (frame_pool m)" and "space_frames s"
  shows "frames_of (frame_pool (AddressSpace_drop s m)) = add_mset (pfn (as_cr3 s)) (owned_by s + frames_of (frame_pool m))"
proof -
  have loop: "list_all frame_addr fs \<Longrightarrow> pool_ok (frame_pool m) \<Longrightarrow>
      pool_ok (frame_pool (fold (\<lambda>f m. free_physical_frame m f) fs m))
      \<and> frames_of (frame_pool (fold (\<lambda>f m. free_physical_frame m f) fs m)) = mset (map pfn fs) + frames_of (frame_pool m)" for fs m
    by (induction fs arbitrary: m) (simp_all add: freed_in_pool)
  have "as_cr3 s \<noteq> 0" using assms(2) by (auto simp: space_frames_def pfn_def)
  with assms loop [of "owned_frames s" m] show ?thesis
    by (simp add: AddressSpace_drop_def space_frames_def freed_in_pool owned_by_def Let_def)
qed

text \<open>
  \<open>replace_address_space\<close> does not look at the counts: when one of two threads executes a new
  program, the top table that the other still runs on goes back to the pool.
\<close>

lemma exec_frees_shared_table:
  assumes ok: "vms_ok R t" and R: "reclaim_ok R rc" "ignores_vm R"
    and s: "bt_get (address_spaces t) pid = Some s" "bt_get (address_spaces t) pid' = Some s'" "pid' \<noteq> pid" "as_cr3 s' = as_cr3 s"
    and eq: "replace_address_space rc current r1 r2 pid t = (t', True)"
  shows "bt_get (address_spaces t') pid' = Some s'" "pfn (as_cr3 s') \<in># frames_of (frame_pool (machine t'))"
proof -
  obtain m u where n: "AddressSpace_new rc current r1 r2 pid (machine t) = (m, Some u)"
    using eq by (auto simp: replace_address_space_def split: prod.splits option.splits)
  have "apart R (machine t) (in_use (address_spaces t))" using ok by (simp add: vms_ok_def)
  from new_space_frames [OF R this n] have "pool_ok (frame_pool m)" by (simp add: apart_def)
  moreover have "space_frames s" using ok s(1) unfolding vms_ok_def spaces_ok_def by blast
  moreover have "t' = t\<lparr>address_spaces := bt_insert pid u (address_spaces t), machine := AddressSpace_drop s m\<rparr>"
    using eq n s(1) by (simp add: replace_address_space_def put_space_def Let_def)
  ultimately show "bt_get (address_spaces t') pid' = Some s'" "pfn (as_cr3 s') \<in># frames_of (frame_pool (machine t'))"
    using s by (simp_all add: dropped_in_pool)
qed

text \<open>
  A fork leaves the ownership of the shared frames with the parent: when the parent exits first,
  they go back to the pool although the child still maps them.
\<close>

lemma exit_frees_forked_frames:
  assumes ok: "vms_ok R t" and s: "bt_get (address_spaces t) pid = Some s" "\<not> cr3_is_shared (as_cr3 s) t"
    and f: "f \<in> set (owned_frames s)"
  shows "pfn f \<in># frames_of (frame_pool (machine (destroy_address_space pid t)))"
    "pid' \<noteq> pid \<Longrightarrow> bt_get (address_spaces (destroy_address_space pid t)) pid' = bt_get (address_spaces t) pid'"
proof -
  have d: "destroy_address_space pid t = t\<lparr>address_spaces := bt_remove pid (address_spaces t), machine := AddressSpace_drop s (machine t)\<rparr>"
    using s by (simp add: destroy_address_space_def cr3_is_shared_def Let_def)
  have "space_frames s" "pool_ok (frame_pool (machine t))" using ok s(1) by (auto simp: vms_ok_def spaces_ok_def apart_def)
  with f show "pfn f \<in># frames_of (frame_pool (machine (destroy_address_space pid t)))"
    by (simp add: d dropped_in_pool owned_by_def)
  show "pid' \<noteq> pid \<Longrightarrow> bt_get (address_spaces (destroy_address_space pid t)) pid' = bt_get (address_spaces t) pid'"
    by (simp add: d)
qed

section \<open>Faults that are not handled\<close>

text \<open>
  Only the child of a fork remembers the shared pages. The first write of the parent to such a
  page faults, and no handler takes the fault.
\<close>

lemma parent_write_unhandled:
  assumes s: "bt_get (address_spaces t) pid = Some s" and cow: "bt_get (cow_pages s) (page_align_down a) = None"
    and swap: "\<not> is_swapped (as_pid s) (page_align_down a) (swap_manager (machine t))"
    and wf: "pt_wf (machine t) (as_cr3 s)" and e: "page_entry (machine t) (as_cr3 s) a = Some e"
  shows "handle_page_fault rd rc pid a True t = Done (set_space pid (machine t) s t, False)"
proof -
  have "page_entry (machine t) (as_cr3 s) (page_align_down a) = Some e"
    using e page_entry_path [OF align_down_path] by metis
  then have "get_mapped_frame (machine t) (as_cr3 s) (page_align_down a) \<noteq> None" using page_entry_get(2) [OF wf] by simp
  then have "handle_demand_fault rd rc a (machine t) s = (machine t, s, False)"
    by (simp add: handle_demand_fault_def Let_def split: option.split)
  then show ?thesis using s cow swap by (simp add: handle_page_fault_def handle_cow_fault_def handle_swap_in_def Let_def)
qed

text \<open>Threads share the page table but copy the areas: a thread does not know an area that another maps later.\<close>

lemma thread_misses_area:
  assumes s: "bt_get (address_spaces t) pid = Some s" "find_vma s (page_align_down a) = None"
    and cow: "bt_get (cow_pages s) (page_align_down a) = None"
    and swap: "\<not> is_swapped (as_pid s) (page_align_down a) (swap_manager (machine t))"
    and mm: "vm_mmap rc pid' addr sz prot flags t = Some (t', r)" "pid' \<noteq> pid"
    and sw: "swap_manager (machine t') = swap_manager (machine t)"
  shows "\<exists>t''. handle_page_fault rd rc pid a w t' = Done (t'', False)"
proof -
  have "bt_get (address_spaces t') pid = Some s"
    using mm s(1) by (auto simp: vm_mmap_def charged_mmap_def set_space_def Let_def split: prod.splits if_splits sum.splits option.splits)
  then show ?thesis using s(2) cow swap sw
    by (auto simp: handle_page_fault_def handle_cow_fault_def handle_swap_in_def handle_demand_fault_def Let_def)
qed

text \<open>
  \<open>write_user_memory\<close> walks the tables without looking at the write permission: what the kernel
  writes to a page that a fork shares, the other process sees.
\<close>

lemma kernel_write_reaches_sharer:
  assumes wf: "pt_wf m c" and e: "page_entry m c a = Some e" "page_entry m p a = Some e'" "entry_addr e' = entry_addr e"
    and f: "pfn (entry_addr e) \<notin> pfn ` tables m p" and p: "pt_wf m p"
  shows "mem_view (write_user_pages m c a [x]) p a = Some x"
proof -
  let ?m = "m\<lparr>phys_mem := store_bytes (entry_addr e + of_nat (offset_of a)) [x] (phys_mem m)\<rparr>"
  have "write_user_pages m c a [x] = ?m"
  proof -
    have "translate_vaddr m c (page_of a) = Some (entry_addr e)"
      using translate_entry [OF wf, of "page_of a" e] e(1) by (simp add: page_entry_page)
    moreover have "chunk_size a 1 = 1" using offset_less [of a] by (simp add: chunk_size_def)
    moreover have "phys_mem_offset m \<noteq> 0" using wf by (simp add: pt_wf_def)
    ultimately show ?thesis
      by (simp add: write_user_pages_def write_user_loop.simps [of m c a "[x]" 0] write_user_loop.simps [of _ c a "[x]" "Suc 0"] Let_def)
  qed
  moreover have "page_entry ?m p = page_entry m p"
  proof (rule data_write_tree(3) [OF p entry_addr_aligned])
    show "entry_addr e \<notin> tables m p" using f by blast
    show "offset_of a + length [x] \<le> 4096" using offset_less [of a] by simp
  qed
  ultimately show ?thesis using e(2,3) by (simp add: mem_view_def store_bytes_def)
qed

end
