(* ===== verification/Seccomp.thy ===== *)
theory Seccomp
  imports Btree
begin

text \<open>
  \<open>src/kernel/src/security/seccomp.rs\<close>: filtering of system calls by small BPF programs. A
  program is executed on the bytes of the \<open>SeccompData\<close> of the call (little-endian, 64 bytes);
  \<open>check_syscall\<close> returns the new table of processes, the signal it sends (if any) and its
  result. The interpreter is a total function: the program counter only grows.
\<close>

section \<open>Programs\<close>

datatype SeccompMode = Disabled | Strict | Filter

record BpfInsn =
  bpf_code :: u16
  bpf_jt :: u8
  bpf_jf :: u8
  bpf_k :: u32

definition BPF_LD :: u16 where "BPF_LD = 0x00"
definition BPF_JMP :: u16 where "BPF_JMP = 0x05"
definition BPF_RET :: u16 where "BPF_RET = 0x06"
definition BPF_W :: u16 where "BPF_W = 0x00"
definition BPF_ABS :: u16 where "BPF_ABS = 0x20"
definition BPF_JEQ :: u16 where "BPF_JEQ = 0x10"
definition BPF_K :: u16 where "BPF_K = 0x00"

definition SECCOMP_RET_KILL_PROCESS :: u32 where "SECCOMP_RET_KILL_PROCESS = 0x80000000"
definition SECCOMP_RET_KILL_THREAD :: u32 where "SECCOMP_RET_KILL_THREAD = 0x00000000"
definition SECCOMP_RET_TRAP :: u32 where "SECCOMP_RET_TRAP = 0x00030000"
definition SECCOMP_RET_ERRNO :: u32 where "SECCOMP_RET_ERRNO = 0x00050000"
definition SECCOMP_RET_LOG :: u32 where "SECCOMP_RET_LOG = 0x7ffc0000"
definition SECCOMP_RET_ALLOW :: u32 where "SECCOMP_RET_ALLOW = 0x7fff0000"

definition SECCOMP_DATA_NR :: u32 where "SECCOMP_DATA_NR = 0"

lemmas bpf_consts = BPF_LD_def BPF_JMP_def BPF_RET_def BPF_W_def BPF_ABS_def BPF_JEQ_def BPF_K_def
  SECCOMP_DATA_NR_def

lemmas ret_consts = SECCOMP_RET_KILL_PROCESS_def SECCOMP_RET_KILL_THREAD_def SECCOMP_RET_TRAP_def
  SECCOMP_RET_ERRNO_def SECCOMP_RET_LOG_def SECCOMP_RET_ALLOW_def

record SeccompData =
  sd_nr :: u32
  sd_arch :: u32
  sd_ip :: u64
  sd_args :: "u64 list"

definition SeccompData_bytes :: "SeccompData \<Rightarrow> u8 list" where
  "SeccompData_bytes d = u32_to_le (sd_nr d) @ u32_to_le (sd_arch d) @ u64_to_le (sd_ip d)
     @ concat (map u64_to_le (sd_args d))"

definition validate_bpf :: "BpfInsn list \<Rightarrow> bool" where
  "validate_bpf program \<longleftrightarrow> program \<noteq> [] \<and> bpf_code (last program) AND 0x07 = BPF_RET
     \<and> list_all (\<lambda>(i, insn). bpf_code insn AND 0x07 = BPF_JMP \<longrightarrow>
          i + 1 + unat (bpf_jt insn) < length program \<and> i + 1 + unat (bpf_jf insn) < length program)
        (enumerate 0 program)"

text \<open>The loop of \<open>execute_bpf\<close> from a program counter and an accumulator.\<close>

function bpf_run :: "BpfInsn list \<Rightarrow> u8 list \<Rightarrow> u32 \<Rightarrow> nat \<Rightarrow> u32" where
  "bpf_run program data_bytes accumulator pc =
     (if pc < length program then
        let insn = program ! pc; cls = bpf_code insn AND 0x07 in
        if cls = 0x00 then
          let off = unat (bpf_k insn);
              acc' = (if bpf_code insn AND 0xe0 = BPF_ABS \<and> bpf_code insn AND 0x18 = BPF_W
                         \<and> off + 4 \<le> length data_bytes
                      then u32_of_le (take 4 (drop off data_bytes)) else accumulator) in
          bpf_run program data_bytes acc' (pc + 1)
        else if cls = 0x05 then
          if bpf_code insn AND 0xf0 = BPF_JEQ then
            if accumulator = bpf_k insn
            then bpf_run program data_bytes accumulator (pc + (1 + unat (bpf_jt insn)))
            else bpf_run program data_bytes accumulator (pc + (1 + unat (bpf_jf insn)))
          else bpf_run program data_bytes accumulator (pc + (1 + unat (bpf_k insn)))
        else if cls = 0x06 then bpf_k insn
        else bpf_run program data_bytes accumulator (pc + 1)
      else SECCOMP_RET_KILL_PROCESS)"
  by pat_completeness auto
termination
  by (relation "measure (\<lambda>(program, data_bytes, accumulator, pc). length program - pc)") auto

declare bpf_run.simps [simp del]

definition execute_bpf :: "BpfInsn list \<Rightarrow> SeccompData \<Rightarrow> u32" where
  "execute_bpf program d = bpf_run program (SeccompData_bytes d) 0 0"

section \<open>The state of a process\<close>

record SeccompState =
  sec_mode :: SeccompMode
  sec_filters :: "BpfInsn list list"
  allowed_cache :: "u64 list"
  log_violations :: bool
  filter_count :: u64

definition SeccompState_new :: SeccompState where
  "SeccompState_new = \<lparr>sec_mode = Disabled, sec_filters = [], allowed_cache = [],
     log_violations = False, filter_count = 0\<rparr>"

definition set_strict :: "SeccompState \<Rightarrow> SeccompState" where
  "set_strict st = st\<lparr>sec_mode := Strict\<rparr>"

definition add_filter :: "SeccompState \<Rightarrow> BpfInsn list \<Rightarrow> SeccompState \<times> (errno + unit)" where
  "add_filter st program =
     (if program = [] \<or> length program > 4096 then (st, Inl EINVAL)
      else if \<not> validate_bpf program then (st, Inl EINVAL)
      else (st\<lparr>sec_filters := sec_filters st @ [program],
               sec_mode := (if sec_mode st = Disabled then Filter else sec_mode st)\<rparr>, Inr ()))"

type_synonym seccomp_table = "(u32, SeccompState) btree"

definition create_process_seccomp :: "seccomp_table \<Rightarrow> u32 \<Rightarrow> seccomp_table" where
  "create_process_seccomp t pid = bt_insert pid SeccompState_new t"

definition destroy_process_seccomp :: "seccomp_table \<Rightarrow> u32 \<Rightarrow> seccomp_table" where
  "destroy_process_seccomp t pid = bt_remove pid t"

definition inherit_seccomp :: "seccomp_table \<Rightarrow> u32 \<Rightarrow> u32 \<Rightarrow> seccomp_table" where
  "inherit_seccomp t parent child =
     (case bt_get t parent of None \<Rightarrow> t | Some st \<Rightarrow> bt_insert child st t)"

section \<open>Checking a system call\<close>

datatype Signal = SIGKILL | SIGSYS

text \<open>The loop over the filters: the least action as an unsigned number.\<close>

definition run_filters :: "BpfInsn list list \<Rightarrow> SeccompData \<Rightarrow> u32" where
  "run_filters filters d =
     fold (\<lambda>f result. let action = execute_bpf f d in if action < result then action else result)
       filters SECCOMP_RET_ALLOW"

definition seccomp_verdict :: "u32 \<Rightarrow> Signal option \<times> (errno + unit)" where
  "seccomp_verdict result =
     (let action = result AND 0xffff0000 in
      if action = SECCOMP_RET_ALLOW then (None, Inr ())
      else if action = SECCOMP_RET_LOG then (None, Inr ())
      else if action = SECCOMP_RET_ERRNO then (None, Inl (- int (unat (result AND 0xffff))))
      else if action = SECCOMP_RET_TRAP then (Some SIGSYS, Inl EPERM)
      else if action = SECCOMP_RET_KILL_THREAD \<or> action = SECCOMP_RET_KILL_PROCESS
      then (Some SIGKILL, Inl EPERM)
      else (None, Inr ()))"

definition seccomp_data :: "u64 \<Rightarrow> u64 list \<Rightarrow> SeccompData" where
  "seccomp_data syscall_nr args =
     \<lparr>sd_nr = ucast syscall_nr, sd_arch = 0xC000003E, sd_ip = 0, sd_args = args\<rparr>"

definition check_syscall ::
  "seccomp_table \<Rightarrow> u32 \<Rightarrow> u64 \<Rightarrow> u64 list \<Rightarrow> seccomp_table \<times> Signal option \<times> (errno + unit)" where
  "check_syscall t pid syscall_nr args =
     (case bt_get t pid of
        None \<Rightarrow> (t, None, Inr ())
      | Some st \<Rightarrow>
          (case sec_mode st of
             Disabled \<Rightarrow> (t, None, Inr ())
           | Strict \<Rightarrow> (t, None, if syscall_nr \<in> {0, 1, 15, 60, 231} then Inr () else Inl EPERM)
           | Filter \<Rightarrow>
               (bt_insert pid (st\<lparr>filter_count := filter_count st + 1\<rparr>) t,
                seccomp_verdict (run_filters (sec_filters st) (seccomp_data syscall_nr args)))))"

definition seccomp_set_mode_strict :: "seccomp_table \<Rightarrow> u32 \<Rightarrow> seccomp_table \<times> (errno + unit)" where
  "seccomp_set_mode_strict t pid =
     (let st = (case bt_get t pid of None \<Rightarrow> SeccompState_new | Some st \<Rightarrow> st) in
      if sec_mode st \<noteq> Disabled then (bt_insert pid st t, Inl EPERM)
      else (bt_insert pid (set_strict st) t, Inr ()))"

definition seccomp_set_mode_filter ::
  "seccomp_table \<Rightarrow> u32 \<Rightarrow> BpfInsn list \<Rightarrow> seccomp_table \<times> (errno + unit)" where
  "seccomp_set_mode_filter t pid program =
     (let st = (case bt_get t pid of None \<Rightarrow> SeccompState_new | Some st \<Rightarrow> st);
          (st', r) = add_filter st program in (bt_insert pid st' t, r))"

definition seccomp_get_stats :: "seccomp_table \<Rightarrow> u32 \<Rightarrow> (SeccompMode \<times> u64) option" where
  "seccomp_get_stats t pid = map_option (\<lambda>s. (sec_mode s, filter_count s)) (bt_get t pid)"

section \<open>The filter builders\<close>

definition load_nr :: BpfInsn where
  "load_nr = \<lparr>bpf_code = BPF_LD OR BPF_W OR BPF_ABS, bpf_jt = 0, bpf_jf = 0, bpf_k = SECCOMP_DATA_NR\<rparr>"

definition ret_k :: "u32 \<Rightarrow> BpfInsn" where
  "ret_k k = \<lparr>bpf_code = BPF_RET OR BPF_K, bpf_jt = 0, bpf_jf = 0, bpf_k = k\<rparr>"

text \<open>The loop of the builders over the listed system calls.\<close>

definition jump_chain :: "u32 list \<Rightarrow> BpfInsn list" where
  "jump_chain nrs = map (\<lambda>(i, nr). let remaining = length nrs - i - 1 in
       \<lparr>bpf_code = BPF_JMP OR BPF_JEQ OR BPF_K, bpf_jt = of_nat (remaining + 1), bpf_jf = 0, bpf_k = nr\<rparr>)
     (enumerate 0 nrs)"

definition build_blacklist_filter :: "u32 list \<Rightarrow> BpfInsn list" where
  "build_blacklist_filter blocked =
     load_nr # jump_chain blocked @ [ret_k SECCOMP_RET_ALLOW, ret_k SECCOMP_RET_KILL_PROCESS]"

definition build_whitelist_errno_filter :: "u32 list \<Rightarrow> u16 \<Rightarrow> BpfInsn list" where
  "build_whitelist_errno_filter allowed errno =
     load_nr # jump_chain allowed @ [ret_k (SECCOMP_RET_ERRNO OR ucast errno), ret_k SECCOMP_RET_ALLOW]"

definition build_whitelist_filter :: "u32 list \<Rightarrow> BpfInsn list" where
  "build_whitelist_filter allowed =
     load_nr # jump_chain allowed @ [ret_k SECCOMP_RET_KILL_PROCESS, ret_k SECCOMP_RET_ALLOW]"

definition build_errno_filter :: "u32 list \<Rightarrow> u16 \<Rightarrow> BpfInsn list" where
  "build_errno_filter blocked errno =
     load_nr # jump_chain blocked @ [ret_k SECCOMP_RET_ALLOW, ret_k (SECCOMP_RET_ERRNO OR ucast errno)]"

section \<open>What a chain of comparisons computes\<close>

definition chain_filter :: "u32 list \<Rightarrow> u32 \<Rightarrow> u32 \<Rightarrow> BpfInsn list" where
  "chain_filter nrs dflt hit = load_nr # jump_chain nrs @ [ret_k dflt, ret_k hit]"

lemma builders_chain:
  "build_blacklist_filter nrs = chain_filter nrs SECCOMP_RET_ALLOW SECCOMP_RET_KILL_PROCESS"
  "build_whitelist_filter nrs = chain_filter nrs SECCOMP_RET_KILL_PROCESS SECCOMP_RET_ALLOW"
  "build_errno_filter nrs e = chain_filter nrs SECCOMP_RET_ALLOW (SECCOMP_RET_ERRNO OR ucast e)"
  "build_whitelist_errno_filter nrs e = chain_filter nrs (SECCOMP_RET_ERRNO OR ucast e) SECCOMP_RET_ALLOW"
  by (simp_all add: chain_filter_def build_blacklist_filter_def build_whitelist_filter_def
      build_errno_filter_def build_whitelist_errno_filter_def)

lemma length_jump_chain [simp]: "length (jump_chain nrs) = length nrs"
  by (simp add: jump_chain_def)

lemma chain_nth:
  "chain_filter nrs dflt hit ! 0 = load_nr"
  "i < length nrs \<Longrightarrow> chain_filter nrs dflt hit ! Suc i
     = \<lparr>bpf_code = 0x15, bpf_jt = of_nat (length nrs - i), bpf_jf = 0, bpf_k = nrs ! i\<rparr>"
  "chain_filter nrs dflt hit ! Suc (length nrs) = ret_k dflt"
  "chain_filter nrs dflt hit ! Suc (Suc (length nrs)) = ret_k hit"
  "length (chain_filter nrs dflt hit) = length nrs + 3"
proof -
  show "length (chain_filter nrs dflt hit) = length nrs + 3" by (simp add: chain_filter_def)
  assume "i < length nrs"
  then have "Suc (length nrs - i - 1) = length nrs - i" by simp
  with \<open>i < length nrs\<close> show "chain_filter nrs dflt hit ! Suc i
     = \<lparr>bpf_code = 0x15, bpf_jt = of_nat (length nrs - i), bpf_jf = 0, bpf_k = nrs ! i\<rparr>"
    by (simp add: chain_filter_def nth_append jump_chain_def nth_enumerate_eq Let_def bpf_consts
        del: of_nat_diff of_nat_Suc)
qed (simp_all add: chain_filter_def nth_append)

lemma chain_ret:
  "bpf_run (chain_filter nrs dflt hit) bs acc (Suc (length nrs)) = dflt"
  "bpf_run (chain_filter nrs dflt hit) bs acc (Suc (Suc (length nrs))) = hit"
  by (subst bpf_run.simps, simp add: chain_nth ret_k_def bpf_consts)+

lemma chain_run:
  assumes "length nrs \<le> 255"
  shows "i \<le> length nrs \<Longrightarrow> bpf_run (chain_filter nrs dflt hit) bs acc (Suc i)
     = (if acc \<in> set (drop i nrs) then hit else dflt)"
proof (induction i rule: inc_induct)
  case base
  then show ?case by (simp add: chain_ret)
next
  case (step i)
  have jt: "unat (of_nat (length nrs - i) :: u8) = length nrs - i"
    using assms by (intro unat_of_nat_small) simp
  have "Suc i + Suc (length nrs - i) = Suc (Suc (length nrs))" using step.hyps by simp
  then have "bpf_run (chain_filter nrs dflt hit) bs acc (Suc i)
      = (if acc = nrs ! i then hit else bpf_run (chain_filter nrs dflt hit) bs acc (Suc (Suc i)))"
    using step.hyps by (subst bpf_run.simps) (simp add: chain_nth bpf_consts jt chain_ret del: of_nat_diff)
  moreover have "drop i nrs = nrs ! i # drop (Suc i) nrs"
    using step.hyps by (simp add: Cons_nth_drop_Suc)
  ultimately show ?case using step.IH by simp
qed

lemma chain_execute:
  assumes "length nrs \<le> 255"
  shows "execute_bpf (chain_filter nrs dflt hit) d = (if sd_nr d \<in> set nrs then hit else dflt)"
proof -
  have len: "4 \<le> length (SeccompData_bytes d)" by (simp add: SeccompData_bytes_def)
  have "u32_of_le (take 4 (SeccompData_bytes d)) = sd_nr d" by (simp add: SeccompData_bytes_def)
  then have "execute_bpf (chain_filter nrs dflt hit) d
      = bpf_run (chain_filter nrs dflt hit) (SeccompData_bytes d) (sd_nr d) (Suc 0)"
    unfolding execute_bpf_def using len
    by (subst bpf_run.simps) (simp add: chain_nth load_nr_def bpf_consts)
  with chain_run [OF assms, of 0] show ?thesis by simp
qed

lemma chain_valid:
  assumes "length nrs \<le> 255"
  shows "validate_bpf (chain_filter nrs dflt hit)"
proof -
  have "i + 1 + unat (bpf_jt insn) < length nrs + 3 \<and> i + 1 + unat (bpf_jf insn) < length nrs + 3"
    if "i < length nrs + 3" "insn = chain_filter nrs dflt hit ! i" "bpf_code insn AND 0x07 = BPF_JMP" for i insn
  proof -
    have "i = 0 \<or> (\<exists>j. i = Suc j \<and> j < length nrs) \<or> i = Suc (length nrs) \<or> i = Suc (Suc (length nrs))"
      using that(1) by (cases i) (simp_all, linarith)
    then consider "i = 0" | j where "i = Suc j" "j < length nrs" | "i = Suc (length nrs)"
      | "i = Suc (Suc (length nrs))" by blast
    then show ?thesis
    proof cases
      case 2
      have "unat (of_nat (length nrs - j) :: u8) = length nrs - j"
        using assms by (intro unat_of_nat_small) simp
      with 2 that(2) show ?thesis by (simp add: chain_nth del: of_nat_diff)
    qed (use that(2,3) in \<open>simp_all add: chain_nth load_nr_def ret_k_def bpf_consts\<close>)
  qed
  moreover have "bpf_code (last (chain_filter nrs dflt hit)) AND 0x07 = BPF_RET"
    by (simp add: chain_filter_def ret_k_def bpf_consts)
  ultimately show ?thesis
    by (auto simp: validate_bpf_def list_all_iff in_set_enumerate_eq chain_nth(5))
      (simp add: chain_filter_def)
qed

lemma install_chain:
  assumes "bt_get t pid = None \<or> bt_get t pid = Some SeccompState_new" and "length nrs \<le> 255"
    and "seccomp_set_mode_filter t pid (chain_filter nrs dflt hit) = (t', r)"
  shows "r = Inr ()" "bt_get t' pid = Some (SeccompState_new\<lparr>sec_filters := [chain_filter nrs dflt hit],
           sec_mode := Filter\<rparr>)"
proof -
  have "chain_filter nrs dflt hit \<noteq> []" by (simp add: chain_filter_def)
  moreover have "length (chain_filter nrs dflt hit) \<le> 4096" using assms(2) by (simp add: chain_nth)
  ultimately have "add_filter SeccompState_new (chain_filter nrs dflt hit)
      = (SeccompState_new\<lparr>sec_filters := [chain_filter nrs dflt hit], sec_mode := Filter\<rparr>, Inr ())"
    using chain_valid [OF assms(2)] by (simp add: add_filter_def SeccompState_new_def)
  with assms(1,3) show "r = Inr ()"
    "bt_get t' pid = Some (SeccompState_new\<lparr>sec_filters := [chain_filter nrs dflt hit], sec_mode := Filter\<rparr>)"
    by (auto simp: seccomp_set_mode_filter_def)
qed

lemma check_single:
  assumes "bt_get t pid = Some (SeccompState_new\<lparr>sec_filters := [f], sec_mode := Filter\<rparr>)"
  shows "snd (check_syscall t pid nr args)
    = seccomp_verdict (min SECCOMP_RET_ALLOW (execute_bpf f (seccomp_data nr args)))"
  using assms by (simp add: check_syscall_def run_filters_def Let_def min_def linorder_not_less not_le)
    (auto simp: not_less antisym_conv1)

lemma installed_chain_checks:
  assumes "bt_get t pid = None \<or> bt_get t pid = Some SeccompState_new" and "length nrs \<le> 255"
    and "seccomp_set_mode_filter t pid (chain_filter nrs dflt hit) = (t', r)"
  shows "snd (check_syscall t' pid nr args)
    = seccomp_verdict (min SECCOMP_RET_ALLOW (if ucast nr \<in> set nrs then hit else dflt))"
  using check_single [OF install_chain(2) [OF assms]]
  by (simp add: chain_execute [OF assms(2)]) (simp add: seccomp_data_def)

lemma verdict_allow: "seccomp_verdict SECCOMP_RET_ALLOW = (None, Inr ())"
  by (simp add: seccomp_verdict_def ret_consts)

lemma verdict_errno:
  "seccomp_verdict (min SECCOMP_RET_ALLOW (SECCOMP_RET_ERRNO OR ucast (e :: u16))) = (None, Inl (- int (unat e)))"
proof -
  have m: "(0xffff0000 :: u32) = NOT (mask 16)" "(0xffff :: u32) = mask 16"
    by (simp_all add: mask_eq_exp_minus_1)
  have e: "(ucast e :: u32) AND NOT (mask 16) = 0" "(ucast e :: u32) AND mask 16 = ucast e"
    by (rule bit_word_eqI, auto simp: bit_simps dest: bit_imp_le_length)+
  have "(0x50000 :: u32) AND NOT (mask 16) = 0x50000" "(0x50000 :: u32) AND mask 16 = 0"
    by (simp_all add: mask_eq_exp_minus_1)
  with e have parts: "(SECCOMP_RET_ERRNO OR ucast e) AND 0xffff0000 = 0x50000"
    "(SECCOMP_RET_ERRNO OR ucast e) AND 0xffff = ucast e"
    unfolding SECCOMP_RET_ERRNO_def m by (simp_all add: bit.conj_disj_distrib2)
  have "(0x50000 :: u32) AND ucast e = (0x50000 AND mask 16) AND ucast e"
    unfolding and.assoc using e(2) by (simp only: and.commute)
  then have "(0x50000 :: u32) AND ucast e = 0"
    unfolding \<open>(0x50000 :: u32) AND mask 16 = 0\<close> by simp
  then have sum: "SECCOMP_RET_ERRNO OR ucast e = 0x50000 + ucast e"
    by (simp add: SECCOMP_RET_ERRNO_def disjunctive_add_eq_or)
  have lt: "unat e < 2 ^ 16" using unsigned_less [of e] by simp
  then have ue: "unat (ucast e :: u32) = unat e"
    by (simp add: unsigned_ucast_eq take_bit_nat_eq_self)
  with lt have "unat (0x50000 + ucast e :: u32) < 0x60000" by (simp add: unat_word_ariths)
  then have "SECCOMP_RET_ERRNO OR ucast e \<le> SECCOMP_RET_ALLOW"
    unfolding sum by (simp add: SECCOMP_RET_ALLOW_def word_le_nat_alt)
  then have "min SECCOMP_RET_ALLOW (SECCOMP_RET_ERRNO OR ucast e) = SECCOMP_RET_ERRNO OR ucast e"
    by (simp add: min_absorb2)
  with parts show ?thesis
    by (simp add: seccomp_verdict_def SECCOMP_RET_ALLOW_def SECCOMP_RET_LOG_def ue Let_def)
      (simp add: SECCOMP_RET_ERRNO_def)
qed

section \<open>Several filters\<close>

text \<open>A call is denied when its result is an error.\<close>

definition denied :: "u32 \<Rightarrow> bool" where
  "denied result \<longleftrightarrow> (case snd (seccomp_verdict result) of Inl _ \<Rightarrow> True | Inr _ \<Rightarrow> False)"

text \<open>The return values whose action is one of the constants of the module.\<close>

definition assigned_action :: "u32 \<Rightarrow> bool" where
  "assigned_action r \<longleftrightarrow> r AND 0xffff0000 \<in> {SECCOMP_RET_KILL_PROCESS, SECCOMP_RET_KILL_THREAD,
     SECCOMP_RET_TRAP, SECCOMP_RET_ERRNO, SECCOMP_RET_LOG, SECCOMP_RET_ALLOW}"

lemma denied_iff:
  "denied r \<longleftrightarrow> r AND 0xffff0000 \<in> {SECCOMP_RET_KILL_PROCESS, SECCOMP_RET_KILL_THREAD,
     SECCOMP_RET_TRAP, SECCOMP_RET_ERRNO}"
  by (auto simp: denied_def seccomp_verdict_def ret_consts Let_def)

lemma unat_action: "unat (r AND 0xffff0000 :: u32) = unat r div 2 ^ 16 * 2 ^ 16"
proof -
  have "(0xffff0000 :: u32) = NOT (mask 16)" by (simp add: mask_eq_exp_minus_1)
  moreover have "r AND NOT (mask 16) = push_bit 16 (drop_bit 16 r)"
    by (rule bit_word_eqI) (auto simp: bit_simps)
  moreover have "unat (push_bit 16 (drop_bit 16 r)) = unat r div 2 ^ 16 * 2 ^ 16"
  proof -
    have "unat r < 2 ^ 32" using unsigned_less [of r] by simp
    with div_times_less_eq_dividend have "unat r div 2 ^ 16 * 2 ^ 16 < 2 ^ 32" by (rule le_less_trans)
    then show ?thesis
      by (simp only: unsigned_push_bit_eq unsigned_drop_bit_eq take_bit_drop_bit)
        (simp add: take_bit_nat_def drop_bit_eq_div push_bit_eq_mult)
  qed
  ultimately show ?thesis by simp
qed

lemma action_mono: "a \<le> b \<Longrightarrow> a AND 0xffff0000 \<le> b AND (0xffff0000 :: u32)"
  unfolding word_le_nat_alt unat_action by (intro mult_le_mono1 div_le_mono)

lemma run_filters_snoc:
  "run_filters (fs @ [f]) d = min (run_filters fs d) (execute_bpf f d)"
  by (simp add: run_filters_def Let_def min_def not_le) (auto simp: not_less antisym_conv1)

lemma run_filters_le: "run_filters fs d \<le> SECCOMP_RET_ALLOW"
proof (induction fs rule: rev_induct)
  case Nil
  then show ?case by (simp add: run_filters_def)
qed (simp add: run_filters_snoc min.coboundedI1)

lemma denied_mono:
  assumes "denied r" and "r \<le> SECCOMP_RET_ALLOW" and "assigned_action a"
  shows "denied (min r a)"
proof (cases "a < r")
  case True
  have "r AND 0xffff0000 \<noteq> SECCOMP_RET_KILL_PROCESS"
    using action_mono [OF assms(2)] by (auto simp: ret_consts)
  with assms(1) have "r AND 0xffff0000 \<le> SECCOMP_RET_ERRNO"
    by (auto simp: denied_iff ret_consts)
  with action_mono [of a r] True have "a AND 0xffff0000 \<le> SECCOMP_RET_ERRNO" by (meson le_less order_trans)
  with assms(3) have "denied a" by (auto simp: denied_iff assigned_action_def ret_consts)
  with True show ?thesis by (simp add: min.absorb2 less_imp_le)
next
  case False
  with assms(1) show ?thesis by (simp add: min_absorb1 not_less)
qed

section \<open>The process's own calls\<close>

datatype self_op = SetStrict | SetFilter "BpfInsn list" | Syscall u64 "u64 list"

fun self_step :: "u32 \<Rightarrow> self_op \<Rightarrow> seccomp_table \<Rightarrow> seccomp_table" where
  "self_step pid SetStrict t = fst (seccomp_set_mode_strict t pid)"
| "self_step pid (SetFilter prog) t = fst (seccomp_set_mode_filter t pid prog)"
| "self_step pid (Syscall nr args) t = fst (check_syscall t pid nr args)"

definition in_strict :: "u32 \<Rightarrow> seccomp_table \<Rightarrow> bool" where
  "in_strict pid t \<longleftrightarrow> map_option sec_mode (bt_get t pid) = Some Strict"

interpretation strict: state_machine "bt_insert pid (set_strict SeccompState_new) t" "self_step pid" "in_strict pid"
  for pid t
proof
  show "in_strict pid (bt_insert pid (set_strict SeccompState_new) t)"
    by (simp add: in_strict_def set_strict_def)
next
  fix t op assume "in_strict pid t"
  then obtain st where "bt_get t pid = Some st" "sec_mode st = Strict" by (auto simp: in_strict_def)
  then show "in_strict pid (self_step pid op t)"
    by (cases op) (simp_all add: in_strict_def seccomp_set_mode_strict_def seccomp_set_mode_filter_def
        check_syscall_def add_filter_def split_beta)
qed

section \<open>Properties\<close>

text \<open>C16: The filter builders with an error number do what they promise. Installed on a process
  without filters, for at most 255 listed system calls, \<open>build_errno_filter\<close> makes exactly the
  listed calls fail with the error number and \<open>build_whitelist_errno_filter\<close> exactly the calls
  that are not listed; no signal is sent.\<close>

theorem errno_filters_exact:
  assumes "bt_get t pid = None \<or> bt_get t pid = Some SeccompState_new" and "length nrs \<le> 255"
  shows "(case seccomp_set_mode_filter t pid (build_errno_filter nrs e) of (t', r) \<Rightarrow>
            r = Inr () \<and> snd (check_syscall t' pid nr args)
              = (None, if ucast nr \<in> set nrs then Inl (- int (unat e)) else Inr ()))
    \<and> (case seccomp_set_mode_filter t pid (build_whitelist_errno_filter nrs e) of (t', r) \<Rightarrow>
            r = Inr () \<and> snd (check_syscall t' pid nr args)
              = (None, if ucast nr \<in> set nrs then Inr () else Inl (- int (unat e))))"
  unfolding builders_chain
  by (auto simp: installed_chain_checks [OF assms] verdict_allow verdict_errno
      dest: install_chain(1) [OF assms])

theorem errno_filters_exact_witness:
  "snd (check_syscall (fst (seccomp_set_mode_filter [] 7 (build_errno_filter [39] 1))) 7 39 [0, 0, 0, 0, 0, 0])
     = (None, Inl (- 1))"
  using errno_filters_exact [where t = "[]" and pid = 7 and nrs = "[39]" and e = 1 and nr = 39
      and args = "[0, 0, 0, 0, 0, 0]"] by (simp add: split_beta)



text \<open>C25: A process cannot loosen its own policy with a filter that returns one of the actions of
  the module: a call that the installed filters deny is still denied after another such filter
  is added. (A filter that returns an unassigned action can: see \<open>unassigned_action_loosens\<close>.)\<close>

theorem added_filter_keeps_denials:
  assumes "bt_get t pid = Some st" and "sec_mode st = Filter"
    and "denied (run_filters (sec_filters st) (seccomp_data nr args))"
    and "assigned_action (execute_bpf program (seccomp_data nr args))"
    and "seccomp_set_mode_filter t pid program = (t', r)"
  shows "\<exists>e. snd (snd (check_syscall t' pid nr args)) = Inl e"
proof -
  let ?d = "seccomp_data nr args"
  have "\<exists>st'. bt_get t' pid = Some st' \<and> sec_mode st' = Filter
      \<and> sec_filters st' \<in> {sec_filters st, sec_filters st @ [program]}"
    using assms(1,2,5) by (auto simp: seccomp_set_mode_filter_def add_filter_def split: if_splits)
  then obtain st' where t': "bt_get t' pid = Some st'" "sec_mode st' = Filter"
    and fs: "sec_filters st' \<in> {sec_filters st, sec_filters st @ [program]}" by blast
  have "denied (run_filters (sec_filters st') ?d)"
    using fs assms(3) denied_mono [OF assms(3) run_filters_le assms(4)] by (auto simp: run_filters_snoc)
  with t' show ?thesis
    by (auto simp: check_syscall_def denied_def split: sum.splits)
qed

theorem added_filter_keeps_denials_witness:
  "\<exists>e. snd (snd (check_syscall (fst (seccomp_set_mode_filter
        [(7, SeccompState_new\<lparr>sec_mode := Filter, sec_filters := [[ret_k 0x50001]]\<rparr>)] 7 [ret_k 0x7fff0000]))
      7 2 [])) = Inl e"
proof -
  let ?st = "SeccompState_new\<lparr>sec_mode := Filter, sec_filters := [[ret_k 0x50001]]\<rparr>"
  have run: "execute_bpf [ret_k k] d = k" for k d
    unfolding execute_bpf_def by (subst bpf_run.simps) (simp add: ret_k_def bpf_consts)
  have "denied (run_filters (sec_filters ?st) (seccomp_data 2 []))"
    by (simp add: run_filters_def run denied_iff ret_consts)
  moreover have "assigned_action (execute_bpf [ret_k 0x7fff0000] (seccomp_data 2 []))"
    by (simp add: run assigned_action_def ret_consts)
  ultimately show ?thesis
    by (intro added_filter_keeps_denials [of "[(7, ?st)]" 7 ?st 2 "[]" "[ret_k 0x7fff0000]" _
          "snd (seccomp_set_mode_filter [(7, ?st)] 7 [ret_k 0x7fff0000])"]) simp_all
qed


text \<open>An unassigned action below the error action loosens a policy that denies the call.\<close>

lemma unassigned_action_loosens:
  "denied (run_filters [[ret_k 0x50001]] d)" "\<not> denied (run_filters [[ret_k 0x50001], [ret_k 0x40000]] d)"
proof -
  have run: "execute_bpf [ret_k k] d = k" for k
    unfolding execute_bpf_def by (subst bpf_run.simps) (simp add: ret_k_def bpf_consts)
  show "denied (run_filters [[ret_k 0x50001]] d)" "\<not> denied (run_filters [[ret_k 0x50001], [ret_k 0x40000]] d)"
    by (simp_all add: run_filters_def run denied_iff ret_consts)
qed

end
