(* ===== verification/Futex.thy ===== *)
theory Futex
  imports Btree
begin

text \<open>
  \<open>src/kernel/src/ipc/futex.rs\<close>: the futex wait queues. The state holds the queues, the words
  of user memory that the operations read and write, and a record of the calls made to the
  scheduler: the processes put to sleep and the processes woken, in order. The caller's pid is
  an argument. The waiters of all queues are a multiset of pids; the operations move pids into
  it (a wait) and out of it (a wake), and the state as a whole is a \<open>state_machine\<close> whose
  invariant is that no waiter is lost or woken twice.
\<close>

section \<open>Data\<close>

definition FUTEX_WAIT :: i32 where "FUTEX_WAIT = 0"
definition FUTEX_WAKE :: i32 where "FUTEX_WAKE = 1"
definition FUTEX_REQUEUE :: i32 where "FUTEX_REQUEUE = 3"
definition FUTEX_CMP_REQUEUE :: i32 where "FUTEX_CMP_REQUEUE = 4"
definition FUTEX_WAKE_OP :: i32 where "FUTEX_WAKE_OP = 5"
definition FUTEX_LOCK_PI :: i32 where "FUTEX_LOCK_PI = 6"
definition FUTEX_UNLOCK_PI :: i32 where "FUTEX_UNLOCK_PI = 7"
definition FUTEX_WAIT_BITSET :: i32 where "FUTEX_WAIT_BITSET = 9"
definition FUTEX_WAKE_BITSET :: i32 where "FUTEX_WAKE_BITSET = 10"
definition FUTEX_PRIVATE_FLAG :: i32 where "FUTEX_PRIVATE_FLAG = 128"
definition FUTEX_CLOCK_REALTIME :: i32 where "FUTEX_CLOCK_REALTIME = 256"
definition FUTEX_CMD_MASK :: i32 where
  "FUTEX_CMD_MASK = NOT (FUTEX_PRIVATE_FLAG OR FUTEX_CLOCK_REALTIME)"

definition I32_MAX :: i32 where "I32_MAX = 2 ^ 31 - 1"

record FutexWaiter =
  fw_pid :: u32
  fw_tid :: u32
  fw_bitset :: u32

record FutexState =
  fx_queues :: "(u64, FutexWaiter list) btree"
  fx_mem :: "u64 \<Rightarrow> u32"
  fx_slept :: "u32 list"
  fx_woken :: "u32 list"

definition wake_process :: "u32 \<Rightarrow> FutexState \<Rightarrow> FutexState" where
  "wake_process pid s = s\<lparr>fx_woken := fx_woken s @ [pid]\<rparr>"

section \<open>Operations\<close>

definition futex_wait ::
  "FutexState \<Rightarrow> u32 \<Rightarrow> u64 \<Rightarrow> u32 \<Rightarrow> u32 \<Rightarrow> FutexState \<times> (errno + i32)" where
  "futex_wait s pid addr expected bitset =
     (if bitset = 0 then (s, Inl EINVAL)
      else if fx_mem s addr \<noteq> expected then (s, Inl EAGAIN)
      else
        let waiter = \<lparr>fw_pid = pid, fw_tid = pid, fw_bitset = bitset\<rparr>;
            q = (case bt_get (fx_queues s) addr of None \<Rightarrow> [] | Some ws \<Rightarrow> ws) in
        (s\<lparr>fx_queues := bt_insert addr (q @ [waiter]) (fx_queues s), fx_slept := fx_slept s @ [pid]\<rparr>,
         Inr 0))"

text \<open>The loop of \<open>futex_wake\<close>: the waiters that remain and the pids woken, in order.\<close>

function wake_loop :: "FutexWaiter list \<Rightarrow> nat \<Rightarrow> i32 \<Rightarrow> i32 \<Rightarrow> u32 \<Rightarrow> FutexWaiter list \<times> u32 list \<times> i32" where
  "wake_loop waiters i woken cnt bitset =
     (if i < length waiters \<and> woken < cnt then
        if has_bits (fw_bitset (waiters ! i)) bitset then
          let (ws, pids, n) = wake_loop (remove_at i waiters) i (woken + 1) cnt bitset in
          (ws, fw_pid (waiters ! i) # pids, n)
        else wake_loop waiters (i + 1) woken cnt bitset
      else (waiters, [], woken))"
  by pat_completeness auto
termination
  by (relation "measure (\<lambda>(waiters, i, woken, cnt, bitset). length waiters - i)")
    (auto simp: remove_at_def)

declare wake_loop.simps [simp del]

definition futex_wake :: "FutexState \<Rightarrow> u64 \<Rightarrow> i32 \<Rightarrow> u32 \<Rightarrow> FutexState \<times> (errno + i32)" where
  "futex_wake s addr cnt bitset =
     (if bitset = 0 then (s, Inl EINVAL)
      else case bt_get (fx_queues s) addr of
        None \<Rightarrow> (s, Inr 0)
      | Some waiters \<Rightarrow>
          let (ws, pids, woken) = wake_loop waiters 0 0 cnt bitset;
              s' = fold wake_process pids s in
          (s'\<lparr>fx_queues := (if ws = [] then bt_remove addr (fx_queues s)
                            else bt_insert addr ws (fx_queues s))\<rparr>, Inr woken))"

text \<open>The loop of \<open>futex_requeue\<close>: the waiters that remain, the pids woken, those to requeue.\<close>

function requeue_loop ::
  "FutexWaiter list \<Rightarrow> nat \<Rightarrow> i32 \<Rightarrow> i32 \<Rightarrow> i32 \<Rightarrow> i32
   \<Rightarrow> FutexWaiter list \<times> u32 list \<times> FutexWaiter list \<times> i32 \<times> i32" where
  "requeue_loop waiters i woken wake_cnt requeued requeue_cnt =
     (if i < length waiters then
        if woken < wake_cnt then
          let (ws, pids, rq, n, m) =
            requeue_loop (remove_at i waiters) i (woken + 1) wake_cnt requeued requeue_cnt in
          (ws, fw_pid (waiters ! i) # pids, rq, n, m)
        else if requeued < requeue_cnt then
          let (ws, pids, rq, n, m) =
            requeue_loop (remove_at i waiters) i woken wake_cnt (requeued + 1) requeue_cnt in
          (ws, pids, waiters ! i # rq, n, m)
        else requeue_loop waiters (i + 1) woken wake_cnt requeued requeue_cnt
      else (waiters, [], [], woken, requeued))"
  by pat_completeness auto
termination
  by (relation "measure (\<lambda>(waiters, i, _). length waiters - i)") (auto simp: remove_at_def)

declare requeue_loop.simps [simp del]

definition futex_requeue ::
  "FutexState \<Rightarrow> u64 \<Rightarrow> i32 \<Rightarrow> u64 \<Rightarrow> i32 \<Rightarrow> FutexState \<times> (errno + i32)" where
  "futex_requeue s addr wake_cnt addr2 requeue_cnt =
     (case bt_get (fx_queues s) addr of
        None \<Rightarrow> (s, Inr 0)
      | Some waiters \<Rightarrow>
          let (ws, pids, rq, woken, requeued) = requeue_loop waiters 0 0 wake_cnt 0 requeue_cnt;
              s' = fold wake_process pids s;
              qs = (if ws = [] then bt_remove addr (fx_queues s) else bt_insert addr ws (fx_queues s));
              qs' = (if rq = [] then qs
                     else bt_insert addr2
                            ((case bt_get qs addr2 of None \<Rightarrow> [] | Some q \<Rightarrow> q) @ rq) qs) in
          (s'\<lparr>fx_queues := qs'\<rparr>, Inr (wrap_i32 (woken + requeued))))"

definition futex_cmp_requeue ::
  "FutexState \<Rightarrow> u64 \<Rightarrow> i32 \<Rightarrow> u64 \<Rightarrow> u32 \<Rightarrow> i32 \<Rightarrow> FutexState \<times> (errno + i32)" where
  "futex_cmp_requeue s addr wake_cnt addr2 expected requeue_cnt =
     (if fx_mem s addr \<noteq> expected then (s, Inl EAGAIN)
      else futex_requeue s addr wake_cnt addr2 requeue_cnt)"

definition wake_op_cond :: "u32 \<Rightarrow> u32 \<Rightarrow> u32 \<Rightarrow> bool" where
  "wake_op_cond cmp oldval cmparg =
     (if cmp = 0 then oldval = cmparg
      else if cmp = 1 then oldval \<noteq> cmparg
      else if cmp = 2 then oldval < cmparg
      else if cmp = 3 then oldval \<le> cmparg
      else if cmp = 4 then oldval > cmparg
      else if cmp = 5 then oldval \<ge> cmparg
      else False)"

definition futex_wake_op ::
  "FutexState \<Rightarrow> u64 \<Rightarrow> i32 \<Rightarrow> u64 \<Rightarrow> u32 \<Rightarrow> FutexState \<times> (errno + i32)" where
  "futex_wake_op s addr1 wake1_cnt addr2 op_arg =
     (let cmp = drop_bit 24 op_arg AND 0xf;
          oparg_val = drop_bit 12 op_arg AND 0xfff;
          cmparg = op_arg AND 0xfff;
          oldval = fx_mem s addr2;
          s1 = s\<lparr>fx_mem := (fx_mem s)(addr2 := oparg_val)\<rparr> in
      case futex_wake s1 addr1 wake1_cnt (- 1) of
        (s2, Inl e) \<Rightarrow> (s2, Inl e)
      | (s2, Inr woken1) \<Rightarrow>
          if wake_op_cond cmp oldval cmparg then
            (case futex_wake s2 addr2 1 (- 1) of
               (s3, Inl e) \<Rightarrow> (s3, Inl e)
             | (s3, Inr woken2) \<Rightarrow> (s3, Inr (wrap_i32 (woken1 + woken2))))
          else (s2, Inr woken1))"

definition futex_lock_pi :: "FutexState \<Rightarrow> u32 \<Rightarrow> u64 \<Rightarrow> FutexState \<times> (errno + i32)" where
  "futex_lock_pi s pid addr =
     (let current = fx_mem s addr in
      if current = 0 then (s\<lparr>fx_mem := (fx_mem s)(addr := pid)\<rparr>, Inr 0)
      else futex_wait s pid addr current (- 1))"

definition futex_unlock_pi :: "FutexState \<Rightarrow> u64 \<Rightarrow> FutexState \<times> (errno + i32)" where
  "futex_unlock_pi s addr = futex_wake (s\<lparr>fx_mem := (fx_mem s)(addr := 0)\<rparr>) addr 1 (- 1)"

definition futex_op ::
  "FutexState \<Rightarrow> u32 \<Rightarrow> u64 \<Rightarrow> i32 \<Rightarrow> u32 \<Rightarrow> u64 \<Rightarrow> u32 \<Rightarrow> FutexState \<times> (errno + i32)" where
  "futex_op s pid addr op val addr2 val3 =
     (let cmd = op AND FUTEX_CMD_MASK; n = sint val in
      if cmd = FUTEX_WAIT then futex_wait s pid addr val (- 1)
      else if cmd = FUTEX_WAKE then futex_wake s addr n (- 1)
      else if cmd = FUTEX_REQUEUE then futex_requeue s addr n addr2 I32_MAX
      else if cmd = FUTEX_CMP_REQUEUE then futex_cmp_requeue s addr n addr2 val3 I32_MAX
      else if cmd = FUTEX_WAIT_BITSET then futex_wait s pid addr val val3
      else if cmd = FUTEX_WAKE_BITSET then futex_wake s addr n val3
      else if cmd = FUTEX_WAKE_OP then futex_wake_op s addr n addr2 val3
      else if cmd = FUTEX_LOCK_PI then futex_lock_pi s pid addr
      else if cmd = FUTEX_UNLOCK_PI then futex_unlock_pi s addr
      else (s, Inl ENOSYS))"

definition waiter_count :: "FutexState \<Rightarrow> u64 \<Rightarrow> nat" where
  "waiter_count s addr = (case bt_get (fx_queues s) addr of None \<Rightarrow> 0 | Some w \<Rightarrow> length w)"

section \<open>What the loops compute\<close>

lemma remove_at_append [simp]: "remove_at (length pre) (pre @ w # ws) = pre @ ws"
  by (simp add: remove_at_def)

text \<open>The waiters that a wake with this bit set concerns.\<close>

abbreviation concerned :: "u32 \<Rightarrow> FutexWaiter \<Rightarrow> bool" where
  "concerned bitset w \<equiv> has_bits (fw_bitset w) bitset"

lemma wake_loop_spec:
  "\<exists>rest. wake_loop (pre @ ws) (length pre) k cnt b
      = (pre @ rest, map fw_pid (take (nat (cnt - k)) (filter (concerned b) ws)),
         k + int (min (nat (cnt - k)) (length (filter (concerned b) ws))))
    \<and> mset rest + mset (take (nat (cnt - k)) (filter (concerned b) ws)) = mset ws
    \<and> filter (concerned b) rest = drop (nat (cnt - k)) (filter (concerned b) ws)
    \<and> filter (\<lambda>w. \<not> concerned b w) rest = filter (\<lambda>w. \<not> concerned b w) ws"
proof (induction ws arbitrary: pre k)
  case Nil
  then show ?case by (subst wake_loop.simps) simp
next
  case (Cons w ws)
  show ?case
  proof (cases "k < cnt")
    case False
    then show ?thesis by (subst wake_loop.simps) (auto intro!: exI [of _ "w # ws"])
  next
    case True
    show ?thesis
    proof (cases "concerned b w")
      case hit: True
      from Cons.IH [of pre "k + 1"] obtain rest where
        ih: "wake_loop (pre @ ws) (length pre) (k + 1) cnt b
          = (pre @ rest, map fw_pid (take (nat (cnt - (k + 1))) (filter (concerned b) ws)),
             (k + 1) + int (min (nat (cnt - (k + 1))) (length (filter (concerned b) ws))))"
        "mset rest + mset (take (nat (cnt - (k + 1))) (filter (concerned b) ws)) = mset ws"
        "filter (concerned b) rest = drop (nat (cnt - (k + 1))) (filter (concerned b) ws)"
        "filter (\<lambda>w. \<not> concerned b w) rest = filter (\<lambda>w. \<not> concerned b w) ws" by blast
      have n: "nat (cnt - k) = Suc (nat (cnt - (k + 1)))" using True by simp
      have "wake_loop (pre @ w # ws) (length pre) k cnt b
          = (pre @ rest, fw_pid w # map fw_pid (take (nat (cnt - (k + 1))) (filter (concerned b) ws)),
             (k + 1) + int (min (nat (cnt - (k + 1))) (length (filter (concerned b) ws))))"
        using True hit by (subst wake_loop.simps) (simp add: ih(1))
      with hit ih(2-4) show ?thesis unfolding n by (intro exI [of _ rest]) simp
    next
      case miss: False
      from Cons.IH [of "pre @ [w]" k] obtain rest where
        ih: "wake_loop (pre @ w # ws) (Suc (length pre)) k cnt b
          = (pre @ w # rest, map fw_pid (take (nat (cnt - k)) (filter (concerned b) ws)),
             k + int (min (nat (cnt - k)) (length (filter (concerned b) ws))))"
        "mset rest + mset (take (nat (cnt - k)) (filter (concerned b) ws)) = mset ws"
        "filter (concerned b) rest = drop (nat (cnt - k)) (filter (concerned b) ws)"
        "filter (\<lambda>w. \<not> concerned b w) rest = filter (\<lambda>w. \<not> concerned b w) ws" by auto
      have "wake_loop (pre @ w # ws) (length pre) k cnt b = wake_loop (pre @ w # ws) (Suc (length pre)) k cnt b"
        using True miss by (subst wake_loop.simps) simp
      with miss ih show ?thesis by (intro exI [of _ "w # rest"]) simp
    qed
  qed
qed

lemma requeue_loop_spec:
  "requeue_loop (pre @ ws) (length pre) k n j m
     = (pre @ drop (nat (n - k) + nat (m - j)) ws, map fw_pid (take (nat (n - k)) ws),
        take (nat (m - j)) (drop (nat (n - k)) ws), k + int (min (nat (n - k)) (length ws)),
        j + int (min (nat (m - j)) (length ws - nat (n - k))))"
proof (induction ws arbitrary: pre k j)
  case Nil
  then show ?case by (subst requeue_loop.simps) simp
next
  case (Cons w ws)
  show ?case
  proof (cases "k < n")
    case True
    then have "nat (n - k) = Suc (nat (n - (k + 1)))" by simp
    with True Cons.IH [of pre "k + 1" j] show ?thesis
      by (subst requeue_loop.simps) simp
  next
    case False
    show ?thesis
    proof (cases "j < m")
      case True
      then have "nat (m - j) = Suc (nat (m - (j + 1)))" by simp
      with True False Cons.IH [of pre k "j + 1"] show ?thesis
        by (subst requeue_loop.simps) simp
    next
      case noreq: False
      with False Cons.IH [of "pre @ [w]" k j] show ?thesis
        by (subst requeue_loop.simps) simp
    qed
  qed
qed

section \<open>Conservation of waiters\<close>

definition waiting :: "FutexState \<Rightarrow> u32 multiset" where
  "waiting s = bt_sum (\<lambda>ws. mset (map fw_pid ws)) (fx_queues s)"

definition futex_inv :: "FutexState \<Rightarrow> bool" where
  "futex_inv s \<longleftrightarrow> bt_wf (fx_queues s) \<and> (\<forall>addr ws. bt_get (fx_queues s) addr = Some ws \<longrightarrow> ws \<noteq> [])"

abbreviation queue_of :: "FutexState \<Rightarrow> u64 \<Rightarrow> FutexWaiter list" where
  "queue_of s addr \<equiv> (case bt_get (fx_queues s) addr of None \<Rightarrow> [] | Some ws \<Rightarrow> ws)"

text \<open>Storing a queue, and dropping it when it is empty.\<close>

definition put_queue :: "u64 \<Rightarrow> FutexWaiter list \<Rightarrow> (u64, FutexWaiter list) btree \<Rightarrow> (u64, FutexWaiter list) btree" where
  "put_queue addr ws qs = (if ws = [] then bt_remove addr qs else bt_insert addr ws qs)"

lemma put_queue_get: "bt_get (put_queue addr ws qs) = (bt_get qs)(addr := if ws = [] then None else Some ws)"
  by (simp add: put_queue_def)

lemma put_queue_wf: "bt_wf qs \<Longrightarrow> bt_wf (put_queue addr ws qs)"
  by (simp add: put_queue_def bt_wf_insert bt_wf_remove)

lemma put_queue_sum:
  assumes "bt_wf qs" and "old = (case bt_get qs addr of None \<Rightarrow> [] | Some ws \<Rightarrow> ws)"
  shows "bt_sum (\<lambda>ws. mset (map fw_pid ws)) (put_queue addr ws qs) + mset (map fw_pid old)
    = bt_sum (\<lambda>ws. mset (map fw_pid ws)) qs + mset (map fw_pid ws)"
proof (cases "bt_get qs addr")
  case None
  then have "bt_remove addr qs = qs" by (rule bt_remove_absent)
  with None assms show ?thesis by (simp add: put_queue_def bt_sum_insert ac_simps)
next
  case (Some q)
  with assms bt_sum_remove [OF assms(1) Some, of "\<lambda>ws. mset (map fw_pid ws)"] show ?thesis
    by (simp add: put_queue_def bt_sum_insert ac_simps)
qed

lemma wake_processes:
  "fold wake_process pids s = s\<lparr>fx_woken := fx_woken s @ pids\<rparr>"
  by (induction pids arbitrary: s) (simp_all add: wake_process_def)

text \<open>The account of an operation: the pids it put to sleep and those it woke.\<close>

definition accounts :: "FutexState \<Rightarrow> FutexState \<Rightarrow> bool" where
  "accounts s s' \<longleftrightarrow> futex_inv s' \<and> (\<exists>ins outs. fx_slept s' = fx_slept s @ ins \<and> fx_woken s' = fx_woken s @ outs
     \<and> waiting s + mset ins = mset outs + waiting s')"

lemma accounts_refl: "futex_inv s \<Longrightarrow> accounts s s"
  by (auto simp: accounts_def)

lemma accounts_trans:
  assumes "accounts s1 s2" and "accounts s2 s3"
  shows "accounts s1 s3"
proof -
  from assms(1) obtain i1 o1 where 1: "fx_slept s2 = fx_slept s1 @ i1" "fx_woken s2 = fx_woken s1 @ o1"
    "waiting s1 + mset i1 = mset o1 + waiting s2" by (auto simp: accounts_def)
  from assms(2) obtain i2 o2 where 2: "fx_slept s3 = fx_slept s2 @ i2" "fx_woken s3 = fx_woken s2 @ o2"
    "waiting s2 + mset i2 = mset o2 + waiting s3" "futex_inv s3" by (auto simp: accounts_def)
  have "waiting s1 + (mset i1 + mset i2) = mset o1 + (waiting s2 + mset i2)"
    using 1(3) by (metis add.assoc)
  also have "\<dots> = (mset o1 + mset o2) + waiting s3" using 2(3) by (simp add: ac_simps)
  finally have "waiting s1 + mset (i1 @ i2) = mset (o1 @ o2) + waiting s3" by simp
  with 1(1,2) 2(1,2,4) show ?thesis unfolding accounts_def by (metis append.assoc)
qed

lemma accounts_mem: "futex_inv s \<Longrightarrow> accounts s (s\<lparr>fx_mem := m\<rparr>)"
  by (auto simp: accounts_def futex_inv_def waiting_def)

lemma futex_inv_put:
  "futex_inv s \<Longrightarrow> futex_inv (s\<lparr>fx_queues := put_queue addr ws (fx_queues s)\<rparr>)"
  by (auto simp: futex_inv_def put_queue_wf put_queue_get split: if_splits)

lemma futex_inv_cong: "fx_queues s = fx_queues s' \<Longrightarrow> futex_inv s = futex_inv s'"
  by (simp add: futex_inv_def)

lemma wait_accounts:
  assumes "futex_inv s"
  shows "accounts s (fst (futex_wait s pid addr expected bitset))"
proof (cases "bitset = 0 \<or> fx_mem s addr \<noteq> expected")
  case True
  with assms show ?thesis by (auto simp: futex_wait_def accounts_refl)
next
  case False
  let ?w = "\<lparr>fw_pid = pid, fw_tid = pid, fw_bitset = bitset\<rparr>"
  let ?qs = "put_queue addr (queue_of s addr @ [?w]) (fx_queues s)"
  let ?s = "s\<lparr>fx_queues := ?qs, fx_slept := fx_slept s @ [pid]\<rparr>"
  have e: "fst (futex_wait s pid addr expected bitset) = ?s"
    using False by (simp add: futex_wait_def put_queue_def Let_def)
  have "futex_inv ?s"
    using futex_inv_put [OF assms, of addr "queue_of s addr @ [?w]"]
    by (subst futex_inv_cong [of _ "s\<lparr>fx_queues := ?qs\<rparr>"]) simp_all
  moreover have "waiting s + mset [pid] = waiting ?s"
    using put_queue_sum [of "fx_queues s" "queue_of s addr" addr "queue_of s addr @ [?w]"] assms
    by (simp add: waiting_def futex_inv_def)
  ultimately show ?thesis unfolding e accounts_def by auto
qed

text \<open>The effect of a wake on the queue and on the scheduler.\<close>

lemma futex_wake_spec:
  assumes "futex_inv s" and "bitset \<noteq> 0" and "futex_wake s addr cnt bitset = (s', r)"
  defines "hit \<equiv> filter (concerned bitset) (queue_of s addr)"
  shows "r = Inr (int (min (nat cnt) (length hit)))"
    and "fx_woken s' = fx_woken s @ map fw_pid (take (nat cnt) hit)"
    and "filter (concerned bitset) (queue_of s' addr) = drop (nat cnt) hit"
    and "filter (\<lambda>w. \<not> concerned bitset w) (queue_of s' addr)
           = filter (\<lambda>w. \<not> concerned bitset w) (queue_of s addr)"
    and "\<And>addr'. addr' \<noteq> addr \<Longrightarrow> queue_of s' addr' = queue_of s addr'"
    and "fx_mem s' = fx_mem s" and "accounts s s'"
proof -
  obtain rest where rest:
    "wake_loop (queue_of s addr) 0 0 cnt bitset
      = (rest, map fw_pid (take (nat cnt) hit), int (min (nat cnt) (length hit)))"
    "mset rest + mset (take (nat cnt) hit) = mset (queue_of s addr)"
    "filter (concerned bitset) rest = drop (nat cnt) hit"
    "filter (\<lambda>w. \<not> concerned bitset w) rest = filter (\<lambda>w. \<not> concerned bitset w) (queue_of s addr)"
    using wake_loop_spec [of "[]" "queue_of s addr" 0 cnt bitset] unfolding hit_def by auto
  have s': "s' = s\<lparr>fx_woken := fx_woken s @ map fw_pid (take (nat cnt) hit),
      fx_queues := put_queue addr rest (fx_queues s)\<rparr>"
    and r: "r = Inr (int (min (nat cnt) (length hit)))"
  proof -
    have "s' = s\<lparr>fx_woken := fx_woken s @ map fw_pid (take (nat cnt) hit),
        fx_queues := put_queue addr rest (fx_queues s)\<rparr> \<and> r = Inr (int (min (nat cnt) (length hit)))"
    proof (cases "bt_get (fx_queues s) addr")
      case None
      with rest have "rest = []" "hit = []" by (simp_all add: hit_def)
      with None assms(2,3) show ?thesis
        by (auto simp: futex_wake_def put_queue_def bt_remove_absent)
    next
      case (Some ws)
      with rest(1) assms(2,3) show ?thesis
        by (auto simp: futex_wake_def put_queue_def wake_processes Let_def)
    qed
    then show "s' = s\<lparr>fx_woken := fx_woken s @ map fw_pid (take (nat cnt) hit),
        fx_queues := put_queue addr rest (fx_queues s)\<rparr>"
      "r = Inr (int (min (nat cnt) (length hit)))" by simp_all
  qed
  show "r = Inr (int (min (nat cnt) (length hit)))" by (rule r)
  show "fx_woken s' = fx_woken s @ map fw_pid (take (nat cnt) hit)" "fx_mem s' = fx_mem s"
    by (simp_all add: s')
  have q: "queue_of s' a = (if a = addr then rest else queue_of s a)" for a
    by (simp add: s' put_queue_get)
  show "filter (concerned bitset) (queue_of s' addr) = drop (nat cnt) hit"
    "filter (\<lambda>w. \<not> concerned bitset w) (queue_of s' addr)
       = filter (\<lambda>w. \<not> concerned bitset w) (queue_of s addr)"
    using rest(3,4) by (simp_all add: q)
  show "\<And>addr'. addr' \<noteq> addr \<Longrightarrow> queue_of s' addr' = queue_of s addr'" by (simp add: q)
  have "futex_inv s'"
    using futex_inv_put [OF assms(1), of addr rest]
    by (subst futex_inv_cong [of _ "s\<lparr>fx_queues := put_queue addr rest (fx_queues s)\<rparr>"]) (simp_all add: s')
  moreover have "waiting s = mset (map fw_pid (take (nat cnt) hit)) + waiting s'"
  proof -
    have "waiting s' + mset (map fw_pid (queue_of s addr)) = waiting s + mset (map fw_pid rest)"
      using put_queue_sum [of "fx_queues s" "queue_of s addr" addr rest] assms(1)
      by (simp add: waiting_def futex_inv_def s')
    moreover have "mset (map fw_pid (queue_of s addr)) = mset (map fw_pid rest) + mset (map fw_pid (take (nat cnt) hit))"
      by (simp flip: rest(2))
    ultimately show ?thesis by (simp add: ac_simps)
  qed
  ultimately show "accounts s s'" unfolding accounts_def by (auto simp: s')
qed

lemma wake_accounts: "futex_inv s \<Longrightarrow> accounts s (fst (futex_wake s addr cnt bitset))"
  using futex_wake_spec(7) [of s bitset addr cnt] accounts_refl [of s]
  by (cases "bitset = 0") (auto simp: futex_wake_def [of s addr cnt 0] prod_eq_iff)

text \<open>The queues after a requeue.\<close>

lemma futex_requeue_spec:
  assumes "futex_inv s" and "futex_requeue s addr n addr2 m = (s', r)"
  defines "q \<equiv> queue_of s addr"
  shows "fx_woken s' = fx_woken s @ map fw_pid (take (nat n) q)" (is ?woken)
    and "addr2 \<noteq> addr \<Longrightarrow> queue_of s' addr = drop (nat n + nat m) q"
    and "addr2 \<noteq> addr \<Longrightarrow> queue_of s' addr2 = queue_of s addr2 @ take (nat m) (drop (nat n) q)"
    and "accounts s s'"
proof -
  let ?rest = "drop (nat n + nat m) q" and ?rq = "take (nat m) (drop (nat n) q)"
  let ?qs = "put_queue addr ?rest (fx_queues s)"
  let ?q2 = "(case bt_get ?qs addr2 of None \<Rightarrow> [] | Some ws \<Rightarrow> ws)"
  let ?qs' = "if ?rq = [] then ?qs else put_queue addr2 (?q2 @ ?rq) ?qs"
  have loop: "requeue_loop q 0 0 n 0 m = (?rest, map fw_pid (take (nat n) q), ?rq,
      int (min (nat n) (length q)), int (min (nat m) (length q - nat n)))"
    using requeue_loop_spec [of "[]" q 0 n 0 m] by simp
  have s': "s' = s\<lparr>fx_woken := fx_woken s @ map fw_pid (take (nat n) q), fx_queues := ?qs'\<rparr>"
  proof (cases "bt_get (fx_queues s) addr")
    case None
    with assms(2) show ?thesis by (simp add: futex_requeue_def q_def put_queue_def bt_remove_absent)
  next
    case (Some ws)
    with loop have "requeue_loop ws 0 0 n 0 m = (?rest, map fw_pid (take (nat n) q), ?rq,
      int (min (nat n) (length q)), int (min (nat m) (length q - nat n)))" by (simp add: q_def)
    with assms(2) Some show ?thesis
      by (auto simp: futex_requeue_def wake_processes put_queue_def Let_def simp del: take_eq_Nil)
  qed
  show ?woken by (simp add: s')
  show "addr2 \<noteq> addr \<Longrightarrow> queue_of s' addr = drop (nat n + nat m) q"
    "addr2 \<noteq> addr \<Longrightarrow> queue_of s' addr2 = queue_of s addr2 @ ?rq"
    by (auto simp: s' put_queue_get)
  have wf: "bt_wf (fx_queues s)" "bt_wf ?qs" using assms(1) by (simp_all add: futex_inv_def put_queue_wf)
  have "futex_inv (s\<lparr>fx_queues := ?qs\<rparr>)" by (rule futex_inv_put [OF assms(1)])
  with futex_inv_put [OF this, of addr2 "?q2 @ ?rq"] have "futex_inv (s\<lparr>fx_queues := ?qs'\<rparr>)" by simp
  then have "futex_inv s'" by (subst futex_inv_cong [of _ "s\<lparr>fx_queues := ?qs'\<rparr>"]) (simp_all add: s')
  moreover have "waiting s = mset (map fw_pid (take (nat n) q)) + waiting s'"
  proof -
    let ?S = "bt_sum (\<lambda>ws. mset (map fw_pid ws))"
    have 1: "?S ?qs + mset (map fw_pid q) = ?S (fx_queues s) + mset (map fw_pid ?rest)"
      by (rule put_queue_sum [OF wf(1)]) (simp add: q_def)
    have "?S (put_queue addr2 (?q2 @ ?rq) ?qs) + mset (map fw_pid ?q2) = ?S ?qs + mset (map fw_pid (?q2 @ ?rq))"
      by (rule put_queue_sum [OF wf(2) refl])
    then have 2: "?S ?qs' = ?S ?qs + mset (map fw_pid ?rq)" by simp
    have "q = take (nat n) q @ ?rq @ ?rest"
      by (metis append_take_drop_id drop_drop add.commute)
    then have "mset (map fw_pid q) = mset (map fw_pid (take (nat n) q)) + mset (map fw_pid ?rq) + mset (map fw_pid ?rest)"
      by (metis map_append mset_append add.assoc)
    with 1 2 show ?thesis by (simp add: waiting_def s' ac_simps)
  qed
  ultimately show "accounts s s'" unfolding accounts_def by (auto simp: s')
qed

lemma requeue_accounts: "futex_inv s \<Longrightarrow> accounts s (fst (futex_requeue s addr n addr2 m))"
  using futex_requeue_spec(4) by (metis prod.collapse)

lemma accounts_inv: "accounts s s' \<Longrightarrow> futex_inv s'"
  by (simp add: accounts_def)

lemma wake_op_accounts:
  assumes "futex_inv s"
  shows "accounts s (fst (futex_wake_op s addr1 n addr2 arg))"
proof -
  let ?s1 = "s\<lparr>fx_mem := (fx_mem s)(addr2 := drop_bit 12 arg AND 0xfff)\<rparr>"
  obtain s2 r where w: "futex_wake ?s1 addr1 n (- 1) = (s2, r)" by fastforce
  have 1: "accounts s ?s1" by (rule accounts_mem [OF assms])
  have 2: "accounts s s2"
    using accounts_trans [OF 1 wake_accounts [OF accounts_inv [OF 1], of addr1 n "- 1"]] w by simp
  have 3: "accounts s (fst (futex_wake s2 addr2 1 (- 1)))"
    using accounts_trans [OF 2 wake_accounts [OF accounts_inv [OF 2]]] .
  show ?thesis
    using w 2 3 by (auto simp: futex_wake_op_def Let_def split: sum.splits prod.splits)
qed

lemma futex_op_accounts:
  assumes "futex_inv s"
  shows "accounts s (fst (futex_op s pid addr op val addr2 val3))"
proof -
  have "accounts s (fst (futex_lock_pi s pid addr))"
    using assms by (simp add: futex_lock_pi_def Let_def wait_accounts accounts_mem)
  moreover have "accounts s (fst (futex_unlock_pi s addr))"
    unfolding futex_unlock_pi_def
    by (rule accounts_trans [OF accounts_mem [OF assms] wake_accounts])
      (rule accounts_inv [OF accounts_mem [OF assms]])
  ultimately show ?thesis
    using assms by (simp add: futex_op_def Let_def futex_cmp_requeue_def wait_accounts wake_accounts
        requeue_accounts wake_op_accounts accounts_refl)
qed

section \<open>Runs\<close>

text \<open>The system: futex calls by any process, and stores to user memory.\<close>

datatype futex_event = Call u32 u64 i32 u32 u64 u32 | Store u64 u32

fun futex_step :: "futex_event \<Rightarrow> FutexState \<Rightarrow> FutexState" where
  "futex_step (Call pid addr op val addr2 val3) s = fst (futex_op s pid addr op val addr2 val3)"
| "futex_step (Store addr v) s = s\<lparr>fx_mem := (fx_mem s)(addr := v)\<rparr>"

definition futex_init :: "(u64 \<Rightarrow> u32) \<Rightarrow> FutexState" where
  "futex_init mem = \<lparr>fx_queues = [], fx_mem = mem, fx_slept = [], fx_woken = []\<rparr>"

definition no_lost_waiter :: "FutexState \<Rightarrow> bool" where
  "no_lost_waiter s \<longleftrightarrow> futex_inv s \<and> mset (fx_slept s) = mset (fx_woken s) + waiting s"

lemma accounts_no_lost: "no_lost_waiter s \<Longrightarrow> accounts s s' \<Longrightarrow> no_lost_waiter s'"
  unfolding no_lost_waiter_def accounts_def by (auto simp: ac_simps)

interpretation fx: state_machine "futex_init mem" futex_step no_lost_waiter for mem
proof
  show "no_lost_waiter (futex_init mem)"
    by (simp add: no_lost_waiter_def futex_inv_def futex_init_def waiting_def)
next
  fix s op assume inv: "no_lost_waiter s"
  then have f: "futex_inv s" by (simp add: no_lost_waiter_def)
  show "no_lost_waiter (futex_step op s)"
    by (cases op) (simp_all add: accounts_no_lost [OF inv] futex_op_accounts [OF f] accounts_mem [OF f])
qed

section \<open>Properties\<close>


text \<open>C31: In every reachable state a wake with a bit set wakes, in the order in which they went to
  sleep, the first \<open>cnt\<close> waiters of the address whose bit set meets it, reports their number,
  and leaves every other waiter queued in its place.\<close>

theorem futex_wake_fifo:
  assumes "s = fold futex_step evs (futex_init mem)" and "bitset \<noteq> 0"
    and "futex_wake s addr cnt bitset = (s', r)"
  shows "r = Inr (int (length (take (nat cnt) (filter (concerned bitset) (queue_of s addr)))))
    \<and> fx_woken s' = fx_woken s @ map fw_pid (take (nat cnt) (filter (concerned bitset) (queue_of s addr)))
    \<and> filter (concerned bitset) (queue_of s' addr) = drop (nat cnt) (filter (concerned bitset) (queue_of s addr))
    \<and> filter (\<lambda>w. \<not> concerned bitset w) (queue_of s' addr)
        = filter (\<lambda>w. \<not> concerned bitset w) (queue_of s addr)
    \<and> (\<forall>addr'. addr' = addr \<or> queue_of s' addr' = queue_of s addr')"
proof -
  have "futex_inv s" using fx.reachable_inv [of evs mem] by (simp add: assms(1) no_lost_waiter_def)
  from futex_wake_spec [OF this assms(2,3)] show ?thesis by (auto simp: min.commute)
qed

lemma futex_demo:
  "fold futex_step [Call 5 64 0 0 0 0, Call 6 64 9 0 0 2, Call 7 64 9 0 0 1] (futex_init (\<lambda>_. 0))
     = \<lparr>fx_queues = [(64, [\<lparr>fw_pid = 5, fw_tid = 5, fw_bitset = - 1\<rparr>, \<lparr>fw_pid = 6, fw_tid = 6, fw_bitset = 2\<rparr>,
          \<lparr>fw_pid = 7, fw_tid = 7, fw_bitset = 1\<rparr>])], fx_mem = (\<lambda>_. 0), fx_slept = [5, 6, 7], fx_woken = []\<rparr>"
  by (simp add: futex_init_def futex_op_def FUTEX_CMD_MASK_def FUTEX_PRIVATE_FLAG_def FUTEX_CLOCK_REALTIME_def
      FUTEX_WAIT_def FUTEX_WAKE_def FUTEX_REQUEUE_def FUTEX_CMP_REQUEUE_def FUTEX_WAIT_BITSET_def futex_wait_def)

theorem futex_wake_fifo_witness:
  "fx_woken (fst (futex_wake (fold futex_step [Call 5 64 0 0 0 0, Call 6 64 9 0 0 2, Call 7 64 9 0 0 1]
       (futex_init (\<lambda>_. 0))) 64 2 1)) = [5, 7]"
proof -
  let ?s = "fold futex_step [Call 5 64 0 0 0 0, Call 6 64 9 0 0 2, Call 7 64 9 0 0 1] (futex_init (\<lambda>_. 0))"
  obtain s' r where w: "futex_wake ?s 64 2 1 = (s', r)" by fastforce
  from futex_wake_fifo [OF refl _ w] have "fx_woken s' = [5, 7]" unfolding futex_demo by simp
  with w show ?thesis by simp
qed

text \<open>C30: \<open>FUTEX_REQUEUE\<close> between two different addresses wakes the first \<open>n\<close> waiters in order and
  appends the others to the queue of the second address, in order, leaving the first queue
  empty (as long as it holds at most \<open>n + 2^31 - 1\<close> waiters).\<close>

theorem futex_requeue_moves_rest:
  assumes "s = fold futex_step evs (futex_init mem)" and "addr2 \<noteq> addr"
    and "length (queue_of s addr) \<le> nat n + nat I32_MAX"
    and "futex_requeue s addr n addr2 I32_MAX = (s', r)"
  shows "fx_woken s' = fx_woken s @ map fw_pid (take (nat n) (queue_of s addr))
    \<and> queue_of s' addr = [] \<and> queue_of s' addr2 = queue_of s addr2 @ drop (nat n) (queue_of s addr)"
proof -
  have "futex_inv s" using fx.reachable_inv [of evs mem] by (simp add: assms(1) no_lost_waiter_def)
  from futex_requeue_spec [OF this assms(4)] assms(2,3) show ?thesis by simp
qed

theorem futex_requeue_moves_rest_witness:
  "queue_of (fst (futex_requeue (fold futex_step [Call 5 64 0 0 0 0, Call 6 64 9 0 0 2, Call 7 64 9 0 0 1]
       (futex_init (\<lambda>_. 0))) 64 2 128 I32_MAX)) 128 = [\<lparr>fw_pid = 7, fw_tid = 7, fw_bitset = 1\<rparr>]"
proof -
  let ?s = "fold futex_step [Call 5 64 0 0 0 0, Call 6 64 9 0 0 2, Call 7 64 9 0 0 1] (futex_init (\<lambda>_. 0))"
  obtain s' r where w: "futex_requeue ?s 64 2 128 I32_MAX = (s', r)" by fastforce
  have "length (queue_of ?s 64) \<le> nat 2 + nat I32_MAX" unfolding futex_demo by (simp add: I32_MAX_def)
  from futex_requeue_moves_rest [OF refl _ this w]
  have "queue_of s' 128 = [\<lparr>fw_pid = 7, fw_tid = 7, fw_bitset = 1\<rparr>]" unfolding futex_demo by simp
  with w show ?thesis by simp
qed

text \<open>
  The priority-inheritance lock does not exclude: a process that found the lock held is put to
  sleep, and its call returns success when it is woken, but the lock word is then free and
  another process takes it.
\<close>

lemma lock_pi_two_owners:
  "\<exists>s1 s2 s3 s4. futex_lock_pi (futex_init (\<lambda>_. 0)) 1 64 = (s1, Inr 0)
    \<and> futex_lock_pi s1 2 64 = (s2, Inr 0) \<and> futex_unlock_pi s2 64 = (s3, Inr 1)
    \<and> fx_woken s3 = [2] \<and> futex_lock_pi s3 3 64 = (s4, Inr 0) \<and> fx_slept s4 = [2]"
  by (simp add: futex_lock_pi_def futex_unlock_pi_def futex_wait_def futex_wake_def futex_init_def
      wake_loop.simps wake_process_def Let_def)

end
