(* ===== verification/Wait_Queue.thy ===== *)
theory Wait_Queue
  imports Prelude
begin

text \<open>
  \<open>src/kernel/src/sched/wait_queue.rs\<close>: wait queues, completions, semaphores and read-write
  semaphores. A queue is the list of its entries; the operations that wake return the pids
  passed to \<open>scheduler::wake_process\<close>, in order. A blocking operation of a semaphore is a loop
  of short critical sections, so the semaphores are modelled as systems of processes whose
  critical sections interleave: one \<open>inductive\<close> step per critical section.
\<close>

section \<open>Wait queues\<close>

datatype WaitMode = NonExclusive | Exclusive

record WaitQueueEntry =
  we_pid :: u32
  we_mode :: WaitMode
  we_signaled :: bool

type_synonym WaitQueue = "WaitQueueEntry list"

definition WaitQueue_new :: WaitQueue where "WaitQueue_new = []"

definition add_waiter :: "WaitQueue \<Rightarrow> u32 \<Rightarrow> WaitMode \<Rightarrow> WaitQueue" where
  "add_waiter q pid mode = q @ [\<lparr>we_pid = pid, we_mode = mode, we_signaled = False\<rparr>]"

text \<open>The first half of \<open>sleep\<close>; the caller then calls \<open>scheduler::sleep_current\<close>.\<close>

definition WaitQueue_sleep :: "WaitQueue \<Rightarrow> u32 \<Rightarrow> WaitMode \<Rightarrow> WaitQueue" where
  "WaitQueue_sleep q pid mode = q @ [\<lparr>we_pid = pid, we_mode = mode, we_signaled = False\<rparr>]"

definition remove_waiter :: "WaitQueue \<Rightarrow> u32 \<Rightarrow> WaitQueue" where
  "remove_waiter q pid = filter (\<lambda>e. we_pid e \<noteq> pid) q"

definition wake_one :: "WaitQueue \<Rightarrow> WaitQueue \<times> u32 option" where
  "wake_one q =
     (case position (\<lambda>_. True) q of
        Some idx \<Rightarrow> (remove_at idx q, Some (we_pid (q ! idx)))
      | None \<Rightarrow> (q, None))"

text \<open>The loop of \<open>wake_all\<close>: the entries that remain and the pids woken.\<close>

fun wake_all_loop :: "WaitQueue \<Rightarrow> bool \<Rightarrow> WaitQueue \<times> u32 list" where
  "wake_all_loop [] exclusive_woken = ([], [])"
| "wake_all_loop (e # es) exclusive_woken =
     (case we_mode e of
        NonExclusive \<Rightarrow>
          let (remaining, pids) = wake_all_loop es exclusive_woken in (remaining, we_pid e # pids)
      | Exclusive \<Rightarrow>
          if \<not> exclusive_woken then
            let (remaining, pids) = wake_all_loop es True in (remaining, we_pid e # pids)
          else let (remaining, pids) = wake_all_loop es exclusive_woken in (e # remaining, pids))"

definition wake_all :: "WaitQueue \<Rightarrow> WaitQueue \<times> u32 list" where
  "wake_all q = wake_all_loop q False"

fun wake_n :: "WaitQueue \<Rightarrow> nat \<Rightarrow> WaitQueue \<times> u32 list" where
  "wake_n q 0 = (q, [])"
| "wake_n [] (Suc n) = ([], [])"
| "wake_n (e # es) (Suc n) = (let (q, pids) = wake_n es n in (q, we_pid e # pids))"

definition has_waiters :: "WaitQueue \<Rightarrow> bool" where "has_waiters q \<longleftrightarrow> q \<noteq> []"
definition WaitQueue_waiter_count :: "WaitQueue \<Rightarrow> nat" where "WaitQueue_waiter_count q = length q"
definition waiting_pids :: "WaitQueue \<Rightarrow> u32 list" where "waiting_pids q = map we_pid q"

lemma wake_one_eq: "wake_one q = (case q of [] \<Rightarrow> ([], None) | e # es \<Rightarrow> (es, Some (we_pid e)))"
  by (cases q) (simp_all add: wake_one_def)

abbreviation exclusive :: "WaitQueueEntry \<Rightarrow> bool" where "exclusive e \<equiv> we_mode e = Exclusive"

lemma wake_all_loop_eq:
  "wake_all_loop q True = (filter exclusive q, map we_pid (filter (\<lambda>e. \<not> exclusive e) q))"
proof (induction q)
  case (Cons e q)
  then show ?case by (cases "we_mode e") simp_all
qed simp

text \<open>What \<open>wake_all\<close> leaves: the exclusive waiters after the first.\<close>

lemma wake_all_rest: "fst (wake_all q) = tl (filter exclusive q)"
  unfolding wake_all_def
proof (induction q)
  case (Cons e q)
  then show ?case by (cases "we_mode e") (simp_all add: split_beta wake_all_loop_eq)
qed simp

lemma wake_all_woken:
  "mset (snd (wake_all q)) + mset (waiting_pids (fst (wake_all q))) = mset (waiting_pids q)"
proof -
  have t: "mset (snd (wake_all_loop q True)) + mset (waiting_pids (fst (wake_all_loop q True))) = mset (waiting_pids q)"
    for q
    unfolding wake_all_loop_eq waiting_pids_def
    by (induction q) (auto simp: ac_simps)
  show ?thesis
    unfolding wake_all_def
  proof (induction q)
    case (Cons e q)
    with t [of q] show ?case
      by (cases "we_mode e") (auto simp: split_beta waiting_pids_def ac_simps)
  qed (simp add: waiting_pids_def)
qed

lemma wake_n_eq: "wake_n q n = (drop n q, map we_pid (take n q))"
  by (induction q n rule: wake_n.induct) simp_all

section \<open>Completions\<close>

record Completion =
  comp_done :: bool
  comp_waiters :: WaitQueue

definition Completion_new :: Completion where
  "Completion_new = \<lparr>comp_done = False, comp_waiters = WaitQueue_new\<rparr>"

text \<open>Returns whether the caller goes to sleep.\<close>

definition Completion_wait :: "Completion \<Rightarrow> u32 \<Rightarrow> Completion \<times> bool" where
  "Completion_wait c pid =
     (if comp_done c then (c, False)
      else (c\<lparr>comp_waiters := WaitQueue_sleep (comp_waiters c) pid NonExclusive\<rparr>, True))"

definition complete :: "Completion \<Rightarrow> Completion \<times> u32 list" where
  "complete c = (let (q, pids) = wake_all (comp_waiters c) in (\<lparr>comp_done = True, comp_waiters = q\<rparr>, pids))"

definition complete_one :: "Completion \<Rightarrow> Completion \<times> u32 option" where
  "complete_one c = (let (q, pid) = wake_one (comp_waiters c) in (\<lparr>comp_done = True, comp_waiters = q\<rparr>, pid))"

definition Completion_reset :: "Completion \<Rightarrow> Completion" where
  "Completion_reset c = c\<lparr>comp_done := False\<rparr>"

definition is_done :: "Completion \<Rightarrow> bool" where "is_done c = comp_done c"

section \<open>Semaphores\<close>

record Semaphore =
  sem_count :: i32
  sem_waiters :: WaitQueue

definition Semaphore_new :: "i32 \<Rightarrow> Semaphore" where
  "Semaphore_new initial = \<lparr>sem_count = initial, sem_waiters = WaitQueue_new\<rparr>"

text \<open>The critical section of \<open>down\<close>, which is that of \<open>try_down\<close>.\<close>

definition try_down :: "Semaphore \<Rightarrow> Semaphore \<times> bool" where
  "try_down s = (if sem_count s > 0 then (s\<lparr>sem_count := wrap_i32 (sem_count s - 1)\<rparr>, True) else (s, False))"

definition sem_sleep :: "Semaphore \<Rightarrow> u32 \<Rightarrow> Semaphore" where
  "sem_sleep s pid = s\<lparr>sem_waiters := WaitQueue_sleep (sem_waiters s) pid Exclusive\<rparr>"

text \<open>The two critical sections of \<open>up\<close>.\<close>

definition up_count :: "Semaphore \<Rightarrow> Semaphore" where
  "up_count s = s\<lparr>sem_count := wrap_i32 (sem_count s + 1)\<rparr>"

definition up_wake :: "Semaphore \<Rightarrow> Semaphore \<times> u32 option" where
  "up_wake s = (let (q, pid) = wake_one (sem_waiters s) in (s\<lparr>sem_waiters := q\<rparr>, pid))"

text \<open>
  Where a process is in \<open>down\<close> and \<open>up\<close>: not using the semaphore, at the head of the loop of
  \<open>down\<close>, having found the count at zero, having entered the queue, asleep, holding a unit, and
  between the two sections of \<open>up\<close>.
\<close>

datatype sem_pc = SIdle | SLoop | SFailed | SQueued | SAsleep | SHolds | SRaised

record SemSys =
  the_sem :: Semaphore
  sem_pc :: "u32 \<Rightarrow> sem_pc"

definition wake_pc :: "u32 option \<Rightarrow> (u32 \<Rightarrow> sem_pc) \<Rightarrow> (u32 \<Rightarrow> sem_pc)" where
  "wake_pc w pc = (case w of None \<Rightarrow> pc | Some p \<Rightarrow> if pc p = SAsleep then pc(p := SLoop) else pc)"

inductive sem_step :: "SemSys \<Rightarrow> SemSys \<Rightarrow> bool" where
  enter: "sem_pc s p = SIdle \<Longrightarrow> sem_step s (s\<lparr>sem_pc := (sem_pc s)(p := SLoop)\<rparr>)"
| take: "sem_pc s p = SLoop \<Longrightarrow> try_down (the_sem s) = (m, True) \<Longrightarrow>
    sem_step s \<lparr>the_sem = m, sem_pc = (sem_pc s)(p := SHolds)\<rparr>"
| fail: "sem_pc s p = SLoop \<Longrightarrow> try_down (the_sem s) = (m, False) \<Longrightarrow>
    sem_step s \<lparr>the_sem = m, sem_pc = (sem_pc s)(p := SFailed)\<rparr>"
| enqueue: "sem_pc s p = SFailed \<Longrightarrow>
    sem_step s \<lparr>the_sem = sem_sleep (the_sem s) p, sem_pc = (sem_pc s)(p := SQueued)\<rparr>"
| sleep: "sem_pc s p = SQueued \<Longrightarrow> sem_step s (s\<lparr>sem_pc := (sem_pc s)(p := SAsleep)\<rparr>)"
| raise: "sem_pc s p = SHolds \<Longrightarrow>
    sem_step s \<lparr>the_sem = up_count (the_sem s), sem_pc = (sem_pc s)(p := SRaised)\<rparr>"
| wake: "sem_pc s p = SRaised \<Longrightarrow> up_wake (the_sem s) = (m, w) \<Longrightarrow>
    sem_step s \<lparr>the_sem = m, sem_pc = wake_pc w ((sem_pc s)(p := SIdle))\<rparr>"

definition sem_start :: "i32 \<Rightarrow> SemSys" where
  "sem_start n = \<lparr>the_sem = Semaphore_new n, sem_pc = (\<lambda>_. SIdle)\<rparr>"

definition sem_holders :: "SemSys \<Rightarrow> u32 set" where
  "sem_holders s = {p. sem_pc s p = SHolds}"

text \<open>Every unit is either in the count or held.\<close>

definition sem_inv :: "i32 \<Rightarrow> SemSys \<Rightarrow> bool" where
  "sem_inv n s \<longleftrightarrow> 0 \<le> sem_count (the_sem s) \<and> sem_count (the_sem s) + int (card (sem_holders s)) = n"

lemma wake_pc_holds: "wake_pc w pc p = SHolds \<longleftrightarrow> pc p = SHolds"
  by (auto simp: wake_pc_def split: option.splits)

lemma sem_step_inv:
  assumes "sem_step s s'" and "sem_inv n s" and "n < 2 ^ 31"
  shows "sem_inv n s'"
  using assms(1)
proof cases
  case (take p m)
  have "sem_holders s' = insert p (sem_holders s)" "p \<notin> sem_holders s"
    using take by (auto simp: sem_holders_def)
  then have "card (sem_holders s') = Suc (card (sem_holders s))" by simp
  with take assms(2,3) show ?thesis
    by (auto simp: sem_inv_def try_down_def split: if_splits)
next
  case (raise p)
  have h: "sem_holders s' = sem_holders s - {p}" "p \<in> sem_holders s"
    using raise by (auto simp: sem_holders_def)
  then have "card (sem_holders s) = Suc (card (sem_holders s'))" by (simp add: card_Suc_Diff1 del: card_Diff_insert)
  with raise assms(2,3) show ?thesis by (auto simp: sem_inv_def up_count_def)
next
  case (wake p m w)
  have "sem_holders s' = sem_holders s"
    using wake by (auto simp: sem_holders_def wake_pc_holds)
  with wake assms(2) show ?thesis by (auto simp: sem_inv_def up_wake_def split: prod.splits)
qed (use assms(2) in \<open>auto simp: sem_inv_def sem_holders_def try_down_def sem_sleep_def split: if_splits
       intro!: arg_cong [where f = card]\<close>)

lemma sem_reach_inv:
  assumes "sem_step\<^sup>*\<^sup>* (sem_start n) s" and "0 \<le> n" and "n < 2 ^ 31"
  shows "sem_inv n s"
  using assms(1)
proof (induction rule: rtranclp_induct)
  case base
  with assms(2) show ?case by (simp add: sem_inv_def sem_start_def Semaphore_new_def sem_holders_def)
qed (use assms(3) sem_step_inv in blast)

section \<open>Read-write semaphores\<close>

record RwSemaphore =
  rw_state :: i32
  read_waiters :: WaitQueue
  write_waiters :: WaitQueue

definition RwSemaphore_new :: RwSemaphore where
  "RwSemaphore_new = \<lparr>rw_state = 0, read_waiters = WaitQueue_new, write_waiters = WaitQueue_new\<rparr>"

text \<open>The critical sections of \<open>read_lock\<close>, \<open>read_unlock\<close>, \<open>write_lock\<close> and \<open>write_unlock\<close>.\<close>

definition read_try :: "RwSemaphore \<Rightarrow> RwSemaphore \<times> bool" where
  "read_try s = (if rw_state s \<ge> 0 then (s\<lparr>rw_state := wrap_i32 (rw_state s + 1)\<rparr>, True) else (s, False))"

definition read_sleep :: "RwSemaphore \<Rightarrow> u32 \<Rightarrow> RwSemaphore" where
  "read_sleep s pid = s\<lparr>read_waiters := WaitQueue_sleep (read_waiters s) pid NonExclusive\<rparr>"

definition read_drop :: "RwSemaphore \<Rightarrow> RwSemaphore \<times> bool" where
  "read_drop s = (let st = wrap_i32 (rw_state s - 1) in (s\<lparr>rw_state := st\<rparr>, st = 0))"

definition wake_writer :: "RwSemaphore \<Rightarrow> RwSemaphore \<times> u32 list" where
  "wake_writer s = (case wake_one (write_waiters s) of
      (q, None) \<Rightarrow> (s\<lparr>write_waiters := q\<rparr>, []) | (q, Some p) \<Rightarrow> (s\<lparr>write_waiters := q\<rparr>, [p]))"

definition write_try :: "RwSemaphore \<Rightarrow> RwSemaphore \<times> bool" where
  "write_try s = (if rw_state s = 0 then (s\<lparr>rw_state := - 1\<rparr>, True) else (s, False))"

definition write_sleep :: "RwSemaphore \<Rightarrow> u32 \<Rightarrow> RwSemaphore" where
  "write_sleep s pid = s\<lparr>write_waiters := WaitQueue_sleep (write_waiters s) pid Exclusive\<rparr>"

definition write_drop :: "RwSemaphore \<Rightarrow> RwSemaphore" where
  "write_drop s = s\<lparr>rw_state := 0\<rparr>"

definition write_wake :: "RwSemaphore \<Rightarrow> RwSemaphore \<times> u32 list" where
  "write_wake s = (if has_waiters (read_waiters s)
     then let (q, pids) = wake_all (read_waiters s) in (s\<lparr>read_waiters := q\<rparr>, pids)
     else wake_writer s)"

text \<open>
  Where a process is: outside, in the loop of \<open>read_lock\<close> (at its head, refused, queued,
  asleep), reading, having dropped the last read lock, and the same for writing.
\<close>

datatype rw_pc = Outside | RLoop | RFailed | RQueued | RAsleep | Reading | RDropped
  | WLoop | WFailed | WQueued | WAsleep | Writing | WDropped

record RwSys =
  the_rw :: RwSemaphore
  rw_pc :: "u32 \<Rightarrow> rw_pc"

definition rw_wake :: "u32 list \<Rightarrow> (u32 \<Rightarrow> rw_pc) \<Rightarrow> (u32 \<Rightarrow> rw_pc)" where
  "rw_wake pids pc = (\<lambda>p. if p \<in> set pids \<and> pc p = RAsleep then RLoop
     else if p \<in> set pids \<and> pc p = WAsleep then WLoop else pc p)"

text \<open>The processes that use the lock are those of the set \<open>P\<close>.\<close>

inductive rw_step :: "u32 set \<Rightarrow> RwSys \<Rightarrow> RwSys \<Rightarrow> bool" for P where
  r_enter: "p \<in> P \<Longrightarrow> rw_pc s p = Outside \<Longrightarrow> rw_step P s (s\<lparr>rw_pc := (rw_pc s)(p := RLoop)\<rparr>)"
| r_take: "rw_pc s p = RLoop \<Longrightarrow> read_try (the_rw s) = (m, True) \<Longrightarrow>
    rw_step P s \<lparr>the_rw = m, rw_pc = (rw_pc s)(p := Reading)\<rparr>"
| r_fail: "rw_pc s p = RLoop \<Longrightarrow> read_try (the_rw s) = (m, False) \<Longrightarrow>
    rw_step P s \<lparr>the_rw = m, rw_pc = (rw_pc s)(p := RFailed)\<rparr>"
| r_enqueue: "rw_pc s p = RFailed \<Longrightarrow>
    rw_step P s \<lparr>the_rw = read_sleep (the_rw s) p, rw_pc = (rw_pc s)(p := RQueued)\<rparr>"
| r_sleep: "rw_pc s p = RQueued \<Longrightarrow> rw_step P s (s\<lparr>rw_pc := (rw_pc s)(p := RAsleep)\<rparr>)"
| r_drop: "rw_pc s p = Reading \<Longrightarrow> read_drop (the_rw s) = (m, last_reader) \<Longrightarrow>
    rw_step P s \<lparr>the_rw = m, rw_pc = (rw_pc s)(p := if last_reader then RDropped else Outside)\<rparr>"
| r_wake: "rw_pc s p = RDropped \<Longrightarrow> wake_writer (the_rw s) = (m, pids) \<Longrightarrow>
    rw_step P s \<lparr>the_rw = m, rw_pc = rw_wake pids ((rw_pc s)(p := Outside))\<rparr>"
| w_enter: "p \<in> P \<Longrightarrow> rw_pc s p = Outside \<Longrightarrow> rw_step P s (s\<lparr>rw_pc := (rw_pc s)(p := WLoop)\<rparr>)"
| w_take: "rw_pc s p = WLoop \<Longrightarrow> write_try (the_rw s) = (m, True) \<Longrightarrow>
    rw_step P s \<lparr>the_rw = m, rw_pc = (rw_pc s)(p := Writing)\<rparr>"
| w_fail: "rw_pc s p = WLoop \<Longrightarrow> write_try (the_rw s) = (m, False) \<Longrightarrow>
    rw_step P s \<lparr>the_rw = m, rw_pc = (rw_pc s)(p := WFailed)\<rparr>"
| w_enqueue: "rw_pc s p = WFailed \<Longrightarrow>
    rw_step P s \<lparr>the_rw = write_sleep (the_rw s) p, rw_pc = (rw_pc s)(p := WQueued)\<rparr>"
| w_sleep: "rw_pc s p = WQueued \<Longrightarrow> rw_step P s (s\<lparr>rw_pc := (rw_pc s)(p := WAsleep)\<rparr>)"
| w_drop: "rw_pc s p = Writing \<Longrightarrow>
    rw_step P s \<lparr>the_rw = write_drop (the_rw s), rw_pc = (rw_pc s)(p := WDropped)\<rparr>"
| w_wake: "rw_pc s p = WDropped \<Longrightarrow> write_wake (the_rw s) = (m, pids) \<Longrightarrow>
    rw_step P s \<lparr>the_rw = m, rw_pc = rw_wake pids ((rw_pc s)(p := Outside))\<rparr>"

definition rw_start :: RwSys where
  "rw_start = \<lparr>the_rw = RwSemaphore_new, rw_pc = (\<lambda>_. Outside)\<rparr>"

definition readers :: "RwSys \<Rightarrow> u32 set" where "readers s = {p. rw_pc s p = Reading}"
definition writers :: "RwSys \<Rightarrow> u32 set" where "writers s = {p. rw_pc s p = Writing}"

definition rw_inv :: "u32 set \<Rightarrow> RwSys \<Rightarrow> bool" where
  "rw_inv P s \<longleftrightarrow> {p. rw_pc s p \<noteq> Outside} \<subseteq> P
     \<and> (rw_state (the_rw s) = - 1 \<and> readers s = {} \<and> (\<exists>p. writers s = {p})
        \<or> rw_state (the_rw s) = int (card (readers s)) \<and> writers s = {})"

lemma rw_wake_same:
  "rw_wake pids pc p = Reading \<longleftrightarrow> pc p = Reading" "rw_wake pids pc p = Writing \<longleftrightarrow> pc p = Writing"
  "rw_wake pids pc p = Outside \<longleftrightarrow> pc p = Outside"
  by (auto simp: rw_wake_def)

text \<open>Steps that change neither the state word nor who reads and writes.\<close>

lemma rw_inv_move:
  assumes "rw_inv P s" and "rw_state m = rw_state (the_rw s)"
    and "rw_pc s p \<noteq> Reading" "rw_pc s p \<noteq> Writing" "c \<noteq> Reading" "c \<noteq> Writing" "p \<in> P"
  shows "rw_inv P \<lparr>the_rw = m, rw_pc = (rw_pc s)(p := c)\<rparr>"
proof -
  let ?s = "\<lparr>the_rw = m, rw_pc = (rw_pc s)(p := c)\<rparr>"
  have "readers ?s = readers s" "writers ?s = writers s"
    using assms(3-6) by (auto simp: readers_def writers_def)
  moreover have "{q. rw_pc ?s q \<noteq> Outside} \<subseteq> P" using assms(1,7) by (auto simp: rw_inv_def)
  ultimately show ?thesis using assms(1,2) by (simp add: rw_inv_def)
qed

lemma rw_inv_wake:
  assumes "rw_inv P \<lparr>the_rw = m, rw_pc = pc\<rparr>"
  shows "rw_inv P \<lparr>the_rw = m, rw_pc = rw_wake pids pc\<rparr>"
proof -
  let ?s = "\<lparr>the_rw = m, rw_pc = pc\<rparr>" and ?s' = "\<lparr>the_rw = m, rw_pc = rw_wake pids pc\<rparr>"
  have "readers ?s' = readers ?s" "writers ?s' = writers ?s" "{q. rw_pc ?s' q \<noteq> Outside} = {q. rw_pc ?s q \<noteq> Outside}"
    by (simp_all add: readers_def writers_def rw_wake_same)
  then show ?thesis using assms by (simp add: rw_inv_def)
qed

lemma wake_writer_state: "wake_writer s = (m, pids) \<Longrightarrow> rw_state m = rw_state s"
  by (auto simp: wake_writer_def split: prod.splits option.splits)

lemma write_wake_state: "write_wake s = (m, pids) \<Longrightarrow> rw_state m = rw_state s"
  by (auto simp: write_wake_def wake_writer_state split: if_splits prod.splits)

lemma rw_step_inv:
  assumes "rw_step P s s'" and inv: "rw_inv P s" and "card P < 2 ^ 31"
  shows "rw_inv P s'"
proof -
  have P: "rw_pc s p \<noteq> Outside \<Longrightarrow> p \<in> P" for p using inv by (auto simp: rw_inv_def)
  have fin: "card (readers s) \<le> card P"
    by (rule card_mono) (auto simp: readers_def intro: P)
  have move: "rw_inv P \<lparr>the_rw = m, rw_pc = (rw_pc s)(p := c)\<rparr>"
    if "rw_state m = rw_state (the_rw s)" "rw_pc s p = c'" "c' \<noteq> Reading" "c' \<noteq> Writing" "c' \<noteq> Outside"
      "c \<noteq> Reading" "c \<noteq> Writing" for m p c c'
    using rw_inv_move [OF inv that(1)] that P by simp
  have upd: "s\<lparr>rw_pc := pc\<rparr> = \<lparr>the_rw = the_rw s, rw_pc = pc\<rparr>" for pc by (cases s) simp
  from assms(1) show ?thesis
  proof cases
    case (r_take p m)
    have r: "readers s' = insert p (readers s)" "p \<notin> readers s" "writers s' = writers s"
      using r_take by (auto simp: readers_def writers_def)
    have c: "card (readers s') = Suc (card (readers s))" using r by simp
    moreover have "card (readers s') \<le> card P"
      using r r_take P by (intro card_mono) (auto simp: readers_def)
    moreover have "{q. rw_pc s' q \<noteq> Outside} \<subseteq> P" using r_take P by auto
    ultimately show ?thesis
      using r_take inv r assms(3) by (auto simp: rw_inv_def read_try_def split: if_splits)
  next
    case (r_drop p m last_reader)
    have r: "readers s' = readers s - {p}" "p \<in> readers s" "writers s' = writers s"
      using r_drop by (auto simp: readers_def writers_def split: if_splits)
    have c: "card (readers s) = Suc (card (readers s'))"
      unfolding r(1) using r(2) by (intro card_Suc_Diff1 [symmetric]) simp
    moreover have "{q. rw_pc s' q \<noteq> Outside} \<subseteq> P" using r_drop P by (auto split: if_splits)
    moreover have "rw_state (the_rw s) = int (card (readers s))" "writers s = {}"
      using inv r(2) by (auto simp: rw_inv_def)
    moreover have "rw_state (the_rw s') = wrap_i32 (rw_state (the_rw s) - 1)"
      using r_drop by (auto simp: read_drop_def Let_def)
    then have "rw_state (the_rw s') = int (card (readers s'))"
      using c fin assms(3) \<open>rw_state (the_rw s) = int (card (readers s))\<close> by simp
    ultimately show ?thesis using r(3) by (simp add: rw_inv_def)
  next
    case (w_take p m)
    have "readers s' = readers s" "writers s' = insert p (writers s)"
      using w_take by (auto simp: readers_def writers_def)
    moreover have "{q. rw_pc s' q \<noteq> Outside} \<subseteq> P" using w_take P by auto
    ultimately show ?thesis
      using w_take inv by (auto simp: rw_inv_def write_try_def split: if_splits)
  next
    case (w_drop p)
    have "readers s' = readers s" "writers s' = writers s - {p}" "p \<in> writers s"
      using w_drop by (auto simp: readers_def writers_def)
    moreover have "{q. rw_pc s' q \<noteq> Outside} \<subseteq> P" using w_drop P by auto
    ultimately show ?thesis
      using w_drop inv by (auto simp: rw_inv_def write_drop_def)
  next
    case (r_enter p)
    with rw_inv_move [OF inv refl, of p RLoop] show ?thesis by (simp add: upd)
  next
    case (w_enter p)
    with rw_inv_move [OF inv refl, of p WLoop] show ?thesis by (simp add: upd)
  next
    case (r_sleep p)
    with move [OF refl, of p RQueued RAsleep] show ?thesis by (simp add: upd)
  next
    case (w_sleep p)
    with move [OF refl, of p WQueued WAsleep] show ?thesis by (simp add: upd)
  next
    case (r_wake p m pids)
    with move [OF wake_writer_state, of m pids p RDropped Outside] show ?thesis by (simp add: rw_inv_wake)
  next
    case (w_wake p m pids)
    with move [OF write_wake_state, of m pids p WDropped Outside] show ?thesis by (simp add: rw_inv_wake)
  next
    case (r_fail p m)
    with move [of m p RLoop RFailed] show ?thesis by (auto simp: read_try_def split: if_splits)
  next
    case (w_fail p m)
    with move [of m p WLoop WFailed] show ?thesis by (auto simp: write_try_def split: if_splits)
  next
    case (r_enqueue p)
    with move [of "read_sleep (the_rw s) p" p RFailed RQueued] show ?thesis by (simp add: read_sleep_def)
  next
    case (w_enqueue p)
    with move [of "write_sleep (the_rw s) p" p WFailed WQueued] show ?thesis by (simp add: write_sleep_def)
  qed
qed

lemma rw_reach_inv:
  assumes "(rw_step P)\<^sup>*\<^sup>* rw_start s" and "card P < 2 ^ 31"
  shows "rw_inv P s"
  using assms(1)
proof (induction rule: rtranclp_induct)
  case base
  show ?case by (simp add: rw_inv_def rw_start_def RwSemaphore_new_def readers_def writers_def)
qed (use assms(2) rw_step_inv in blast)

section \<open>Properties\<close>

text \<open>C19: A semaphore started with \<open>n\<close> units never grants more than \<open>n\<close> of them, in any
  interleaving of the critical sections of \<open>down\<close> and \<open>up\<close>: the units held and the units
  counted always add up to \<open>n\<close>, and the count is never negative.\<close>

theorem semaphore_bounds_holders:
  assumes "sem_step\<^sup>*\<^sup>* (sem_start n) s" and "0 \<le> n" and "n < 2 ^ 31"
  shows "int (card (sem_holders s)) \<le> n \<and> 0 \<le> sem_count (the_sem s)
    \<and> sem_count (the_sem s) = n - int (card (sem_holders s))"
  using sem_reach_inv [OF assms] by (auto simp: sem_inv_def)

theorem semaphore_bounds_holders_witness:
  "int (card (sem_holders \<lparr>the_sem = \<lparr>sem_count = 0, sem_waiters = []\<rparr>, sem_pc = (\<lambda>_. SIdle)(7 := SHolds)\<rparr>)) \<le> 1"
proof -
  let ?s1 = "(sem_start 1)\<lparr>sem_pc := (sem_pc (sem_start 1))(7 := SLoop)\<rparr>"
  let ?s2 = "\<lparr>the_sem = \<lparr>sem_count = 0, sem_waiters = []\<rparr>, sem_pc = (\<lambda>_. SIdle)(7 := SHolds)\<rparr>"
  have "sem_step (sem_start 1) ?s1" by (rule enter) (simp add: sem_start_def)
  moreover have "sem_step ?s1 ?s2"
    using take [of ?s1 7 "\<lparr>sem_count = 0, sem_waiters = []\<rparr>"]
    by (simp add: sem_start_def Semaphore_new_def WaitQueue_new_def try_down_def)
  ultimately have "sem_step\<^sup>*\<^sup>* (sem_start 1) ?s2" by (meson converse_rtranclp_into_rtranclp rtranclp.rtrancl_refl)
  from semaphore_bounds_holders [OF this] show ?thesis by simp
qed

text \<open>C18: A read-write semaphore excludes: in any interleaving, while a process writes no other
  process writes and none reads; and the state word is \<open>-1\<close> while a process writes and the
  number of readers otherwise (for fewer than \<open>2^31\<close> processes).\<close>

theorem rwsemaphore_excludes:
  assumes "(rw_step P)\<^sup>*\<^sup>* rw_start s" and "card P < 2 ^ 31"
  shows "card (writers s) \<le> 1 \<and> (writers s = {} \<or> readers s = {})
    \<and> rw_state (the_rw s) = (if writers s = {} then int (card (readers s)) else - 1)"
  using rw_reach_inv [OF assms] by (auto simp: rw_inv_def)

theorem rwsemaphore_excludes_witness:
  "card (writers \<lparr>the_rw = \<lparr>rw_state = - 1, read_waiters = [], write_waiters = []\<rparr>,
      rw_pc = (\<lambda>_. Outside)(7 := Writing)\<rparr>) \<le> 1"
proof -
  let ?s1 = "rw_start\<lparr>rw_pc := (rw_pc rw_start)(7 := WLoop)\<rparr>"
  let ?s2 = "\<lparr>the_rw = \<lparr>rw_state = - 1, read_waiters = [], write_waiters = []\<rparr>,
      rw_pc = (\<lambda>_. Outside)(7 := Writing)\<rparr>"
  have "rw_step {7} rw_start ?s1" by (rule w_enter) (simp_all add: rw_start_def)
  moreover have "rw_step {7} ?s1 ?s2"
    using w_take [of ?s1 7 "\<lparr>rw_state = - 1, read_waiters = [], write_waiters = []\<rparr>" "{7}"]
    by (simp add: rw_start_def RwSemaphore_new_def WaitQueue_new_def write_try_def)
  ultimately have "(rw_step {7})\<^sup>*\<^sup>* rw_start ?s2" by (meson converse_rtranclp_into_rtranclp rtranclp.rtrancl_refl)
  from rwsemaphore_excludes [OF this] show ?thesis by simp
qed

text \<open>
  A wake-up can be lost: \<open>down\<close> releases the count before it enters the queue, so an \<open>up\<close> that
  falls in between finds nobody to wake. The process then sleeps although a unit is free and
  no other process uses the semaphore.
\<close>

lemma semaphore_lost_wakeup:
  "sem_step\<^sup>*\<^sup>* (sem_start 1) \<lparr>the_sem = \<lparr>sem_count = 1, sem_waiters = [\<lparr>we_pid = 2, we_mode = Exclusive,
     we_signaled = False\<rparr>]\<rparr>, sem_pc = (\<lambda>_. SIdle)(2 := SAsleep)\<rparr>"
proof -
  let ?m0 = "\<lparr>sem_count = 0, sem_waiters = []\<rparr>" and ?m1 = "\<lparr>sem_count = 1, sem_waiters = []\<rparr>"
  let ?q = "\<lparr>sem_count = 1, sem_waiters = [\<lparr>we_pid = 2, we_mode = Exclusive, we_signaled = False\<rparr>]\<rparr>"
  let ?st = "\<lambda>m a b. \<lparr>the_sem = m, sem_pc = (\<lambda>_. SIdle)(1 := a, 2 := b)\<rparr>"
  have start: "sem_start 1 = ?st ?m1 SIdle SIdle"
    by (simp add: sem_start_def Semaphore_new_def WaitQueue_new_def fun_eq_iff)
  note evals = try_down_def up_count_def up_wake_def sem_sleep_def WaitQueue_sleep_def wake_one_eq wake_pc_def
  have 1: "sem_step (?st ?m1 SIdle SIdle) (?st ?m1 SLoop SIdle)"
    using enter [of "?st ?m1 SIdle SIdle" 1] by (simp add: fun_upd_twist fun_upd_upd)
  have 2: "sem_step (?st ?m1 SLoop SIdle) (?st ?m0 SHolds SIdle)"
    using take [of "?st ?m1 SLoop SIdle" 1 ?m0] by (simp add: evals fun_upd_twist)
  have 3: "sem_step (?st ?m0 SHolds SIdle) (?st ?m0 SHolds SLoop)"
    using enter [of "?st ?m0 SHolds SIdle" 2] by simp
  have 4: "sem_step (?st ?m0 SHolds SLoop) (?st ?m0 SHolds SFailed)"
    using fail [of "?st ?m0 SHolds SLoop" 2 ?m0] by (simp add: evals)
  have 5: "sem_step (?st ?m0 SHolds SFailed) (?st ?m1 SRaised SFailed)"
    using raise [of "?st ?m0 SHolds SFailed" 1] by (simp add: evals fun_upd_twist)
  have 6: "sem_step (?st ?m1 SRaised SFailed) (?st ?m1 SIdle SFailed)"
    using wake [of "?st ?m1 SRaised SFailed" 1 ?m1 None] by (simp add: evals fun_upd_twist)
  have 7: "sem_step (?st ?m1 SIdle SFailed) (?st ?q SIdle SQueued)"
    using enqueue [of "?st ?m1 SIdle SFailed" 2] by (simp add: evals)
  have 8: "sem_step (?st ?q SIdle SQueued) (?st ?q SIdle SAsleep)"
    using sleep [of "?st ?q SIdle SQueued" 2] by simp
  note cons = converse_rtranclp_into_rtranclp
  have "sem_step\<^sup>*\<^sup>* (sem_start 1) (?st ?q SIdle SAsleep)" unfolding start
    by (rule cons [OF 1 cons [OF 2 cons [OF 3 cons [OF 4 cons [OF 5 cons [OF 6 cons [OF 7
            r_into_rtranclp [of sem_step, OF 8]]]]]]]])
  moreover have "(\<lambda>_ :: u32. SIdle)(1 := SIdle, 2 := SAsleep) = (\<lambda>_. SIdle)(2 := SAsleep)" by (simp add: fun_eq_iff)
  ultimately show ?thesis by simp
qed

end
