(* ===== verification/Rlimit.thy ===== *)
theory Rlimit
  imports Btree
begin

text \<open>
  \<open>src/kernel/src/sched/rlimit.rs\<close>: the soft and hard resource limits of each process. The
  effective uid of the caller, which the source reads from \<open>crate::users\<close>, is an argument.
\<close>

section \<open>Data\<close>

definition RLIM_INFINITY :: u64 where "RLIM_INFINITY = - 1"

datatype Resource = Cpu | Fsize | Data | Stack | Core | Rss | Nproc | Nofile | Memlock | As | Locks
  | Sigpending | Msgqueue | Nice | Rtprio | Rttime

primrec Resource_as_u32 :: "Resource \<Rightarrow> u32" where
  "Resource_as_u32 Cpu = 0" | "Resource_as_u32 Fsize = 1" | "Resource_as_u32 Data = 2"
| "Resource_as_u32 Stack = 3" | "Resource_as_u32 Core = 4" | "Resource_as_u32 Rss = 5"
| "Resource_as_u32 Nproc = 6" | "Resource_as_u32 Nofile = 7" | "Resource_as_u32 Memlock = 8"
| "Resource_as_u32 As = 9" | "Resource_as_u32 Locks = 10" | "Resource_as_u32 Sigpending = 11"
| "Resource_as_u32 Msgqueue = 12" | "Resource_as_u32 Nice = 13" | "Resource_as_u32 Rtprio = 14"
| "Resource_as_u32 Rttime = 15"

definition Resource_from_u32 :: "u32 \<Rightarrow> Resource option" where
  "Resource_from_u32 val =
     (if val = 0 then Some Cpu else if val = 1 then Some Fsize else if val = 2 then Some Data
      else if val = 3 then Some Stack else if val = 4 then Some Core else if val = 5 then Some Rss
      else if val = 6 then Some Nproc else if val = 7 then Some Nofile else if val = 8 then Some Memlock
      else if val = 9 then Some As else if val = 10 then Some Locks else if val = 11 then Some Sigpending
      else if val = 12 then Some Msgqueue else if val = 13 then Some Nice else if val = 14 then Some Rtprio
      else if val = 15 then Some Rttime else None)"

record Rlimit =
  rlim_cur :: u64
  rlim_max :: u64

definition Rlimit_new :: "u64 \<Rightarrow> u64 \<Rightarrow> Rlimit" where
  "Rlimit_new soft hard = \<lparr>rlim_cur = soft, rlim_max = hard\<rparr>"

definition Rlimit_unlimited :: Rlimit where
  "Rlimit_unlimited = \<lparr>rlim_cur = RLIM_INFINITY, rlim_max = RLIM_INFINITY\<rparr>"

type_synonym ProcessLimits = "(u32, Rlimit) btree"

definition ProcessLimits_new :: ProcessLimits where
  "ProcessLimits_new = fold (\<lambda>(r, l) m. bt_insert (Resource_as_u32 r) l m)
     [(Cpu, Rlimit_unlimited), (Fsize, Rlimit_unlimited), (Data, Rlimit_unlimited),
      (Stack, Rlimit_new (8 * 1024 * 1024) RLIM_INFINITY), (Core, Rlimit_new 0 RLIM_INFINITY),
      (Rss, Rlimit_unlimited), (Nproc, Rlimit_new 4096 4096), (Nofile, Rlimit_new 1024 4096),
      (Memlock, Rlimit_new 65536 65536), (As, Rlimit_unlimited), (Locks, Rlimit_unlimited),
      (Sigpending, Rlimit_new 4096 4096), (Msgqueue, Rlimit_new 819200 819200),
      (Nice, Rlimit_new 0 0), (Rtprio, Rlimit_new 0 0), (Rttime, Rlimit_unlimited)] []"

definition ProcessLimits_get :: "ProcessLimits \<Rightarrow> Resource \<Rightarrow> Rlimit" where
  "ProcessLimits_get ls resource =
     (case bt_get ls (Resource_as_u32 resource) of None \<Rightarrow> Rlimit_unlimited | Some l \<Rightarrow> l)"

definition ProcessLimits_set ::
  "ProcessLimits \<Rightarrow> u32 \<Rightarrow> Resource \<Rightarrow> Rlimit \<Rightarrow> ProcessLimits \<times> (errno + unit)" where
  "ProcessLimits_set ls uid resource limit =
     (if (case bt_get ls (Resource_as_u32 resource) of
            None \<Rightarrow> False | Some current \<Rightarrow> rlim_max limit > rlim_max current \<and> uid \<noteq> 0)
      then (ls, Inl EPERM)
      else if rlim_cur limit > rlim_max limit then (ls, Inl EINVAL)
      else (bt_insert (Resource_as_u32 resource) limit ls, Inr ()))"

definition ProcessLimits_check :: "ProcessLimits \<Rightarrow> Resource \<Rightarrow> u64 \<Rightarrow> bool" where
  "ProcessLimits_check ls resource value =
     (let limit = ProcessLimits_get ls resource in
      if rlim_cur limit = RLIM_INFINITY then True else value \<le> rlim_cur limit)"

section \<open>The table of processes\<close>

type_synonym limits_table = "(u32, ProcessLimits) btree"

definition init_process :: "limits_table \<Rightarrow> u32 \<Rightarrow> limits_table" where
  "init_process t pid = bt_insert pid ProcessLimits_new t"

definition cleanup_process :: "limits_table \<Rightarrow> u32 \<Rightarrow> limits_table" where
  "cleanup_process t pid = bt_remove pid t"

definition inherit_limits :: "limits_table \<Rightarrow> u32 \<Rightarrow> u32 \<Rightarrow> limits_table" where
  "inherit_limits t parent_pid child_pid =
     (case bt_get t parent_pid of
        Some ls \<Rightarrow> bt_insert child_pid ls t | None \<Rightarrow> bt_insert child_pid ProcessLimits_new t)"

definition getrlimit :: "limits_table \<Rightarrow> u32 \<Rightarrow> u32 \<Rightarrow> errno + Rlimit" where
  "getrlimit t pid resource =
     (case Resource_from_u32 resource of
        None \<Rightarrow> Inl EINVAL
      | Some res \<Rightarrow>
          (case bt_get t pid of
             Some ls \<Rightarrow> Inr (ProcessLimits_get ls res)
           | None \<Rightarrow> Inr (ProcessLimits_get ProcessLimits_new res)))"

definition setrlimit :: "limits_table \<Rightarrow> u32 \<Rightarrow> u32 \<Rightarrow> u32 \<Rightarrow> Rlimit \<Rightarrow> limits_table \<times> (errno + unit)" where
  "setrlimit t uid pid resource new_limit =
     (case Resource_from_u32 resource of
        None \<Rightarrow> (t, Inl EINVAL)
      | Some res \<Rightarrow>
          let ls = (case bt_get t pid of None \<Rightarrow> ProcessLimits_new | Some ls \<Rightarrow> ls);
              (ls', r) = ProcessLimits_set ls uid res new_limit in
          (bt_insert pid ls' t, r))"

definition prlimit64 ::
  "limits_table \<Rightarrow> u32 \<Rightarrow> u32 \<Rightarrow> u32 \<Rightarrow> Rlimit option \<Rightarrow> Rlimit option
   \<Rightarrow> limits_table \<times> Rlimit option \<times> (errno + unit)" where
  "prlimit64 t uid pid resource new_limit old_limit =
     (case Resource_from_u32 resource of
        None \<Rightarrow> (t, old_limit, Inl EINVAL)
      | Some res \<Rightarrow>
          let ls = (case bt_get t pid of None \<Rightarrow> ProcessLimits_new | Some ls \<Rightarrow> ls);
              old = Some (ProcessLimits_get ls res) in
          (case new_limit of
             None \<Rightarrow> (bt_insert pid ls t, old, Inr ())
           | Some new \<Rightarrow>
               let (ls', r) = ProcessLimits_set ls uid res new in (bt_insert pid ls' t, old, r)))"

definition check_memlock :: "limits_table \<Rightarrow> u32 \<Rightarrow> u64 \<Rightarrow> bool" where
  "check_memlock t pid bytes =
     (case bt_get t pid of
        Some ls \<Rightarrow> ProcessLimits_check ls Memlock bytes
      | None \<Rightarrow> ProcessLimits_check ProcessLimits_new Memlock bytes)"

definition check_nofile :: "limits_table \<Rightarrow> u32 \<Rightarrow> u64 \<Rightarrow> bool" where
  "check_nofile t pid current_count =
     (case bt_get t pid of Some ls \<Rightarrow> ProcessLimits_check ls Nofile current_count | None \<Rightarrow> True)"

definition check_nproc :: "limits_table \<Rightarrow> u32 \<Rightarrow> u64 \<Rightarrow> bool" where
  "check_nproc t pid current_count =
     (case bt_get t pid of Some ls \<Rightarrow> ProcessLimits_check ls Nproc current_count | None \<Rightarrow> True)"

definition rlimit_init :: limits_table where
  "rlimit_init = init_process [] 1"

section \<open>Soft limits stay below hard limits\<close>

lemma resource_roundtrip [simp]: "Resource_from_u32 (Resource_as_u32 r) = Some r"
  by (cases r) (simp_all add: Resource_from_u32_def)

lemma resource_codes: "Resource_from_u32 c = Some r \<Longrightarrow> c = Resource_as_u32 r"
  by (auto simp: Resource_from_u32_def split: if_splits)

definition limits_ok :: "ProcessLimits \<Rightarrow> bool" where
  "limits_ok ls \<longleftrightarrow> (\<forall>r. \<exists>l. bt_get ls (Resource_as_u32 r) = Some l \<and> rlim_cur l \<le> rlim_max l)"

definition table_ok :: "limits_table \<Rightarrow> bool" where
  "table_ok t \<longleftrightarrow> (\<forall>pid ls. bt_get t pid = Some ls \<longrightarrow> limits_ok ls)"

lemma new_limits_ok: "limits_ok ProcessLimits_new"
  unfolding limits_ok_def
proof
  fix r show "\<exists>l. bt_get ProcessLimits_new (Resource_as_u32 r) = Some l \<and> rlim_cur l \<le> rlim_max l"
    by (cases r) (simp_all add: ProcessLimits_new_def Rlimit_new_def Rlimit_unlimited_def RLIM_INFINITY_def)
qed

lemma set_limits_ok: "limits_ok ls \<Longrightarrow> limits_ok (fst (ProcessLimits_set ls uid r l))"
  by (auto simp: limits_ok_def ProcessLimits_set_def not_less)

datatype rlimit_op = InitProcess u32 | CleanupProcess u32 | Inherit u32 u32
  | SetRlimit u32 u32 u32 Rlimit | Prlimit u32 u32 u32 "Rlimit option"

fun rlimit_step :: "rlimit_op \<Rightarrow> limits_table \<Rightarrow> limits_table" where
  "rlimit_step (InitProcess pid) t = init_process t pid"
| "rlimit_step (CleanupProcess pid) t = cleanup_process t pid"
| "rlimit_step (Inherit parent child) t = inherit_limits t parent child"
| "rlimit_step (SetRlimit uid pid res l) t = fst (setrlimit t uid pid res l)"
| "rlimit_step (Prlimit uid pid res l) t = fst (prlimit64 t uid pid res l None)"

text \<open>The limits in force for a process: its own, or the defaults.\<close>

abbreviation limits_of :: "limits_table \<Rightarrow> u32 \<Rightarrow> ProcessLimits" where
  "limits_of t pid \<equiv> (case bt_get t pid of None \<Rightarrow> ProcessLimits_new | Some ls \<Rightarrow> ls)"

lemma limits_of_ok: "table_ok t \<Longrightarrow> limits_ok (limits_of t pid)"
  by (auto simp: table_ok_def new_limits_ok split: option.splits)

lemma table_ok_insert: "table_ok t \<Longrightarrow> limits_ok ls \<Longrightarrow> table_ok (bt_insert pid ls t)"
  by (simp add: table_ok_def)

lemma setrlimit_ok: "table_ok t \<Longrightarrow> table_ok (fst (setrlimit t uid pid res l))"
  using set_limits_ok [OF limits_of_ok]
  by (auto simp: setrlimit_def split_beta Let_def table_ok_insert split: option.splits)

lemma prlimit_ok: "table_ok t \<Longrightarrow> table_ok (fst (prlimit64 t uid pid res l old))"
  by (cases "Resource_from_u32 res"; cases l)
    (simp_all add: prlimit64_def split_beta Let_def table_ok_insert set_limits_ok limits_of_ok)

interpretation rl: state_machine rlimit_init rlimit_step table_ok
proof
  show "table_ok rlimit_init"
    by (simp add: rlimit_init_def init_process_def table_ok_def new_limits_ok)
next
  fix t op assume ok: "table_ok t"
  show "table_ok (rlimit_step op t)"
  proof (cases op)
    case (Inherit parent child)
    with ok limits_of_ok [OF ok, of parent] show ?thesis
      by (auto simp: inherit_limits_def table_ok_insert new_limits_ok split: option.splits)
  qed (use ok in \<open>simp_all add: init_process_def cleanup_process_def table_ok_insert new_limits_ok
         setrlimit_ok prlimit_ok\<close>, simp add: table_ok_def)
qed

section \<open>Unprivileged processes\<close>

abbreviation hard_limit :: "limits_table \<Rightarrow> u32 \<Rightarrow> Resource \<Rightarrow> u64" where
  "hard_limit t pid r \<equiv> rlim_max (ProcessLimits_get (limits_of t pid) r)"

lemma set_hard_le:
  assumes "limits_ok ls" and "uid \<noteq> 0"
  shows "rlim_max (ProcessLimits_get (fst (ProcessLimits_set ls uid res l)) r) \<le> rlim_max (ProcessLimits_get ls r)"
proof -
  obtain l0 where l0: "bt_get ls (Resource_as_u32 res) = Some l0" using assms(1) by (auto simp: limits_ok_def)
  have inj: "Resource_as_u32 r = Resource_as_u32 res \<longleftrightarrow> r = res"
    by (metis option.inject resource_roundtrip)
  show ?thesis
    using l0 assms(2) inj by (auto simp: ProcessLimits_set_def ProcessLimits_get_def not_less)
qed

text \<open>
  The operations in which the process \<open>pid\<close> is not created, removed or overwritten and in
  which its limits are changed only on behalf of an unprivileged user.
\<close>

fun unprivileged :: "u32 \<Rightarrow> rlimit_op \<Rightarrow> bool" where
  "unprivileged pid (InitProcess p) \<longleftrightarrow> p \<noteq> pid"
| "unprivileged pid (CleanupProcess p) \<longleftrightarrow> p \<noteq> pid"
| "unprivileged pid (Inherit parent child) \<longleftrightarrow> child \<noteq> pid"
| "unprivileged pid (SetRlimit uid p res l) \<longleftrightarrow> p \<noteq> pid \<or> uid \<noteq> 0"
| "unprivileged pid (Prlimit uid p res l) \<longleftrightarrow> p \<noteq> pid \<or> uid \<noteq> 0"

lemma unprivileged_step:
  assumes "table_ok t" and "unprivileged pid op"
  shows "hard_limit (rlimit_step op t) pid r \<le> hard_limit t pid r"
proof (cases op)
  case (SetRlimit uid p res l)
  with set_hard_le [OF limits_of_ok [OF assms(1), of pid], of uid] assms(2) show ?thesis
    by (auto simp: setrlimit_def split_beta Let_def split: option.splits)
next
  case (Prlimit uid p res l)
  with set_hard_le [OF limits_of_ok [OF assms(1), of pid], of uid] assms(2) show ?thesis
    by (auto simp: prlimit64_def split_beta Let_def split: option.splits)
qed (use assms(2) in \<open>auto simp: init_process_def cleanup_process_def inherit_limits_def split: option.splits\<close>)

lemma unprivileged_run:
  "table_ok t \<Longrightarrow> list_all (unprivileged pid) ops \<Longrightarrow>
     hard_limit (fold rlimit_step ops t) pid r \<le> hard_limit t pid r"
proof (induction ops arbitrary: t)
  case (Cons op ops)
  from Cons.prems have "hard_limit (rlimit_step op t) pid r \<le> hard_limit t pid r"
    by (intro unprivileged_step) auto
  moreover have "hard_limit (fold rlimit_step ops (rlimit_step op t)) pid r \<le> hard_limit (rlimit_step op t) pid r"
    using Cons.prems by (intro Cons.IH rl.step_inv) auto
  ultimately show ?case by simp
qed simp

section \<open>Properties\<close>

text \<open>C38: In every state reached by creating, removing and forking processes and by setting
  limits, \<open>getrlimit\<close> of any process and resource number from 0 to 15 returns a limit whose soft
  part does not exceed its hard part; other resource numbers are refused.\<close>

theorem getrlimit_soft_le_hard:
  "case getrlimit (fold rlimit_step ops rlimit_init) pid code of
     Inr l \<Rightarrow> code \<le> 15 \<and> rlim_cur l \<le> rlim_max l | Inl e \<Rightarrow> code > 15 \<and> e = EINVAL"
proof (cases "Resource_from_u32 code")
  case None
  then have "code \<notin> {0, 1, 2, 3, 4, 5, 6, 7, 8, 9, 10, 11, 12, 13, 14, 15}"
    by (auto simp: Resource_from_u32_def split: if_splits)
  moreover have "code \<in> {0, 1, 2, 3, 4, 5, 6, 7, 8, 9, 10, 11, 12, 13, 14, 15}" if "code \<le> 15"
  proof -
    have "unat code \<le> 15" using that by (simp add: word_le_nat_alt)
    then have "unat code \<in> {0, 1, 2, 3, 4, 5, 6, 7, 8, 9, 10, 11, 12, 13, 14, 15}"
      by (simp add: numeral_eq_Suc le_Suc_eq)
    moreover have "of_nat n \<in> {0, 1, 2, 3, 4, 5, 6, 7, 8, 9, 10, 11, 12, 13, 14, 15 :: u32}"
      if "n \<in> {0, 1, 2, 3, 4, 5, 6, 7, 8, 9, 10, 11, 12, 13, 14, 15}" for n :: nat
      using that by auto
    from this [of "unat code"] calculation show ?thesis by simp
  qed
  ultimately have "\<not> code \<le> 15" by blast
  with None show ?thesis by (simp add: getrlimit_def not_le)
next
  case (Some r)
  have "limits_ok (limits_of (fold rlimit_step ops rlimit_init) pid)"
    by (rule limits_of_ok [OF rl.reachable_inv])
  then have "rlim_cur (ProcessLimits_get (limits_of (fold rlimit_step ops rlimit_init) pid) r)
      \<le> rlim_max (ProcessLimits_get (limits_of (fold rlimit_step ops rlimit_init) pid) r)"
    unfolding limits_ok_def ProcessLimits_get_def by (metis option.simps(5))
  moreover have "code \<le> 15" using resource_codes [OF Some] by (cases r) simp_all
  ultimately show ?thesis
    using Some by (simp add: getrlimit_def split: option.splits)
qed

text \<open>C28: An unprivileged process can never raise a hard limit again: over any sequence of
  operations in which its own limits are changed only for an unprivileged user, no hard limit
  of it grows.\<close>

theorem hard_limits_only_fall:
  assumes "list_all (unprivileged pid) ops"
  shows "rlim_max (ProcessLimits_get (limits_of (fold rlimit_step (pre @ ops) rlimit_init) pid) r)
    \<le> rlim_max (ProcessLimits_get (limits_of (fold rlimit_step pre rlimit_init) pid) r)"
  using unprivileged_run [OF rl.reachable_inv [of pre] assms] by simp

theorem hard_limits_only_fall_witness:
  "hard_limit (fold rlimit_step ([Inherit 1 9] @ [SetRlimit 1000 9 7 (Rlimit_new 16 32), SetRlimit 1000 9 7 (Rlimit_new 64 64)])
     rlimit_init) 9 Nofile \<le> hard_limit (fold rlimit_step [Inherit 1 9] rlimit_init) 9 Nofile"
  by (rule hard_limits_only_fall) simp

end
