(* ===== verification/Capabilities.thy ===== *)
theory Capabilities
  imports Btree
begin

text \<open>
  \<open>src/kernel/src/sched/capabilities.rs\<close>: the capability sets of each process, as bit masks.
  The uid of a process in the process table (\<open>None\<close> when there is no such process) is an
  argument of the operations that read it.
\<close>

section \<open>Capability sets\<close>

datatype Capability = CapDacOverride | CapDacReadSearch | CapFowner | CapFsetid | CapKill | CapSetgid
  | CapSetuid | CapSetpcap | CapSysAdmin | CapSysBoot | CapSysNice | CapSysResource | CapSysTime
  | CapSysTtyConfig | CapSysModule | CapSysRawio | CapSysChroot | CapSysPtrace | CapNetAdmin
  | CapNetBindService | CapNetRaw | CapIpcOwner

primrec cap_number :: "Capability \<Rightarrow> nat" where
  "cap_number CapDacOverride = 1" | "cap_number CapDacReadSearch = 2" | "cap_number CapFowner = 3"
| "cap_number CapFsetid = 4" | "cap_number CapKill = 5" | "cap_number CapSetgid = 6"
| "cap_number CapSetuid = 7" | "cap_number CapSetpcap = 8" | "cap_number CapSysAdmin = 21"
| "cap_number CapSysBoot = 22" | "cap_number CapSysNice = 23" | "cap_number CapSysResource = 24"
| "cap_number CapSysTime = 25" | "cap_number CapSysTtyConfig = 26" | "cap_number CapSysModule = 16"
| "cap_number CapSysRawio = 17" | "cap_number CapSysChroot = 18" | "cap_number CapSysPtrace = 19"
| "cap_number CapNetAdmin = 12" | "cap_number CapNetBindService = 10" | "cap_number CapNetRaw = 13"
| "cap_number CapIpcOwner = 15"

type_synonym CapabilitySet = u64

definition CapabilitySet_EMPTY :: CapabilitySet where "CapabilitySet_EMPTY = 0"
definition CapabilitySet_ALL :: CapabilitySet where "CapabilitySet_ALL = - 1"

definition CapabilitySet_has :: "CapabilitySet \<Rightarrow> Capability \<Rightarrow> bool" where
  "CapabilitySet_has s cap \<longleftrightarrow> s AND push_bit (cap_number cap) 1 \<noteq> 0"

definition CapabilitySet_add :: "CapabilitySet \<Rightarrow> Capability \<Rightarrow> CapabilitySet" where
  "CapabilitySet_add s cap = s OR push_bit (cap_number cap) 1"

definition CapabilitySet_remove :: "CapabilitySet \<Rightarrow> Capability \<Rightarrow> CapabilitySet" where
  "CapabilitySet_remove s cap = s AND NOT (push_bit (cap_number cap) 1)"

record ProcessCapabilities =
  cap_effective :: CapabilitySet
  cap_permitted :: CapabilitySet
  cap_inheritable :: CapabilitySet
  cap_bounding :: CapabilitySet
  cap_ambient :: CapabilitySet

definition ProcessCapabilities_root :: ProcessCapabilities where
  "ProcessCapabilities_root = \<lparr>cap_effective = CapabilitySet_ALL, cap_permitted = CapabilitySet_ALL,
     cap_inheritable = CapabilitySet_ALL, cap_bounding = CapabilitySet_ALL, cap_ambient = CapabilitySet_EMPTY\<rparr>"

definition ProcessCapabilities_user :: ProcessCapabilities where
  "ProcessCapabilities_user = \<lparr>cap_effective = CapabilitySet_EMPTY, cap_permitted = CapabilitySet_EMPTY,
     cap_inheritable = CapabilitySet_EMPTY, cap_bounding = CapabilitySet_ALL, cap_ambient = CapabilitySet_EMPTY\<rparr>"

section \<open>The table of processes\<close>

type_synonym caps_table = "(u32, ProcessCapabilities) btree"

definition has_capability :: "caps_table \<Rightarrow> (u32 \<Rightarrow> u32 option) \<Rightarrow> u32 \<Rightarrow> Capability \<Rightarrow> bool" where
  "has_capability t uid_of pid cap =
     (case bt_get t pid of
        Some pcaps \<Rightarrow> CapabilitySet_has (cap_effective pcaps) cap
      | None \<Rightarrow> (case uid_of pid of Some uid \<Rightarrow> uid = 0 | None \<Rightarrow> False))"

definition set_capabilities :: "caps_table \<Rightarrow> u32 \<Rightarrow> ProcessCapabilities \<Rightarrow> caps_table" where
  "set_capabilities t pid caps = bt_insert pid caps t"

definition get_capabilities :: "caps_table \<Rightarrow> u32 \<Rightarrow> ProcessCapabilities option" where
  "get_capabilities t pid = bt_get t pid"

definition drop_capability :: "caps_table \<Rightarrow> u32 \<Rightarrow> Capability \<Rightarrow> caps_table \<times> (errno + unit)" where
  "drop_capability t pid cap =
     (case bt_get t pid of
        Some pcaps \<Rightarrow>
          (bt_insert pid (pcaps\<lparr>cap_effective := CapabilitySet_remove (cap_effective pcaps) cap,
             cap_permitted := CapabilitySet_remove (cap_permitted pcaps) cap\<rparr>) t, Inr ())
      | None \<Rightarrow> (t, Inl ESRCH))"

definition init_process_caps :: "caps_table \<Rightarrow> (u32 \<Rightarrow> u32 option) \<Rightarrow> u32 \<Rightarrow> u32 \<Rightarrow> caps_table" where
  "init_process_caps t uid_of pid parent_pid =
     bt_insert pid
       (case bt_get t parent_pid of
          Some parent \<Rightarrow>
            \<lparr>cap_effective = cap_inheritable parent AND cap_bounding parent,
             cap_permitted = cap_inheritable parent AND cap_bounding parent,
             cap_inheritable = cap_inheritable parent, cap_bounding = cap_bounding parent,
             cap_ambient = cap_ambient parent\<rparr>
        | None \<Rightarrow>
            (case uid_of pid of
               Some uid \<Rightarrow> if uid = 0 then ProcessCapabilities_root else ProcessCapabilities_user
             | None \<Rightarrow> ProcessCapabilities_user)) t"

definition caps_init :: caps_table where
  "caps_init = bt_insert 2 ProcessCapabilities_user
     (bt_insert 1 ProcessCapabilities_root (bt_insert 0 ProcessCapabilities_root []))"

definition check_net_bind :: "caps_table \<Rightarrow> (u32 \<Rightarrow> u32 option) \<Rightarrow> u32 \<Rightarrow> u16 \<Rightarrow> errno + unit" where
  "check_net_bind t uid_of pid port =
     (if port = 0 \<or> port \<ge> 1024 then Inr ()
      else if has_capability t uid_of pid CapNetBindService then Inr () else Inl EPERM)"

definition apply_exec_caps :: "caps_table \<Rightarrow> u32 \<Rightarrow> u32 \<Rightarrow> caps_table" where
  "apply_exec_caps t pid uid =
     (if uid = 0 then set_capabilities t pid ProcessCapabilities_root
      else set_capabilities t pid ProcessCapabilities_user)"

section \<open>Sets of capabilities\<close>

lemma has_iff_bit: "CapabilitySet_has s cap \<longleftrightarrow> bit s (cap_number cap)"
  by (simp add: CapabilitySet_has_def bit_iff_and_push_bit_not_eq_0)

lemma bit_remove: "bit (CapabilitySet_remove s cap) n \<longleftrightarrow> bit s n \<and> n \<noteq> cap_number cap"
  by (auto simp: CapabilitySet_remove_def bit_simps dest: bit_imp_le_length)

lemma cap_number_inject: "cap_number a = cap_number b \<longleftrightarrow> a = b"
  by (cases a; cases b) simp_all

lemma has_remove: "CapabilitySet_has (CapabilitySet_remove s c) cap \<longleftrightarrow> CapabilitySet_has s cap \<and> cap \<noteq> c"
  by (simp add: has_iff_bit bit_remove cap_number_inject)

lemma has_add: "CapabilitySet_has (CapabilitySet_add s c) cap \<longleftrightarrow> CapabilitySet_has s cap \<or> cap = c"
proof -
  have "cap_number cap < 64" by (cases cap) simp_all
  then show ?thesis
    by (auto simp: has_iff_bit CapabilitySet_add_def bit_simps cap_number_inject)
qed

definition cap_subset :: "CapabilitySet \<Rightarrow> CapabilitySet \<Rightarrow> bool" where
  "cap_subset a b \<longleftrightarrow> a AND NOT b = 0"

lemma cap_subset_iff: "cap_subset a b \<longleftrightarrow> (\<forall>n. bit a n \<longrightarrow> bit b n)"
proof -
  have "cap_subset a b \<longleftrightarrow> (\<forall>n < 64. bit a n \<longrightarrow> bit b n)"
    by (auto simp: cap_subset_def bit_eq_iff bit_simps)
  then show ?thesis using bit_imp_le_length [of a] by auto
qed

section \<open>Runs\<close>

datatype caps_op = Fork u32 u32 | Exec u32 u32 | Drop u32 Capability

fun caps_step :: "(u32 \<Rightarrow> u32 option) \<Rightarrow> caps_op \<Rightarrow> caps_table \<Rightarrow> caps_table" where
  "caps_step uid_of (Fork child parent) t = init_process_caps t uid_of child parent"
| "caps_step uid_of (Exec pid uid) t = apply_exec_caps t pid uid"
| "caps_step uid_of (Drop pid cap) t = fst (drop_capability t pid cap)"

definition caps_ok :: "caps_table \<Rightarrow> bool" where
  "caps_ok t \<longleftrightarrow> (\<forall>pid c. bt_get t pid = Some c \<longrightarrow>
     cap_subset (cap_effective c) (cap_permitted c) \<and> cap_subset (cap_permitted c) (cap_bounding c))"

lemma caps_ok_insert:
  "caps_ok t \<Longrightarrow> cap_subset (cap_effective c) (cap_permitted c) \<Longrightarrow>
     cap_subset (cap_permitted c) (cap_bounding c) \<Longrightarrow> caps_ok (bt_insert pid c t)"
  by (simp add: caps_ok_def)

lemma std_caps:
  "cap_subset (cap_effective ProcessCapabilities_root) (cap_permitted ProcessCapabilities_root)"
  "cap_subset (cap_permitted ProcessCapabilities_root) (cap_bounding ProcessCapabilities_root)"
  "cap_subset (cap_effective ProcessCapabilities_user) (cap_permitted ProcessCapabilities_user)"
  "cap_subset (cap_permitted ProcessCapabilities_user) (cap_bounding ProcessCapabilities_user)"
  by (simp_all add: cap_subset_def ProcessCapabilities_root_def ProcessCapabilities_user_def
      CapabilitySet_ALL_def CapabilitySet_EMPTY_def)

lemma caps_step_ok: "caps_ok t \<Longrightarrow> caps_ok (caps_step uid_of op t)"
proof (cases op)
  case (Fork child parent)
  assume "caps_ok t"
  moreover have "cap_subset x x" "cap_subset (x AND y) y" for x y
    by (simp_all add: cap_subset_iff bit_simps)
  ultimately show ?thesis unfolding Fork
    by (auto simp: init_process_caps_def std_caps intro!: caps_ok_insert split: option.splits)
next
  case (Exec pid uid)
  assume "caps_ok t"
  then show ?thesis unfolding Exec
    by (simp add: apply_exec_caps_def set_capabilities_def caps_ok_insert std_caps)
next
  case (Drop pid cap)
  assume ok: "caps_ok t"
  then show ?thesis unfolding Drop
    by (auto simp: drop_capability_def cap_subset_iff bit_remove caps_ok_def split: option.splits)
qed

interpretation cap: state_machine caps_init "caps_step uid_of" caps_ok for uid_of
proof
  show "caps_ok caps_init"
    unfolding caps_init_def by (intro caps_ok_insert std_caps) (simp add: caps_ok_def)
qed (rule caps_step_ok)

text \<open>
  The operations that do not create the process \<open>pid\<close> anew and do not execute a program in it.
\<close>

fun keeps_image :: "u32 \<Rightarrow> caps_op \<Rightarrow> bool" where
  "keeps_image pid (Fork child parent) \<longleftrightarrow> child \<noteq> pid"
| "keeps_image pid (Exec p uid) \<longleftrightarrow> p \<noteq> pid"
| "keeps_image pid (Drop p cap) \<longleftrightarrow> True"

definition lacks :: "Capability \<Rightarrow> u32 \<Rightarrow> caps_table \<Rightarrow> bool" where
  "lacks cap pid t \<longleftrightarrow> (\<exists>c. bt_get t pid = Some c \<and> \<not> CapabilitySet_has (cap_effective c) cap
     \<and> \<not> CapabilitySet_has (cap_permitted c) cap)"

lemma lacks_run:
  "lacks cap pid t \<Longrightarrow> list_all (keeps_image pid) ops \<Longrightarrow> lacks cap pid (fold (caps_step uid_of) ops t)"
proof (induction ops arbitrary: t)
  case (Cons op ops)
  have "lacks cap pid (caps_step uid_of op t)"
    using Cons.prems
    by (cases op) (auto simp: lacks_def init_process_caps_def apply_exec_caps_def set_capabilities_def
        drop_capability_def has_remove split: option.splits)
  with Cons show ?case by simp
qed simp

section \<open>Properties\<close>



text \<open>C29: A dropped capability stays dropped: after \<open>drop_capability\<close> succeeds, no sequence of
  forks, executions of other processes and further drops gives the capability back to the
  process.\<close>

theorem dropped_capability_stays_dropped:
  assumes "drop_capability t pid cap = (t', Inr ())" and "list_all (keeps_image pid) ops"
  shows "\<not> has_capability (fold (caps_step uid_of) ops t') uid_of pid cap"
proof -
  from assms(1) have "lacks cap pid t'"
    by (auto simp: drop_capability_def lacks_def has_remove split: option.splits)
  from lacks_run [OF this assms(2), of uid_of] show ?thesis by (auto simp: lacks_def has_capability_def)
qed

theorem dropped_capability_stays_dropped_witness:
  "\<not> has_capability (fold (caps_step (\<lambda>_. None)) [Fork 9 1, Exec 9 0] (fst (drop_capability caps_init 1 CapKill)))
     (\<lambda>_. None) 1 CapKill"
proof -
  have "drop_capability caps_init 1 CapKill = (fst (drop_capability caps_init 1 CapKill), Inr ())"
    by (simp add: drop_capability_def caps_init_def)
  then show ?thesis by (rule dropped_capability_stays_dropped) simp
qed

text \<open>
  The children of the process get it back: \<open>drop_capability\<close> leaves the inheritable set, from
  which \<open>init_process_caps\<close> computes the capabilities of a child.
\<close>

lemma child_regains_capability:
  "has_capability (caps_step uid_of (Fork 9 1) (fst (drop_capability caps_init 1 CapKill))) uid_of 9 CapKill"
  by (simp add: has_capability_def init_process_caps_def drop_capability_def caps_init_def
      ProcessCapabilities_root_def CapabilitySet_has_def CapabilitySet_ALL_def)

end
