(* ===== verification/Scheduler.thy ===== *)
theory Scheduler
  imports Btree
begin

text \<open>
  \<open>src/kernel/src/sched/scheduler.rs\<close>: the fair scheduler with its deadline and real-time
  classes. The index of the executing processor (\<open>usermode::current_cpu_index\<close>) is an argument
  \<open>cpu_index\<close>. The hand-over of registers in \<open>maybe_preempt_user\<close> and \<open>deferred_schedule\<close> is not
  modelled; the decisions they take (\<open>schedule\<close>, \<open>switch_running\<close>) are.
\<close>

section \<open>Data\<close>

definition SCHEDULER_TICKS :: u64 where "SCHEDULER_TICKS = 5"
definition DEFAULT_TIME_SLICE :: u64 where "DEFAULT_TIME_SLICE = 10"
definition MAX_CPUS :: nat where "MAX_CPUS = 16"
definition DESKTOP_PID :: u32 where "DESKTOP_PID = 2"
definition AP_IDLE_PID_BASE :: u32 where "AP_IDLE_PID_BASE = 0x7F00"

definition is_ap_idle_pid :: "u32 \<Rightarrow> bool" where
  "is_ap_idle_pid pid \<longleftrightarrow> pid \<ge> AP_IDLE_PID_BASE \<and> pid < AP_IDLE_PID_BASE + of_nat MAX_CPUS"

definition CFS_WEIGHTS :: "u64 list" where
  "CFS_WEIGHTS = [
     88761, 71755, 56483, 46273, 36291, 29154, 23254, 18705, 14949, 11916,
     9548, 7620, 6100, 4904, 3906, 3121, 2501, 1991, 1586, 1277,
     1024, 820, 655, 526, 423, 335, 272, 215, 172, 137,
     110, 87, 70, 56, 45, 36, 29, 23, 18, 15]"

datatype SchedPolicy = Normal | Fifo | RoundRobin | Batch | Idle | Deadline

record DeadlineParams =
  dl_runtime :: u64
  dl_period :: u64
  dl_deadline :: u64
  dl_remaining_runtime :: u64
  dl_absolute_deadline :: u64
  dl_period_start :: u64
  dl_throttled :: bool

record SchedInfo =
  si_pid :: u32
  si_policy :: SchedPolicy
  si_priority :: i32
  si_time_slice :: u64
  si_total_runtime :: u64
  si_vruntime :: u64
  si_affinity :: u64
  si_deadline :: "DeadlineParams option"
  si_placed_cpu :: "nat option"

definition SchedInfo_new :: "u32 \<Rightarrow> i32 \<Rightarrow> SchedInfo" where
  "SchedInfo_new pid priority =
     \<lparr>si_pid = pid, si_policy = Normal, si_priority = priority, si_time_slice = DEFAULT_TIME_SLICE,
      si_total_runtime = 0, si_vruntime = 0, si_affinity = - 1, si_deadline = None, si_placed_cpu = None\<rparr>"

definition effective_time_slice :: "SchedInfo \<Rightarrow> u64" where
  "effective_time_slice s = word_of_int (max (uint DEFAULT_TIME_SLICE - si_priority s) 2)"

definition clamp :: "int \<Rightarrow> int \<Rightarrow> int \<Rightarrow> int" where
  "clamp lo hi x = (if x < lo then lo else if x > hi then hi else x)"

definition weight :: "SchedInfo \<Rightarrow> u64" where
  "weight s = CFS_WEIGHTS ! nat (clamp 0 39 (wrap_i32 (si_priority s + 20)))"

record Scheduler =
  run_queue :: "SchedInfo list"
  current_by_cpu :: "SchedInfo option list"
  wait_queue :: "SchedInfo list"
  idle_pid :: u32
  enabled :: bool
  tick_count :: u64
  context_switches :: u64

definition Scheduler_new :: Scheduler where
  "Scheduler_new = \<lparr>run_queue = [], current_by_cpu = replicate MAX_CPUS None, wait_queue = [], idle_pid = 0,
     enabled = False, tick_count = 0, context_switches = 0\<rparr>"

definition cpu_i :: "nat \<Rightarrow> nat" where
  "cpu_i cpu_index = min cpu_index (MAX_CPUS - 1)"

definition current_slot :: "Scheduler \<Rightarrow> nat \<Rightarrow> SchedInfo option" where
  "current_slot s cpu_index = current_by_cpu s ! cpu_i cpu_index"

definition set_slot :: "nat \<Rightarrow> SchedInfo option \<Rightarrow> Scheduler \<Rightarrow> Scheduler" where
  "set_slot cpu_index c s = s\<lparr>current_by_cpu := (current_by_cpu s)[cpu_i cpu_index := c]\<rparr>"

abbreviation has_pid :: "u32 \<Rightarrow> SchedInfo \<Rightarrow> bool" where
  "has_pid pid e \<equiv> si_pid e = pid"

section \<open>Queues\<close>

definition add_process :: "Scheduler \<Rightarrow> u32 \<Rightarrow> i32 \<Rightarrow> Scheduler" where
  "add_process s pid priority =
     (let vrs = map si_vruntime (run_queue s) @ map si_vruntime (flatten (current_by_cpu s));
          min_vr = (case min_by_key (\<lambda>v. v) vrs of None \<Rightarrow> 0 | Some v \<Rightarrow> v) in
      s\<lparr>run_queue := run_queue s @ [(SchedInfo_new pid priority)\<lparr>si_vruntime := min_vr\<rparr>]\<rparr>)"

definition remove_process :: "Scheduler \<Rightarrow> u32 \<Rightarrow> Scheduler" where
  "remove_process s pid =
     s\<lparr>run_queue := filter (\<lambda>e. si_pid e \<noteq> pid) (run_queue s),
       wait_queue := filter (\<lambda>e. si_pid e \<noteq> pid) (wait_queue s),
       current_by_cpu := map (\<lambda>c. if map_option si_pid c = Some pid then None else c) (current_by_cpu s)\<rparr>"

definition block_process :: "Scheduler \<Rightarrow> nat \<Rightarrow> u32 \<Rightarrow> Scheduler" where
  "block_process s0 cpu_index pid =
     (let s = (case position (has_pid pid) (run_queue s0) of
                 Some pos \<Rightarrow> s0\<lparr>run_queue := remove_at pos (run_queue s0),
                                 wait_queue := wait_queue s0 @ [run_queue s0 ! pos]\<rparr>
               | None \<Rightarrow> s0) in
      case current_slot s cpu_index of
        Some current \<Rightarrow>
          if si_pid current = pid then
            (set_slot cpu_index None s)\<lparr>wait_queue := wait_queue s @
               [current\<lparr>si_time_slice := effective_time_slice current\<rparr>]\<rparr>
          else s
      | None \<Rightarrow> s)"

definition wake_process :: "Scheduler \<Rightarrow> u32 \<Rightarrow> Scheduler" where
  "wake_process s pid =
     (case position (has_pid pid) (wait_queue s) of
        Some pos \<Rightarrow> s\<lparr>wait_queue := remove_at pos (wait_queue s),
                       run_queue := run_queue s @ [wait_queue s ! pos]\<rparr>
      | None \<Rightarrow> s)"

text \<open>A change of the first entry of a queue that has the pid.\<close>

definition update_first :: "u32 \<Rightarrow> (SchedInfo \<Rightarrow> SchedInfo) \<Rightarrow> SchedInfo list \<Rightarrow> SchedInfo list" where
  "update_first pid f q =
     (case position (has_pid pid) q of Some i \<Rightarrow> q[i := f (q ! i)] | None \<Rightarrow> q)"

abbreviation queued :: "u32 \<Rightarrow> SchedInfo list \<Rightarrow> bool" where
  "queued pid q \<equiv> \<exists>e \<in> set q. has_pid pid e"

definition set_priority :: "Scheduler \<Rightarrow> nat \<Rightarrow> u32 \<Rightarrow> i32 \<Rightarrow> Scheduler" where
  "set_priority s cpu_index pid priority =
     (let priority = clamp (- 20) 19 priority; f = (\<lambda>e. e\<lparr>si_priority := priority\<rparr>) in
      if queued pid (run_queue s) then s\<lparr>run_queue := update_first pid f (run_queue s)\<rparr>
      else case current_slot s cpu_index of
        Some current \<Rightarrow> if si_pid current = pid then set_slot cpu_index (Some (f current)) s else s
      | None \<Rightarrow> s)"

definition sched_current_pid :: "Scheduler \<Rightarrow> nat \<Rightarrow> u32 option" where
  "sched_current_pid s cpu_index = map_option si_pid (current_slot s cpu_index)"

definition clear_current :: "Scheduler \<Rightarrow> nat \<Rightarrow> Scheduler" where
  "clear_current s cpu_index = set_slot cpu_index None s"

definition set_running :: "Scheduler \<Rightarrow> nat \<Rightarrow> u32 \<Rightarrow> Scheduler" where
  "set_running s0 cpu_index pid =
     (if map_option si_pid (current_slot s0 cpu_index) = Some pid then s0
      else let s = set_slot cpu_index None s0 in
        case position (has_pid pid) (run_queue s) of
          Some pos \<Rightarrow> (set_slot cpu_index (Some (run_queue s ! pos)) s)\<lparr>run_queue := remove_at pos (run_queue s)\<rparr>
        | None \<Rightarrow>
            (case position (has_pid pid) (wait_queue s) of
               Some pos \<Rightarrow> (set_slot cpu_index (Some (wait_queue s ! pos)) s)\<lparr>wait_queue := remove_at pos (wait_queue s)\<rparr>
             | None \<Rightarrow> set_slot cpu_index (Some (SchedInfo_new pid 0)) s))"

definition switch_running :: "Scheduler \<Rightarrow> nat \<Rightarrow> u32 \<Rightarrow> Scheduler" where
  "switch_running s cpu_index pid =
     (case current_slot s cpu_index of
        Some cur \<Rightarrow>
          if si_pid cur = pid then s
          else
            let s1 = set_slot cpu_index None s;
                s2 = (if \<not> queued (si_pid cur) (run_queue s1) \<and> \<not> queued (si_pid cur) (wait_queue s1)
                      then s1\<lparr>run_queue := run_queue s1 @ [cur]\<rparr> else s1) in
            set_running s2 cpu_index pid
      | None \<Rightarrow> set_running s cpu_index pid)"

section \<open>Ticks and scheduling decisions\<close>

definition charge_tick :: "SchedInfo \<Rightarrow> SchedInfo" where
  "charge_tick c = c\<lparr>si_total_runtime := si_total_runtime c + 1,
     si_vruntime := si_vruntime c + 1024 div max (weight c) 1,
     si_time_slice := (if si_time_slice c > 0 then si_time_slice c - 1 else si_time_slice c)\<rparr>"

definition tick :: "Scheduler \<Rightarrow> nat \<Rightarrow> Scheduler \<times> bool" where
  "tick s cpu_index =
     (if \<not> enabled s then (s, False)
      else
        let s = s\<lparr>tick_count := tick_count s + 1\<rparr>;
            min_vr = min_by_key (\<lambda>v. v) (map si_vruntime (run_queue s)) in
        case current_slot s cpu_index of
          Some current \<Rightarrow>
            let c = charge_tick current; s' = set_slot cpu_index (Some c) s in
            if si_time_slice c = 0 then (s', True)
            else (case min_vr of
                    Some v \<Rightarrow> if si_vruntime c > v + 4 then (s', True) else (s', False)
                  | None \<Rightarrow> (s', False))
        | None \<Rightarrow> (s, run_queue s \<noteq> []))"

definition allowed :: "nat \<Rightarrow> SchedInfo \<Rightarrow> bool" where
  "allowed cpu_index e \<longleftrightarrow> \<not> is_ap_idle_pid (si_pid e)
     \<and> has_bits (si_affinity e) (push_bit (min cpu_index 63) 1)
     \<and> (case si_placed_cpu e of None \<Rightarrow> True | Some p \<Rightarrow> p = cpu_i cpu_index)"

definition requeue_current :: "Scheduler \<Rightarrow> nat \<Rightarrow> Scheduler" where
  "requeue_current s cpu_index =
     (case current_slot s cpu_index of
        Some current \<Rightarrow> (set_slot cpu_index None s)\<lparr>run_queue := run_queue s @
            [current\<lparr>si_time_slice := effective_time_slice current\<rparr>]\<rparr>
      | None \<Rightarrow> s)"

text \<open>The index of the entry with the least key among those that satisfy a condition.\<close>

definition min_index :: "(SchedInfo \<Rightarrow> bool) \<Rightarrow> (SchedInfo \<Rightarrow> 'k::linorder) \<Rightarrow> SchedInfo list \<Rightarrow> nat option" where
  "min_index P key q = map_option fst (min_by_key (\<lambda>(i, e). key e) (filter (\<lambda>(i, e). P e) (enumerate 0 q)))"

definition runnable_deadline :: "nat \<Rightarrow> SchedInfo \<Rightarrow> bool" where
  "runnable_deadline cpu_index e \<longleftrightarrow> si_policy e = Deadline \<and> allowed cpu_index e
     \<and> (case si_deadline e of None \<Rightarrow> False | Some d \<Rightarrow> \<not> dl_throttled d)"

definition deadline_key :: "SchedInfo \<Rightarrow> u64" where
  "deadline_key e = (case si_deadline e of None \<Rightarrow> - 1 | Some d \<Rightarrow> dl_absolute_deadline d)"

definition runnable_rt :: "nat \<Rightarrow> SchedInfo \<Rightarrow> bool" where
  "runnable_rt cpu_index e \<longleftrightarrow> (si_policy e = Fifo \<or> si_policy e = RoundRobin) \<and> allowed cpu_index e"

definition runnable_fair :: "nat \<Rightarrow> SchedInfo \<Rightarrow> bool" where
  "runnable_fair cpu_index e \<longleftrightarrow> si_policy e \<noteq> Idle \<and> allowed cpu_index e"

definition dispatch :: "Scheduler \<Rightarrow> nat \<Rightarrow> nat \<Rightarrow> (SchedInfo \<Rightarrow> u64) \<Rightarrow> Scheduler \<times> u32 option" where
  "dispatch s cpu_index idx slice_of =
     (let next = run_queue s ! idx in
      ((set_slot cpu_index (Some (next\<lparr>si_time_slice := slice_of next\<rparr>)) s)
         \<lparr>run_queue := remove_at idx (run_queue s), context_switches := context_switches s + 1\<rparr>,
       Some (si_pid next)))"

definition deadline_slice :: "SchedInfo \<Rightarrow> u64" where
  "deadline_slice e = (case si_deadline e of
     None \<Rightarrow> effective_time_slice e | Some d \<Rightarrow> max (dl_remaining_runtime d) 1)"

definition schedule :: "Scheduler \<Rightarrow> nat \<Rightarrow> Scheduler \<times> u32 option" where
  "schedule s0 cpu_index =
     (let s = requeue_current s0 cpu_index; q = run_queue s in
      if q = [] then (s, Some (idle_pid s))
      else case min_index (runnable_deadline cpu_index) deadline_key q of
        Some idx \<Rightarrow> dispatch s cpu_index idx deadline_slice
      | None \<Rightarrow>
     (case min_index (runnable_rt cpu_index) si_priority q of
        Some idx \<Rightarrow> dispatch s cpu_index idx effective_time_slice
      | None \<Rightarrow>
          let min_idx = (if filter (runnable_fair cpu_index) q \<noteq> []
                         then min_index (runnable_fair cpu_index) si_vruntime q
                         else min_index (allowed cpu_index) si_vruntime q) in
          (case min_idx of
             None \<Rightarrow> (s, Some (idle_pid s))
           | Some idx \<Rightarrow> dispatch s cpu_index idx effective_time_slice)))"

definition enable :: "Scheduler \<Rightarrow> Scheduler" where "enable s = s\<lparr>enabled := True\<rparr>"

record SchedStats =
  st_run_queue_len :: nat
  st_wait_queue_len :: nat
  st_context_switches :: u64
  st_current_pid :: "u32 option"
  st_tick_count :: u64

definition Scheduler_stats :: "Scheduler \<Rightarrow> nat \<Rightarrow> SchedStats" where
  "Scheduler_stats s cpu_index = \<lparr>st_run_queue_len = length (run_queue s), st_wait_queue_len = length (wait_queue s),
     st_context_switches = context_switches s, st_current_pid = sched_current_pid s cpu_index,
     st_tick_count = tick_count s\<rparr>"

section \<open>The functions of the module\<close>

definition sched_init :: "Scheduler \<Rightarrow> Scheduler" where
  "sched_init s = add_process (s\<lparr>idle_pid := 0\<rparr>) 2 0"

definition block_current :: "Scheduler \<Rightarrow> nat \<Rightarrow> Scheduler" where
  "block_current s cpu_index =
     (case sched_current_pid s cpu_index of None \<Rightarrow> s | Some pid \<Rightarrow> block_process s cpu_index pid)"

definition yield_current :: "Scheduler \<Rightarrow> Scheduler" where
  "yield_current s = s\<lparr>tick_count := SCHEDULER_TICKS\<rparr>"

definition set_policy :: "Scheduler \<Rightarrow> u32 \<Rightarrow> SchedPolicy \<Rightarrow> Scheduler" where
  "set_policy s pid policy = s\<lparr>run_queue := update_first pid (\<lambda>e. e\<lparr>si_policy := policy\<rparr>) (run_queue s)\<rparr>"

definition process_exists :: "Scheduler \<Rightarrow> u32 \<Rightarrow> bool" where
  "process_exists s pid \<longleftrightarrow> queued pid (run_queue s) \<or> queued pid (wait_queue s)
     \<or> (\<exists>c \<in> set (current_by_cpu s). map_option si_pid c = Some pid)"

datatype deadline_error = ZeroParameter | BadOrder | Overcommitted | NotFound

text \<open>The loop of the admission control: the utilisation as a fraction of 64-bit numbers.\<close>

definition utilization :: "u32 \<Rightarrow> SchedInfo list \<Rightarrow> u64 \<times> u64" where
  "utilization pid es =
     fold (\<lambda>e (num, den).
         if si_policy e = Deadline \<and> si_pid e \<noteq> pid then
           (case si_deadline e of
              Some dl \<Rightarrow> (num * dl_period dl + dl_runtime dl * den, den * dl_period dl)
            | None \<Rightarrow> (num, den))
         else (num, den)) es (0, 1)"

definition set_deadline ::
  "Scheduler \<Rightarrow> nat \<Rightarrow> u32 \<Rightarrow> u64 \<Rightarrow> u64 \<Rightarrow> u64 \<Rightarrow> Scheduler \<times> (deadline_error + unit)" where
  "set_deadline s cpu_index pid runtime period deadline =
     (if runtime = 0 \<or> period = 0 \<or> deadline = 0 then (s, Inl ZeroParameter)
      else if runtime > deadline \<or> deadline > period then (s, Inl BadOrder)
      else
        let t = tick_count s;
            (num, den) = utilization pid (run_queue s @ flatten (current_by_cpu s));
            num' = num * period + runtime * den; den' = den * period in
        if num' > den' then (s, Inl Overcommitted)
        else
          let dl = \<lparr>dl_runtime = runtime, dl_period = period, dl_deadline = deadline,
                    dl_remaining_runtime = runtime, dl_absolute_deadline = t + deadline,
                    dl_period_start = t, dl_throttled = False\<rparr>;
              f = (\<lambda>e. e\<lparr>si_policy := Deadline, si_deadline := Some dl\<rparr>) in
          if queued pid (run_queue s) then (s\<lparr>run_queue := update_first pid f (run_queue s)\<rparr>, Inr ())
          else case current_slot s cpu_index of
            Some current \<Rightarrow>
              if si_pid current = pid then (set_slot cpu_index (Some (f current)) s, Inr ())
              else (s, Inl NotFound)
          | None \<Rightarrow> (s, Inl NotFound))"

text \<open>The renewal of a deadline task at the end of its period.\<close>

definition renew_deadline :: "u64 \<Rightarrow> SchedInfo \<Rightarrow> SchedInfo" where
  "renew_deadline t e =
     (if si_policy e \<noteq> Deadline then e
      else case si_deadline e of
        None \<Rightarrow> e
      | Some dl \<Rightarrow>
          if t \<ge> dl_period_start dl + dl_period dl then
            e\<lparr>si_deadline := Some (dl\<lparr>dl_period_start := t, dl_remaining_runtime := dl_runtime dl,
               dl_absolute_deadline := t + dl_deadline dl, dl_throttled := False\<rparr>)\<rparr>
          else e)"

definition update_deadline_tasks :: "Scheduler \<Rightarrow> nat \<Rightarrow> Scheduler" where
  "update_deadline_tasks s0 cpu_index =
     (let s = s0\<lparr>run_queue := map (renew_deadline (tick_count s0)) (run_queue s0)\<rparr> in
      case current_slot s cpu_index of
        Some current \<Rightarrow> set_slot cpu_index (Some (renew_deadline (tick_count s) current)) s
      | None \<Rightarrow> s)"

text \<open>The search through the run queue, the processors and the wait queue, in that order.\<close>

definition slot_index :: "u32 \<Rightarrow> Scheduler \<Rightarrow> nat option" where
  "slot_index pid s = position (\<lambda>c. map_option si_pid c = Some pid) (current_by_cpu s)"

definition update_anywhere :: "u32 \<Rightarrow> (SchedInfo \<Rightarrow> SchedInfo) \<Rightarrow> Scheduler \<Rightarrow> Scheduler option" where
  "update_anywhere pid f s =
     (if queued pid (run_queue s) then Some (s\<lparr>run_queue := update_first pid f (run_queue s)\<rparr>)
      else case slot_index pid s of
        Some i \<Rightarrow> Some (s\<lparr>current_by_cpu := (current_by_cpu s)[i := map_option f (current_by_cpu s ! i)]\<rparr>)
      | None \<Rightarrow>
          if queued pid (wait_queue s) then Some (s\<lparr>wait_queue := update_first pid f (wait_queue s)\<rparr>) else None)"

datatype affinity_error = EmptyMask | NoProcess

definition set_cpu_affinity :: "Scheduler \<Rightarrow> u32 \<Rightarrow> u64 \<Rightarrow> Scheduler \<times> (affinity_error + unit)" where
  "set_cpu_affinity s pid cpus =
     (if cpus = 0 then (s, Inl EmptyMask)
      else case update_anywhere pid (\<lambda>e. e\<lparr>si_affinity := cpus\<rparr>) s of
        Some s' \<Rightarrow> (s', Inr ()) | None \<Rightarrow> (s, Inl NoProcess))"

definition get_cpu_affinity :: "Scheduler \<Rightarrow> u32 \<Rightarrow> u64 option" where
  "get_cpu_affinity s pid =
     (case position (has_pid pid) (run_queue s) of
        Some i \<Rightarrow> Some (si_affinity (run_queue s ! i))
      | None \<Rightarrow>
     (case slot_index pid s of
        Some i \<Rightarrow> map_option si_affinity (current_by_cpu s ! i)
      | None \<Rightarrow>
     (case position (has_pid pid) (wait_queue s) of
        Some i \<Rightarrow> Some (si_affinity (wait_queue s ! i))
      | None \<Rightarrow> None)))"

definition count_ones :: "u64 \<Rightarrow> nat" where
  "count_ones w = length (filter (bit w) [0..<64])"

definition steal_unpinned_for_cpu :: "Scheduler \<Rightarrow> nat \<Rightarrow> Scheduler \<times> u32 option" where
  "steal_unpinned_for_cpu s cpu =
     (case position (\<lambda>e. si_pid e > DESKTOP_PID \<and> \<not> is_ap_idle_pid (si_pid e) \<and> si_placed_cpu e = None
             \<and> count_ones (si_affinity e) \<noteq> 1 \<and> has_bits (si_affinity e) (push_bit (min cpu 63) 1))
           (run_queue s) of
        None \<Rightarrow> (s, None)
      | Some pos \<Rightarrow>
          (s\<lparr>run_queue := (run_queue s)[pos := (run_queue s ! pos)\<lparr>si_placed_cpu := Some cpu\<rparr>]\<rparr>,
           Some (si_pid (run_queue s ! pos))))"

definition set_placed_cpu :: "Scheduler \<Rightarrow> u32 \<Rightarrow> nat \<Rightarrow> Scheduler" where
  "set_placed_cpu s pid cpu =
     (case update_anywhere pid (\<lambda>e. e\<lparr>si_placed_cpu := Some cpu\<rparr>) s of Some s' \<Rightarrow> s' | None \<Rightarrow> s)"

section \<open>The timer interrupt\<close>

record IsrState =
  NEED_RESCHED :: bool
  ISR_TICK_COUNT :: u64
  CURRENT_TIME_SLICE :: u64
  PREEMPTION_ENABLED :: bool

definition isr_timer_tick :: "IsrState \<Rightarrow> IsrState" where
  "isr_timer_tick s =
     (if \<not> PREEMPTION_ENABLED s then s
      else
        let remaining = CURRENT_TIME_SLICE s in
        s\<lparr>ISR_TICK_COUNT := ISR_TICK_COUNT s + 1,
          CURRENT_TIME_SLICE := (if remaining > 0 then remaining - 1 else remaining),
          NEED_RESCHED := (if remaining \<le> 1 then True else NEED_RESCHED s)\<rparr>)"

definition check_need_resched :: "IsrState \<Rightarrow> IsrState \<times> bool" where
  "check_need_resched s = (s\<lparr>NEED_RESCHED := False\<rparr>, NEED_RESCHED s)"

definition enable_preemption :: "IsrState \<Rightarrow> IsrState" where
  "enable_preemption s = s\<lparr>PREEMPTION_ENABLED := True\<rparr>"

definition disable_preemption :: "IsrState \<Rightarrow> IsrState" where
  "disable_preemption s = s\<lparr>PREEMPTION_ENABLED := False\<rparr>"

section \<open>Accounting\<close>

record ProcessAccounting =
  acct_pid :: u32
  acct_user_time :: u64
  acct_system_time :: u64
  acct_voluntary :: u64
  acct_involuntary :: u64
  acct_peak_memory_kb :: u64
  acct_io_read :: u64
  acct_io_write :: u64
  acct_start_time :: u64

type_synonym accounting = "(u32, ProcessAccounting) btree"

definition start_accounting :: "accounting \<Rightarrow> u64 \<Rightarrow> u32 \<Rightarrow> accounting" where
  "start_accounting m isr_tick_count pid = bt_insert pid
     \<lparr>acct_pid = pid, acct_user_time = 0, acct_system_time = 0, acct_voluntary = 0, acct_involuntary = 0,
      acct_peak_memory_kb = 0, acct_io_read = 0, acct_io_write = 0, acct_start_time = isr_tick_count\<rparr> m"

definition record_voluntary_switch :: "accounting \<Rightarrow> u32 \<Rightarrow> accounting" where
  "record_voluntary_switch m pid = bt_modify pid (\<lambda>e. e\<lparr>acct_voluntary := acct_voluntary e + 1\<rparr>) m"

definition record_involuntary_switch :: "accounting \<Rightarrow> u32 \<Rightarrow> accounting" where
  "record_involuntary_switch m pid = bt_modify pid (\<lambda>e. e\<lparr>acct_involuntary := acct_involuntary e + 1\<rparr>) m"

definition record_io :: "accounting \<Rightarrow> u32 \<Rightarrow> u64 \<Rightarrow> u64 \<Rightarrow> accounting" where
  "record_io m pid read_bytes write_bytes =
     bt_modify pid (\<lambda>e. e\<lparr>acct_io_read := acct_io_read e + read_bytes, acct_io_write := acct_io_write e + write_bytes\<rparr>) m"

definition get_accounting :: "accounting \<Rightarrow> u32 \<Rightarrow> ProcessAccounting option" where
  "get_accounting m pid = bt_get m pid"

definition remove_accounting :: "accounting \<Rightarrow> u32 \<Rightarrow> accounting \<times> ProcessAccounting option" where
  "remove_accounting m pid = (bt_remove pid m, bt_get m pid)"

section \<open>The tasks of the scheduler\<close>

text \<open>The pids of all tasks, wherever they are.\<close>

definition tasks :: "Scheduler \<Rightarrow> u32 multiset" where
  "tasks s = mset (map si_pid (run_queue s)) + mset (map si_pid (wait_queue s))
     + mset (map si_pid (flatten (current_by_cpu s)))"

abbreviation cpus_ok :: "Scheduler \<Rightarrow> bool" where
  "cpus_ok s \<equiv> length (current_by_cpu s) = MAX_CPUS"

lemma cpu_i_less [simp]: "cpu_i i < MAX_CPUS"
  by (simp add: cpu_i_def MAX_CPUS_def)

lemma set_slot_simps [simp]:
  "run_queue (set_slot i c s) = run_queue s" "wait_queue (set_slot i c s) = wait_queue s"
  "length (current_by_cpu (set_slot i c s)) = length (current_by_cpu s)"
  "idle_pid (set_slot i c s) = idle_pid s" "enabled (set_slot i c s) = enabled s"
  "tick_count (set_slot i c s) = tick_count s" "context_switches (set_slot i c s) = context_switches s"
  by (simp_all add: set_slot_def)

lemma current_set_slot [simp]: "cpus_ok s \<Longrightarrow> current_slot (set_slot i c s) i = c"
  by (simp add: current_slot_def set_slot_def)

text \<open>Storing into a processor's slot exchanges its task.\<close>

lemma slot_exchange:
  assumes "cpus_ok s"
  shows "mset (map si_pid (flatten (current_by_cpu (set_slot i c s)))) + mset (map si_pid (flatten [current_slot s i]))
    = mset (map si_pid (flatten (current_by_cpu s))) + mset (map si_pid (flatten [c]))"
proof -
  have "mset (flatten ((current_by_cpu s)[cpu_i i := c])) + mset (flatten [current_by_cpu s ! cpu_i i])
      = mset (flatten (current_by_cpu s)) + mset (flatten [c])"
    using assms by (intro mset_flatten_update) simp
  then have "image_mset si_pid (mset (flatten ((current_by_cpu s)[cpu_i i := c])) + mset (flatten [current_by_cpu s ! cpu_i i]))
      = image_mset si_pid (mset (flatten (current_by_cpu s)) + mset (flatten [c]))" by simp
  then show ?thesis by (simp add: set_slot_def current_slot_def)
qed

lemma tasks_set_slot:
  "cpus_ok s \<Longrightarrow> tasks (set_slot i c s) + mset (map si_pid (flatten [current_slot s i]))
     = tasks s + mset (map si_pid (flatten [c]))"
  using slot_exchange [of s i c] by (simp add: tasks_def add.assoc)

lemma tasks_set_slot_same:
  assumes "cpus_ok s" and "current_slot s i = Some c" and "si_pid c' = si_pid c"
  shows "tasks (set_slot i (Some c') s) = tasks s"
  using tasks_set_slot [OF assms(1), of i "Some c'"] assms(2,3) by simp

lemma tasks_set_slot_clear:
  assumes "cpus_ok s" and "current_slot s i = Some c"
  shows "add_mset (si_pid c) (tasks (set_slot i None s)) = tasks s"
  using tasks_set_slot [OF assms(1), of i None] assms(2) by simp

lemma tasks_set_slot_fill:
  assumes "cpus_ok s" and "current_slot s i = None"
  shows "tasks (set_slot i (Some c) s) = add_mset (si_pid c) (tasks s)"
  using tasks_set_slot [OF assms(1), of i "Some c"] assms(2) by simp

lemma mset_remove_at_pid:
  "i < length q \<Longrightarrow> mset (map si_pid q) = add_mset (si_pid (q ! i)) (mset (map si_pid (remove_at i q)))"
  by (metis id_take_nth_drop image_mset_add_mset mset_map mset_append mset.simps(2) remove_at_def
      union_mset_add_mset_right)

lemma update_first_pids [simp]:
  "(\<And>e. si_pid (f e) = si_pid e) \<Longrightarrow> map si_pid (update_first pid f q) = map si_pid q"
  by (auto simp: update_first_def map_update list_update_same_conv dest: position_SomeD split: option.splits)

text \<open>The operations that only move tasks.\<close>

lemma requeue_tasks:
  assumes "cpus_ok s"
  shows "tasks (requeue_current s i) = tasks s" "cpus_ok (requeue_current s i)"
    "current_slot (requeue_current s i) i = None"
proof -
  show "cpus_ok (requeue_current s i)" using assms by (simp add: requeue_current_def split: option.splits)
  show "current_slot (requeue_current s i) i = None"
    using assms by (simp add: requeue_current_def current_slot_def set_slot_def split: option.splits)
  show "tasks (requeue_current s i) = tasks s"
  proof (cases "current_slot s i")
    case (Some c)
    with tasks_set_slot_clear [OF assms Some] show ?thesis
      by (simp add: requeue_current_def tasks_def)
  qed (simp add: requeue_current_def)
qed

lemma dispatch_tasks:
  assumes "cpus_ok s" and "current_slot s i = None" and "idx < length (run_queue s)"
  shows "tasks (fst (dispatch s i idx f)) = tasks s" "cpus_ok (fst (dispatch s i idx f))"
proof -
  let ?n = "run_queue s ! idx"
  have "tasks (set_slot i (Some (?n\<lparr>si_time_slice := f ?n\<rparr>)) s) = add_mset (si_pid ?n) (tasks s)"
    using tasks_set_slot_fill [OF assms(1,2)] by simp
  then show "tasks (fst (dispatch s i idx f)) = tasks s"
    using mset_remove_at_pid [OF assms(3)] by (simp add: dispatch_def Let_def tasks_def)
  show "cpus_ok (fst (dispatch s i idx f))" using assms(1) by (simp add: dispatch_def Let_def)
qed

lemma set_enumerate_snd: "set q = snd ` set (enumerate 0 q)"
  by (metis list.set_map map_snd_enumerate)

lemma min_index_Some:
  assumes "min_index P key q = Some idx"
  shows "idx < length q" "P (q ! idx)" "\<forall>e \<in> set q. P e \<longrightarrow> key (q ! idx) \<le> key e"
proof -
  from assms obtain e where m: "min_by_key (\<lambda>(i, e). key e) (filter (\<lambda>(i, e). P e) (enumerate 0 q)) = Some (idx, e)"
    by (auto simp: min_index_def)
  from min_by_key_Some [OF m] have 1: "(idx, e) \<in> set (filter (\<lambda>(i, e). P e) (enumerate 0 q))"
    and 2: "\<forall>y \<in> set (filter (\<lambda>(i, e). P e) (enumerate 0 q)). key e \<le> (case y of (i, e) \<Rightarrow> key e)" by auto
  from 1 show idx: "idx < length q" "P (q ! idx)" by (auto simp: in_set_enumerate_eq)
  from 1 have e: "e = q ! idx" by (auto simp: in_set_enumerate_eq)
  show "\<forall>e \<in> set q. P e \<longrightarrow> key (q ! idx) \<le> key e"
  proof (intro ballI impI)
    fix x assume "x \<in> set q" "P x"
    then obtain j where "(j, x) \<in> set (filter (\<lambda>(i, e). P e) (enumerate 0 q))"
      by (auto simp: set_enumerate_snd [of q])
    with 2 show "key (q ! idx) \<le> key x" unfolding e by fastforce
  qed
qed

lemma min_index_None: "min_index P key q = None \<longleftrightarrow> (\<forall>e \<in> set q. \<not> P e)"
proof -
  have "min_index P key q = None \<longleftrightarrow> (\<forall>x \<in> set (enumerate 0 q). \<not> P (snd x))"
    by (auto simp: min_index_def filter_empty_conv)
  also have "\<dots> \<longleftrightarrow> (\<forall>e \<in> set q. \<not> P e)"
    by (auto simp: set_enumerate_snd [of q])
  finally show ?thesis .
qed

lemma schedule_tasks:
  assumes "cpus_ok s"
  shows "tasks (fst (schedule s i)) = tasks s" "cpus_ok (fst (schedule s i))"
proof -
  note r = requeue_tasks [OF assms, of i]
  note d = dispatch_tasks [OF r(2,3)]
  show "tasks (fst (schedule s i)) = tasks s"
    using r d(1) by (auto simp: schedule_def Let_def dest: min_index_Some(1) split: option.splits)
  show "cpus_ok (fst (schedule s i))"
    using r d(2) by (auto simp: schedule_def Let_def dest: min_index_Some(1) split: option.splits)
qed

lemma tasks_wait_push:
  "tasks (s\<lparr>wait_queue := wait_queue s @ [e]\<rparr>) = add_mset (si_pid e) (tasks s)"
  by (simp add: tasks_def)

lemma block_tasks:
  assumes "cpus_ok s"
  shows "tasks (block_process s i pid) = tasks s" "cpus_ok (block_process s i pid)"
proof -
  define s1 where "s1 = (case position (has_pid pid) (run_queue s) of
      Some pos \<Rightarrow> s\<lparr>run_queue := remove_at pos (run_queue s), wait_queue := wait_queue s @ [run_queue s ! pos]\<rparr>
    | None \<Rightarrow> s)"
  have 1: "tasks s1 = tasks s" "cpus_ok s1"
    using assms mset_remove_at_pid [of _ "run_queue s"]
    by (auto simp: s1_def tasks_def dest!: position_lt split: option.splits)
  have b: "block_process s i pid = (case current_slot s1 i of
      Some c \<Rightarrow> if si_pid c = pid then
          (set_slot i None s1)\<lparr>wait_queue := wait_queue s1 @ [c\<lparr>si_time_slice := effective_time_slice c\<rparr>]\<rparr> else s1
    | None \<Rightarrow> s1)" by (simp only: block_process_def Let_def s1_def)
  show "cpus_ok (block_process s i pid)" unfolding b using 1(2) by (simp split: option.splits)
  show "tasks (block_process s i pid) = tasks s"
  proof (cases "current_slot s1 i")
    case None
    with b 1(1) show ?thesis by simp
  next
    case (Some c)
    have "tasks ((set_slot i None s1)\<lparr>wait_queue := wait_queue s1 @ [c\<lparr>si_time_slice := effective_time_slice c\<rparr>]\<rparr>)
        = add_mset (si_pid c) (tasks (set_slot i None s1))"
      using tasks_wait_push [of "set_slot i None s1" "c\<lparr>si_time_slice := effective_time_slice c\<rparr>"] by simp
    with tasks_set_slot_clear [OF 1(2) Some] Some b 1(1) show ?thesis by simp
  qed
qed

lemma wake_tasks:
  "tasks (wake_process s pid) = tasks s" "current_by_cpu (wake_process s pid) = current_by_cpu s"
  using mset_remove_at_pid [of _ "wait_queue s"]
  by (auto simp: wake_process_def tasks_def dest!: position_lt split: option.splits)

lemma tick_tasks:
  assumes "cpus_ok s"
  shows "tasks (fst (tick s i)) = tasks s" "cpus_ok (fst (tick s i))"
proof -
  let ?s = "s\<lparr>tick_count := tick_count s + 1\<rparr>"
  have t: "tasks ?s = tasks s" "cpus_ok ?s" using assms by (simp_all add: tasks_def)
  have "tasks (set_slot i (Some (charge_tick c)) ?s) = tasks s" if "current_slot ?s i = Some c" for c
    using tasks_set_slot_same [OF t(2) that, of "charge_tick c"] t(1) by (simp add: charge_tick_def)
  then show "tasks (fst (tick s i)) = tasks s" "cpus_ok (fst (tick s i))"
    using t by (auto simp: tick_def Let_def split: option.splits)
qed

lemma queue_update_tasks:
  "(\<And>e. si_pid (f e) = si_pid e) \<Longrightarrow> tasks (s\<lparr>run_queue := update_first pid f (run_queue s)\<rparr>) = tasks s"
  by (simp add: tasks_def)

lemma slot_update_tasks:
  assumes "cpus_ok s" and "\<And>e. si_pid (f e) = si_pid e" and "current_slot s i = Some c"
  shows "tasks (set_slot i (Some (f c)) s) = tasks s"
  using tasks_set_slot_same [OF assms(1,3)] assms(2) by blast

lemma set_priority_tasks:
  assumes "cpus_ok s"
  shows "tasks (set_priority s i pid prio) = tasks s" "cpus_ok (set_priority s i pid prio)"
  using assms slot_update_tasks [OF assms, of "\<lambda>e. e\<lparr>si_priority := clamp (- 20) 19 prio\<rparr>"]
  by (auto simp: set_priority_def Let_def queue_update_tasks split: option.splits)

lemma set_deadline_tasks:
  assumes "cpus_ok s"
  shows "tasks (fst (set_deadline s i pid r p d)) = tasks s" "cpus_ok (fst (set_deadline s i pid r p d))"
proof -
  have "tasks (set_slot i (Some (c\<lparr>si_policy := Deadline, si_deadline := x\<rparr>)) s) = tasks s"
    if "current_slot s i = Some c" for c x
    using slot_update_tasks [OF assms _ that, of "\<lambda>e. e\<lparr>si_policy := Deadline, si_deadline := x\<rparr>"] by simp
  then show "tasks (fst (set_deadline s i pid r p d)) = tasks s" "cpus_ok (fst (set_deadline s i pid r p d))"
    using assms by (auto simp: set_deadline_def Let_def split_beta queue_update_tasks split: option.splits)
qed

lemma renew_pid [simp]: "si_pid (renew_deadline t e) = si_pid e"
  by (simp add: renew_deadline_def split: option.splits)

lemma update_deadline_tasks_tasks:
  assumes "cpus_ok s"
  shows "tasks (update_deadline_tasks s i) = tasks s" "cpus_ok (update_deadline_tasks s i)"
proof -
  let ?s = "s\<lparr>run_queue := map (renew_deadline (tick_count s)) (run_queue s)\<rparr>"
  have t: "tasks ?s = tasks s" "cpus_ok ?s" using assms by (simp_all add: tasks_def image_mset.compositionality comp_def)
  have "tasks (set_slot i (Some (renew_deadline (tick_count ?s) c)) ?s) = tasks s" if "current_slot ?s i = Some c" for c
    using tasks_set_slot_same [OF t(2) that] t(1) by simp
  then show "tasks (update_deadline_tasks s i) = tasks s" "cpus_ok (update_deadline_tasks s i)"
    using t by (auto simp: update_deadline_tasks_def Let_def split: option.splits)
qed

lemma update_anywhere_tasks:
  assumes "\<And>e. si_pid (f e) = si_pid e" and "update_anywhere pid f s = Some s'"
  shows "tasks s' = tasks s \<and> length (current_by_cpu s') = length (current_by_cpu s)"
proof -
  have "mset (map si_pid (flatten ((current_by_cpu s)[j := map_option f (current_by_cpu s ! j)])))
      = mset (map si_pid (flatten (current_by_cpu s)))" if idx: "slot_index pid s = Some j" for j
  proof -
    have j: "j < length (current_by_cpu s)" using idx unfolding slot_index_def by (rule position_lt)
    obtain c where c: "current_by_cpu s ! j = Some c"
      using position_holds [OF idx [unfolded slot_index_def]] by auto
    from mset_flatten_update [OF j, of "Some (f c)"]
    have "image_mset si_pid (mset (flatten ((current_by_cpu s)[j := Some (f c)])) + {# c #})
        = image_mset si_pid (mset (flatten (current_by_cpu s)) + {# f c #})" using c by simp
    with assms(1) c show ?thesis by simp
  qed
  moreover have "image_mset si_pid (mset (update_first p f q)) = image_mset si_pid (mset q)" for p q
    using update_first_pids [of f p q, OF assms(1)] by (metis mset_map)
  ultimately show ?thesis
    using assms(2) by (auto simp: update_anywhere_def tasks_def split: if_splits option.splits)
qed

lemma steal_tasks:
  "tasks (fst (steal_unpinned_for_cpu s cpu)) = tasks s"
  "current_by_cpu (fst (steal_unpinned_for_cpu s cpu)) = current_by_cpu s"
proof -
  have "map si_pid ((run_queue s)[i := (run_queue s ! i)\<lparr>si_placed_cpu := x\<rparr>]) = map si_pid (run_queue s)" for i x
    by (simp add: map_update list_update_same_conv) (metis list_update_beyond list_update_id not_le nth_map map_update)
  then show "tasks (fst (steal_unpinned_for_cpu s cpu)) = tasks s"
    "current_by_cpu (fst (steal_unpinned_for_cpu s cpu)) = current_by_cpu s"
    by (auto simp: steal_unpinned_for_cpu_def tasks_def simp flip: mset_map split: option.splits)
qed

text \<open>Making a task the running one.\<close>

lemma set_running_tasks:
  assumes "cpus_ok s"
  shows "tasks (set_running s i pid) =
      (if map_option si_pid (current_slot s i) = Some pid then tasks s
       else if queued pid (run_queue s) \<or> queued pid (wait_queue s) then tasks (set_slot i None s)
       else add_mset pid (tasks (set_slot i None s)))"
    "cpus_ok (set_running s i pid)"
proof -
  let ?s = "set_slot i None s"
  have fill: "tasks (set_slot i (Some e) ?s) = add_mset (si_pid e) (tasks ?s)" for e
    using assms by (intro tasks_set_slot_fill) simp_all
  show "cpus_ok (set_running s i pid)"
    using assms by (simp add: set_running_def Let_def split: option.splits)
  show "tasks (set_running s i pid) =
      (if map_option si_pid (current_slot s i) = Some pid then tasks s
       else if queued pid (run_queue s) \<or> queued pid (wait_queue s) then tasks ?s else add_mset pid (tasks ?s))"
  proof (cases "map_option si_pid (current_slot s i) = Some pid")
    case True
    then show ?thesis by (simp add: set_running_def)
  next
    case not_current: False
    show ?thesis
    proof (cases "position (has_pid pid) (run_queue s)")
      case (Some pos)
      then have e: "set_running s i pid
          = (set_slot i (Some (run_queue s ! pos)) ?s)\<lparr>run_queue := remove_at pos (run_queue s)\<rparr>"
        using not_current by (auto simp: set_running_def Let_def)
      have "queued pid (run_queue s)" using Some position_ex [of "has_pid pid" "run_queue s"] by blast
      moreover have "tasks (set_running s i pid) = tasks ?s"
        using fill [of "run_queue s ! pos"] mset_remove_at_pid [OF position_lt [OF Some]]
        unfolding e by (simp add: tasks_def)
      ultimately show ?thesis using not_current by auto
    next
      case norun: None
      then have nq: "\<not> queued pid (run_queue s)" by simp
      show ?thesis
      proof (cases "position (has_pid pid) (wait_queue s)")
        case (Some pos)
        then have e: "set_running s i pid
            = (set_slot i (Some (wait_queue s ! pos)) ?s)\<lparr>wait_queue := remove_at pos (wait_queue s)\<rparr>"
          using not_current norun by (auto simp: set_running_def Let_def simp del: position_None)
        have "queued pid (wait_queue s)" using Some position_ex [of "has_pid pid" "wait_queue s"] by blast
        moreover have "tasks (set_running s i pid) = tasks ?s"
          using fill [of "wait_queue s ! pos"] mset_remove_at_pid [OF position_lt [OF Some]]
          unfolding e by (simp add: tasks_def)
        ultimately show ?thesis using not_current by auto
      next
        case None
        then have "set_running s i pid = set_slot i (Some (SchedInfo_new pid 0)) ?s"
          using not_current norun by (auto simp: set_running_def Let_def simp del: position_None)
        moreover have "\<not> queued pid (wait_queue s)" using None by simp
        ultimately show ?thesis
          using fill [of "SchedInfo_new pid 0"] not_current nq by (auto simp: SchedInfo_new_def)
      qed
    qed
  qed
qed

text \<open>A task is on another processor.\<close>

definition elsewhere :: "Scheduler \<Rightarrow> nat \<Rightarrow> u32 \<Rightarrow> bool" where
  "elsewhere s i pid \<longleftrightarrow> pid \<in> si_pid ` set (flatten (current_by_cpu (set_slot i None s)))"

definition unique_tasks :: "Scheduler \<Rightarrow> bool" where
  "unique_tasks s \<longleftrightarrow> cpus_ok s \<and> (\<forall>p. count (tasks s) p \<le> 1)"

lemma unique_sub: "unique_tasks s \<Longrightarrow> cpus_ok s' \<Longrightarrow> tasks s' \<subseteq># tasks s \<Longrightarrow> unique_tasks s'"
  unfolding unique_tasks_def by (meson mset_subset_eq_count order_trans)

lemma unique_add:
  assumes "unique_tasks s" and "cpus_ok s'" and "tasks s' = add_mset p (tasks s)" and "p \<notin># tasks s"
  shows "unique_tasks s'"
proof -
  have "count (tasks s) p = 0" using assms(4) by (simp add: not_in_iff)
  with assms show ?thesis unfolding unique_tasks_def by simp
qed

lemma clear_sub: "cpus_ok s \<Longrightarrow> tasks (set_slot i None s) \<subseteq># tasks s"
  using tasks_set_slot [of s i None] by (metis flatten_simps(1,2) list.simps(8) mset.simps(1) add.right_neutral mset_subset_eq_add_left)

lemma set_running_unique:
  assumes "unique_tasks s" and "\<not> elsewhere s i pid"
  shows "unique_tasks (set_running s i pid)"
proof -
  have ok: "cpus_ok s" using assms(1) by (simp add: unique_tasks_def)
  note t = set_running_tasks [OF ok, of i pid]
  have c: "unique_tasks (set_slot i None s)"
    by (rule unique_sub [OF assms(1)]) (simp_all add: ok clear_sub)
  show ?thesis
  proof (cases "map_option si_pid (current_slot s i) = Some pid \<or> queued pid (run_queue s) \<or> queued pid (wait_queue s)")
    case True
    then have "tasks (set_running s i pid) \<subseteq># tasks s" using t(1) clear_sub [OF ok, of i] by auto
    with assms(1) t(2) show ?thesis by (rule unique_sub)
  next
    case False
    then have "pid \<notin># tasks (set_slot i None s)"
      using assms(2) by (auto simp: tasks_def elsewhere_def)
    with c t False show ?thesis by (intro unique_add [OF c]) auto
  qed
qed

lemma switch_running_unique:
  assumes "unique_tasks s" and "\<not> elsewhere s i pid"
  shows "unique_tasks (switch_running s i pid)"
proof (cases "current_slot s i")
  case None
  with set_running_unique [OF assms] show ?thesis by (simp add: switch_running_def)
next
  case (Some cur)
  have ok: "cpus_ok s" using assms(1) by (simp add: unique_tasks_def)
  let ?s1 = "set_slot i None s"
  define s2 where "s2 = (if \<not> queued (si_pid cur) (run_queue ?s1) \<and> \<not> queued (si_pid cur) (wait_queue ?s1)
      then ?s1\<lparr>run_queue := run_queue ?s1 @ [cur]\<rparr> else ?s1)"
  have "tasks (?s1\<lparr>run_queue := run_queue ?s1 @ [cur]\<rparr>) = tasks s"
    using tasks_set_slot_clear [OF ok Some] by (simp add: tasks_def)
  then have "tasks s2 \<subseteq># tasks s" using clear_sub [OF ok, of i] by (simp add: s2_def)
  moreover have "cpus_ok s2" using ok by (simp add: s2_def)
  ultimately have u2: "unique_tasks s2" using unique_sub [OF assms(1)] by blast
  have "\<not> elsewhere s2 i pid"
    using assms(2) by (simp add: s2_def elsewhere_def set_slot_def)
  with u2 have "unique_tasks (set_running s2 i pid)" by (rule set_running_unique)
  with Some assms(1) show ?thesis by (simp add: switch_running_def Let_def s2_def)
qed

lemma dispatch_result:
  assumes "cpus_ok s" and "dispatch s i idx f = (s', r)"
  shows "r = Some (si_pid (run_queue s ! idx))" "sched_current_pid s' i = Some (si_pid (run_queue s ! idx))"
  using assms by (auto simp: dispatch_def Let_def sched_current_pid_def current_slot_def set_slot_def)

section \<open>Runs\<close>

text \<open>
  The operations of the scheduler, each with the processor that performs it. A process is
  added only when the scheduler does not know its pid, and made the running task of a processor
  only when it is not the running task of another.
\<close>

datatype sched_op = AddProcess u32 i32 | RemoveProcess u32 | BlockProcess nat u32 | WakeProcess u32
  | SetPriority nat u32 i32 | ClearCurrent nat | SetRunning nat u32 | SwitchRunning nat u32 | Tick nat
  | Schedule nat | SetPolicy u32 SchedPolicy | SetDeadline nat u32 u64 u64 u64 | UpdateDeadlines nat
  | SetAffinity u32 u64 | SetPlaced u32 nat | Steal nat | YieldCurrent | Enable

fun sched_step :: "sched_op \<Rightarrow> Scheduler \<Rightarrow> Scheduler" where
  "sched_step (AddProcess pid prio) s = (if pid \<in># tasks s then s else add_process s pid prio)"
| "sched_step (RemoveProcess pid) s = remove_process s pid"
| "sched_step (BlockProcess i pid) s = block_process s i pid"
| "sched_step (WakeProcess pid) s = wake_process s pid"
| "sched_step (SetPriority i pid prio) s = set_priority s i pid prio"
| "sched_step (ClearCurrent i) s = clear_current s i"
| "sched_step (SetRunning i pid) s = (if elsewhere s i pid then s else set_running s i pid)"
| "sched_step (SwitchRunning i pid) s = (if elsewhere s i pid then s else switch_running s i pid)"
| "sched_step (Tick i) s = fst (tick s i)"
| "sched_step (Schedule i) s = fst (schedule s i)"
| "sched_step (SetPolicy pid pol) s = set_policy s pid pol"
| "sched_step (SetDeadline i pid r p d) s = fst (set_deadline s i pid r p d)"
| "sched_step (UpdateDeadlines i) s = update_deadline_tasks s i"
| "sched_step (SetAffinity pid m) s = fst (set_cpu_affinity s pid m)"
| "sched_step (SetPlaced pid cpu) s = set_placed_cpu s pid cpu"
| "sched_step (Steal cpu) s = fst (steal_unpinned_for_cpu s cpu)"
| "sched_step YieldCurrent s = yield_current s"
| "sched_step Enable s = enable s"

text \<open>The operations that create or drop no task.\<close>

fun moves_only :: "sched_op \<Rightarrow> bool" where
  "moves_only (AddProcess pid prio) \<longleftrightarrow> False"
| "moves_only (RemoveProcess pid) \<longleftrightarrow> False"
| "moves_only (ClearCurrent i) \<longleftrightarrow> False"
| "moves_only (SetRunning i pid) \<longleftrightarrow> False"
| "moves_only (SwitchRunning i pid) \<longleftrightarrow> False"
| "moves_only _ \<longleftrightarrow> True"

lemma affinity_tasks:
  "tasks (fst (set_cpu_affinity s pid m)) = tasks s
   \<and> length (current_by_cpu (fst (set_cpu_affinity s pid m))) = length (current_by_cpu s)"
  "tasks (set_placed_cpu s pid cpu) = tasks s
   \<and> length (current_by_cpu (set_placed_cpu s pid cpu)) = length (current_by_cpu s)"
  by (auto simp: set_cpu_affinity_def set_placed_cpu_def dest: update_anywhere_tasks [rotated] split: option.splits)

lemma moves_only_tasks:
  assumes "cpus_ok s" and "moves_only op"
  shows "tasks (sched_step op s) = tasks s \<and> cpus_ok (sched_step op s)"
  using assms
  by (cases op)
    (simp_all add: block_tasks wake_tasks set_priority_tasks tick_tasks schedule_tasks set_deadline_tasks
      update_deadline_tasks_tasks affinity_tasks steal_tasks set_policy_def queue_update_tasks,
     simp_all add: yield_current_def enable_def tasks_def)

lemma remove_tasks: "tasks (remove_process s pid) \<subseteq># tasks s"
proof -
  have "mset (map si_pid (filter P q)) \<subseteq># mset (map si_pid q)" for P and q :: "SchedInfo list"
    by (metis image_mset_subseteq_mono mset_filter mset_map multiset_filter_subset)
  moreover have "flatten (map (\<lambda>c. if map_option si_pid c = Some pid then None else c) cs)
      = filter (\<lambda>e. si_pid e \<noteq> pid) (flatten cs)" for cs :: "SchedInfo option list"
  proof (induction cs)
    case (Cons c cs)
    then show ?case by (cases c) auto
  qed simp
  ultimately show ?thesis
    unfolding tasks_def remove_process_def by (simp add: subset_mset.add_mono)
qed

interpretation sched: state_machine Scheduler_new sched_step unique_tasks
proof
  have "flatten (replicate n (None :: SchedInfo option)) = []" for n :: nat by (induction n) simp_all
  then show "unique_tasks Scheduler_new"
    by (simp add: unique_tasks_def Scheduler_new_def tasks_def)
next
  fix s op assume u: "unique_tasks s"
  then have ok: "cpus_ok s" by (simp add: unique_tasks_def)
  show "unique_tasks (sched_step op s)"
  proof (cases "moves_only op")
    case True
    with moves_only_tasks [OF ok True] u show ?thesis by (simp add: unique_tasks_def)
  next
    case False
    then show ?thesis
    proof (cases op)
      case (AddProcess pid prio)
      have "tasks (add_process s pid prio) = add_mset pid (tasks s)" "cpus_ok (add_process s pid prio)"
        using ok by (simp_all add: add_process_def tasks_def SchedInfo_new_def Let_def)
      with AddProcess u show ?thesis by (auto intro: unique_add)
    next
      case (RemoveProcess pid)
      with unique_sub [OF u _ remove_tasks, of pid] ok show ?thesis by (simp add: remove_process_def)
    next
      case (ClearCurrent i)
      with unique_sub [OF u _ clear_sub [OF ok, of i]] ok show ?thesis by (simp add: clear_current_def)
    qed (use u in \<open>auto intro: set_running_unique switch_running_unique\<close>)
  qed
qed

lemma tick_continues:
  assumes "enabled s" and "cpus_ok s" and "current_slot s i = Some c" and "\<not> snd (tick s i)"
  shows "enabled (fst (tick s i))" "cpus_ok (fst (tick s i))" "current_slot (fst (tick s i)) i = Some (charge_tick c)"
    "si_time_slice (charge_tick c) \<noteq> 0"
proof -
  let ?s = "s\<lparr>tick_count := tick_count s + 1\<rparr>"
  have c: "current_slot ?s i = Some c" using assms(3) by (simp add: current_slot_def)
  show z: "si_time_slice (charge_tick c) \<noteq> 0"
    using assms(1,4) c by (auto simp: tick_def Let_def split: if_splits)
  have "fst (tick s i) = set_slot i (Some (charge_tick c)) ?s"
    using assms(1) c z by (simp add: tick_def Let_def split: option.splits)
  with assms(1,2) show "enabled (fst (tick s i))" "cpus_ok (fst (tick s i))"
    "current_slot (fst (tick s i)) i = Some (charge_tick c)" by simp_all
qed

lemma slice_runs_out:
  "enabled s \<Longrightarrow> cpus_ok s \<Longrightarrow> current_slot s i = Some c \<Longrightarrow> n = unat (si_time_slice c) \<Longrightarrow> 0 < n \<Longrightarrow>
     \<exists>k < n. snd (tick (((\<lambda>t. fst (tick t i)) ^^ k) s) i)"
proof (induction n arbitrary: s c)
  case (Suc n)
  show ?case
  proof (cases "snd (tick s i)")
    case True
    then show ?thesis by (intro exI [of _ 0]) simp
  next
    case False
    note t = tick_continues [OF Suc.prems(1-3) False]
    have "si_time_slice c > 0" using Suc.prems(4) by (simp add: word_less_nat_alt)
    then have "unat (si_time_slice c - 1) = unat (si_time_slice c) - 1"
      by (intro unat_minus_one) (auto simp: word_less_nat_alt)
    with \<open>si_time_slice c > 0\<close> Suc.prems(4) have "unat (si_time_slice (charge_tick c)) = n"
      by (simp add: charge_tick_def)
    moreover from this t(4) have "0 < n" by (metis unat_eq_0 gr_zeroI)
    ultimately obtain k where "k < n" "snd (tick (((\<lambda>t. fst (tick t i)) ^^ k) (fst (tick s i))) i)"
      using Suc.IH [OF t(1-3)] by metis
    then show ?thesis by (intro exI [of _ "Suc k"]) (simp add: funpow_Suc_right del: funpow.simps)
  qed
qed simp

section \<open>Properties\<close>



text \<open>C17: \<open>schedule\<close> picks the best task it may run. It considers the run queue with the outgoing
  task put back; when no task there may run on the processor it answers the idle task, and
  otherwise a task that may: the one with the earliest deadline if there is a deadline task
  that is not throttled, else the one with the least nice value if there is a real-time task,
  else the one with the least virtual runtime, among the idle-class tasks only if there is no
  other. That task is then the running one.\<close>

theorem schedule_picks_best:
  assumes "length (current_by_cpu s) = MAX_CPUS" and "schedule s i = (s', r)"
    and "q = run_queue (requeue_current s i)"
  shows "(r = Some (idle_pid s) \<and> (\<forall>e \<in> set q. \<not> allowed i e))
    \<or> (\<exists>e \<in> set q. r = Some (si_pid e) \<and> allowed i e \<and> sched_current_pid s' i = Some (si_pid e)
        \<and> (if \<exists>d \<in> set q. runnable_deadline i d
           then runnable_deadline i e \<and> (\<forall>d \<in> set q. runnable_deadline i d \<longrightarrow> deadline_key e \<le> deadline_key d)
           else if \<exists>d \<in> set q. runnable_rt i d
           then runnable_rt i e \<and> (\<forall>d \<in> set q. runnable_rt i d \<longrightarrow> si_priority e \<le> si_priority d)
           else if \<exists>d \<in> set q. runnable_fair i d
           then runnable_fair i e \<and> (\<forall>d \<in> set q. runnable_fair i d \<longrightarrow> si_vruntime e \<le> si_vruntime d)
           else (\<forall>d \<in> set q. allowed i d \<longrightarrow> si_vruntime e \<le> si_vruntime d)))"
    (is "?idle \<or> ?best")
proof -
  let ?s = "requeue_current s i"
  note rq = requeue_tasks(2) [OF assms(1), of i]
  have idle: "idle_pid ?s = idle_pid s" by (simp add: requeue_current_def split: option.splits)
  have disp: "q ! idx \<in> set q" "r = Some (si_pid (q ! idx))" "sched_current_pid s' i = Some (si_pid (q ! idx))"
    if "idx < length q" "dispatch ?s i idx f = (s', r)" for idx f
    using dispatch_result [OF rq that(2)] that(1) by (simp_all add: assms(3))
  show ?thesis
  proof (cases "\<exists>d \<in> set q. runnable_deadline i d")
    case True
    then obtain idx where m: "min_index (runnable_deadline i) deadline_key q = Some idx"
      using min_index_None [of "runnable_deadline i" deadline_key q] by auto
    from True have "q \<noteq> []" by auto
    with assms m have "dispatch ?s i idx deadline_slice = (s', r)" by (simp add: schedule_def Let_def)
    with disp [OF min_index_Some(1) [OF m]] min_index_Some [OF m] True have ?best
      by (intro bexI [of _ "q ! idx"]) (simp_all add: runnable_deadline_def [of i "q ! idx"])
    then show ?thesis ..
  next
    case no_dl: False
    then have dl: "min_index (runnable_deadline i) deadline_key q = None" by (simp add: min_index_None)
    show ?thesis
    proof (cases "\<exists>d \<in> set q. runnable_rt i d")
      case True
      then obtain idx where m: "min_index (runnable_rt i) si_priority q = Some idx"
        using min_index_None [of "runnable_rt i" si_priority q] by auto
      from True have "q \<noteq> []" by auto
      with assms m dl have "dispatch ?s i idx effective_time_slice = (s', r)" by (simp add: schedule_def Let_def)
      with disp [OF min_index_Some(1) [OF m]] min_index_Some [OF m] True no_dl have ?best
        by (intro bexI [of _ "q ! idx"]) (simp_all add: runnable_rt_def [of i "q ! idx"])
      then show ?thesis ..
    next
      case no_rt: False
      then have rt: "min_index (runnable_rt i) si_priority q = None" by (simp add: min_index_None)
      show ?thesis
      proof (cases "\<exists>d \<in> set q. runnable_fair i d")
        case True
        then obtain idx where m: "min_index (runnable_fair i) si_vruntime q = Some idx"
          using min_index_None [of "runnable_fair i" si_vruntime q] by auto
        from True have "q \<noteq> []" by auto
        with assms True m dl rt have "dispatch ?s i idx effective_time_slice = (s', r)"
          by (simp add: schedule_def Let_def filter_empty_conv)
        with disp [OF min_index_Some(1) [OF m]] min_index_Some [OF m] True no_dl no_rt have ?best
          by (intro bexI [of _ "q ! idx"]) (simp_all add: runnable_fair_def [of i "q ! idx"])
        then show ?thesis ..
      next
        case no_fair: False
        show ?thesis
        proof (cases "min_index (allowed i) si_vruntime q")
          case None
          with assms dl rt no_fair idle have "r = Some (idle_pid s)"
            by (auto simp: schedule_def Let_def filter_empty_conv split: if_splits)
          moreover have "\<forall>e \<in> set q. \<not> allowed i e" using None by (simp add: min_index_None)
          ultimately show ?thesis by blast
        next
          case (Some idx)
          note m = min_index_Some [OF Some]
          have "q \<noteq> []" using m(1) by auto
          with assms dl rt no_fair Some have "dispatch ?s i idx effective_time_slice = (s', r)"
            by (simp add: schedule_def Let_def filter_empty_conv)
          with disp [OF m(1)] m no_dl no_rt no_fair have ?best
            by (intro bexI [of _ "q ! idx"]) simp_all
          then show ?thesis ..
        qed
      qed
    qed
  qed
qed

theorem schedule_picks_best_witness:
  "snd (schedule \<lparr>run_queue = [(SchedInfo_new 7 0)\<lparr>si_vruntime := 5\<rparr>, (SchedInfo_new 8 0)\<lparr>si_vruntime := 3\<rparr>],
      current_by_cpu = replicate MAX_CPUS None, wait_queue = [], idle_pid = 0, enabled = True, tick_count = 0,
      context_switches = 0\<rparr> 0) = Some 8"
proof -
  let ?q = "[(SchedInfo_new 7 0)\<lparr>si_vruntime := 5\<rparr>, (SchedInfo_new 8 0)\<lparr>si_vruntime := 3\<rparr>]"
  let ?s = "\<lparr>run_queue = ?q, current_by_cpu = replicate MAX_CPUS None, wait_queue = [], idle_pid = 0,
      enabled = True, tick_count = 0, context_switches = 0\<rparr>"
  obtain s' r where r: "schedule ?s 0 = (s', r)" by fastforce
  have q: "?q = run_queue (requeue_current ?s 0)" by (simp add: requeue_current_def current_slot_def)
  from schedule_picks_best [OF _ r q] have "r = Some 8"
    by (simp add: runnable_deadline_def runnable_rt_def runnable_fair_def allowed_def SchedInfo_new_def
        is_ap_idle_pid_def AP_IDLE_PID_BASE_def MAX_CPUS_def)
  with r show ?thesis by simp
qed

text \<open>C39: No task keeps a processor beyond its time slice: when the scheduler is enabled, at least
  one of the next \<open>n\<close> ticks asks for a new scheduling decision, where \<open>n\<close> is the time slice left
  to the running task.\<close>

theorem time_slice_bounds_run:
  assumes "enabled s" and "length (current_by_cpu s) = MAX_CPUS" and "current_slot s i = Some c"
    and "0 < si_time_slice c"
  shows "\<exists>k < unat (si_time_slice c). snd (tick (((\<lambda>t. fst (tick t i)) ^^ k) s) i)"
  using slice_runs_out [OF assms(1-3) refl] assms(4) by (simp add: word_less_nat_alt)

theorem time_slice_bounds_run_witness:
  "\<exists>k < 10. snd (tick (((\<lambda>t. fst (tick t 0)) ^^ k) \<lparr>run_queue = [], current_by_cpu = [Some (SchedInfo_new 7 0),
      None, None, None, None, None, None, None, None, None, None, None, None, None, None, None], wait_queue = [],
      idle_pid = 0, enabled = True, tick_count = 0, context_switches = 0\<rparr>) 0)"
proof -
  let ?s = "\<lparr>run_queue = [], current_by_cpu = [Some (SchedInfo_new 7 0),
      None, None, None, None, None, None, None, None, None, None, None, None, None, None, None], wait_queue = [],
      idle_pid = 0, enabled = True, tick_count = 0, context_switches = 0\<rparr>"
  have "length (current_by_cpu ?s) = MAX_CPUS" "current_slot ?s 0 = Some (SchedInfo_new 7 0)"
    by (simp_all add: MAX_CPUS_def current_slot_def cpu_i_def)
  from time_slice_bounds_run [OF _ this] show ?thesis by (simp add: SchedInfo_new_def DEFAULT_TIME_SLICE_def)
qed

section \<open>Gaps in the fairness of the scheduler\<close>

text \<open>The virtual runtime of a task with a negative nice value never grows: \<open>1024 / weight\<close> is 0.\<close>

lemma negative_nice_vruntime_frozen:
  assumes "- 20 \<le> si_priority c" and "si_priority c < 0"
  shows "si_vruntime (charge_tick c) = si_vruntime c"
proof -
  let ?i = "nat (si_priority c + 20)"
  have i: "?i < 20" using assms by simp
  have "\<forall>j < 20. 1024 div max (CFS_WEIGHTS ! j) 1 = 0"
    by (simp add: CFS_WEIGHTS_def numeral_eq_Suc All_less_Suc) (simp add: max_def word_le_nat_alt)
  with i have "1024 div max (CFS_WEIGHTS ! ?i) 1 = 0" by blast
  moreover have "weight c = CFS_WEIGHTS ! ?i"
    using assms by (simp add: weight_def clamp_def)
  ultimately show ?thesis by (simp add: charge_tick_def)
qed

text \<open>The admission control wraps: two tasks that each need a whole processor are both admitted.\<close>

lemma admission_wraps:
  fixes dl :: DeadlineParams
  assumes "dl_period dl = 2 ^ 32" and "dl_runtime dl = 2 ^ 32"
    and "e = (SchedInfo_new 8 0)\<lparr>si_policy := Deadline, si_deadline := Some dl\<rparr>"
  shows "snd (set_deadline (Scheduler_new\<lparr>run_queue := [e, SchedInfo_new 9 0]\<rparr>) 0 9 (2 ^ 32) (2 ^ 32) (2 ^ 32)) = Inr ()"
  using assms by (simp add: set_deadline_def utilization_def Scheduler_new_def SchedInfo_new_def MAX_CPUS_def
      flatten_def Let_def)

text \<open>Making a task that runs on one processor the running task of another duplicates it.\<close>

lemma set_running_duplicates:
  "tasks (set_running (set_running Scheduler_new 0 7) 1 7) = {# 7, 7 #}"
  by (simp add: set_running_def Scheduler_new_def current_slot_def set_slot_def cpu_i_def MAX_CPUS_def
      numeral_eq_Suc tasks_def SchedInfo_new_def)

end
