(* ===== verification/Spec2Isabelle.thy ===== *)
theory Spec2Isabelle
  imports Pipe Eventfd Flock Shm Mqueue Layout Frame_Pool Page_Table User_Memory Swap
    Frame_Owner Seccomp
    Futex Wait_Queue Rlimit Capabilities Cgroup Scheduler
begin

text \<open>
  A verification of parts of the KnoxOS kernel (\<open>src/kernel/src\<close>): its inter-process
  communication, physical and virtual memory, scheduling, synchronisation and access control.

  \<^bold>\<open>The program.\<close> KnoxOS is a Rust kernel. Each subsystem keeps its tables in global variables
  behind a mutex and exports functions that lock the table, change it and return a result or a
  negative error number. System calls and interrupt handlers call these functions; the functions
  of one subsystem call those of another (a futex wait puts the task to sleep in the scheduler,
  a seccomp verdict sends a signal).

  \<^bold>\<open>Translation.\<close> A struct is a record, an enum a datatype, a method \<open>T::m\<close> the definition
  \<open>T_m\<close> or \<open>m\<close>, a global table a component of the state that the definitions take and return. The
  unsigned integers keep their width (types \<open>u8\<close> to \<open>u64\<close>); signed ones are integers with
  \<open>wrap_i32\<close> and \<open>wrap_i64\<close> where they can leave their range; sizes and indices (\<open>usize\<close>) are
  natural numbers. The kernel is built in release mode, so arithmetic wraps and an index out of
  range panics: the value \<open>Panic\<close> of type \<open>exec\<close>. Values that come from outside a component
  (the current pid, the processor index, the clock, the entropy source, the uid of a process,
  the contents of files) are arguments. Loops are recursive functions with a termination proof. Each
  function that holds its mutex throughout is one step; where a function releases it in between
  (semaphores), the steps interleave.

  \<^bold>\<open>Theories.\<close>
  \<^item> \<open>Prelude\<close>: machine integers, panics, \<open>Vec\<close> operations, little-endian words, and the
    interfaces \<open>state_machine\<close> and \<open>counted_machine\<close> (an invariant kept by every step holds after
    every run) and \<open>simulation\<close> (a component that answers its callers as a specification allows).
  \<^item> \<open>Btree\<close>: \<open>BTreeMap\<close> as a sorted association list and the interface \<open>keyed_table\<close>.
  \<^item> \<open>Channel\<close>: the interfaces \<open>byte_channel\<close> (what goes in comes out, in order) and
    \<open>token_account\<close> (what is deposited is withdrawn or still there).
  \<^item> \<open>Pipe\<close> (\<open>ipc/pipe.rs\<close>): the ring buffer and the pipe table. Any run of operations delivers the
    accepted bytes in order and never panics; resize and splice keep or account for the contents.
    A resize to an exact fit breaks this: \<open>exact_fit_write_panics\<close>.
  \<^item> \<open>Eventfd\<close> (\<open>ipc/eventfd.rs\<close>): the counter conserves events.
  \<^item> \<open>Flock\<close> (\<open>ipc/flock.rs\<close>): conflicting locks never coexist; \<open>F_GETLK\<close> predicts \<open>F_SETLK\<close>.
  \<^item> \<open>Shm\<close> (\<open>ipc/shm.rs\<close>): attachment counts, and that a write can be read back.
  \<^item> \<open>Mqueue\<close> (\<open>ipc/mqueue.rs\<close>): descriptors never dangle; messages leave by priority and, within a
    priority, in the order sent.
  \<^item> \<open>Layout\<close> (\<open>mm/vmm/layout.rs\<close>, \<open>mm/vmm/region.rs\<close>): the address-space layout, randomisation,
    page alignment and region flags.
  \<^item> \<open>Frame_Pool\<close> (\<open>mm/vmm/frame.rs\<close>): the buddy allocator. Free blocks and blocks handed out never
    overlap; an allocation fails only if no block is large enough.
  \<^item> \<open>Page_Table\<close> (\<open>mm/vmm/page_table.rs\<close>, the allocation functions of \<open>mm/vmm/frame.rs\<close>, the entry
    format of \<open>arch/arch_compat.rs\<close>): the four-level tables as bytes of a physical memory. They
    implement a map from pages to entries. Reclaim is an argument of the allocation, with the
    hypothesis \<open>reclaim_ok\<close> that it only moves frames to the pool.
  \<^item> \<open>User_Memory\<close> (\<open>mm/vmm/user.rs\<close>): copies to and from user memory through the tables.
  \<^item> \<open>Swap\<close> (\<open>mm/swap.rs\<close>): swap areas, slots and the manager; every run behaves like a map from
    pages to contents.
  \<^item> \<open>Address_Space\<close> (\<open>mm/vmm/space.rs\<close>, the policy on writable and executable mappings of
    \<open>security/hardening.rs\<close>): the areas of a process. They stay disjoint and behave like a map
    from addresses to areas; the search for room, a loop that could run forever, returns.
  \<^item> \<open>Copy_On_Write\<close> and \<open>Page_Fault\<close> (the same file): two trees of tables in one memory. After a
    fork the child sees the parent's bytes; a write fault makes the page private and a first access
    fills it, and neither changes what another process sees.
  \<^item> \<open>Vm_Table\<close> and \<open>Frame_Owner\<close> (the same file, \<open>mm/vmm/user.rs\<close>): the table of address spaces and
    its entry points. Over every run, a step relation, no frame has two owners or is free while it
    is owned; the steps the code allows beyond those of the relation break this
    (\<open>exec_frees_shared_table\<close>, \<open>exit_frees_forked_frames\<close>).
  \<^item> \<open>Seccomp\<close> (\<open>security/seccomp.rs\<close>): the BPF interpreter, filters and verdicts. Errno filters
    are exact; a filter that kills blocks nothing, because its action loses the comparison.
  \<^item> \<open>Futex\<close> (\<open>ipc/futex.rs\<close>): no waiter is lost; wakes are in order; requeues move the rest.
  \<^item> \<open>Wait_Queue\<close> (\<open>sched/wait_queue.rs\<close>): wait queues, completions, semaphores and read-write
    semaphores, as step relations over all interleavings: mutual exclusion holds, but a wake-up
    can be lost (\<open>semaphore_lost_wakeup\<close>).
  \<^item> \<open>Rlimit\<close> (\<open>sched/rlimit.rs\<close>) and \<open>Capabilities\<close> (\<open>sched/capabilities.rs\<close>): limits and
    privileges of processes only shrink without privileged steps.
  \<^item> \<open>Cgroup\<close> (\<open>sched/cgroups.rs\<close>, \<open>sched/cgroup2.rs\<close>): control groups. The groups form a tree, so
    the recursive count terminates (\<open>count_descendants\<close> takes fuel; the number of operations plus
    three is enough); charges succeed within the limits, and a refused one has a flaw
    (\<open>refused_charge_frees_limit\<close>).
  \<^item> \<open>Scheduler\<close> (\<open>sched/scheduler.rs\<close>): tasks are neither lost nor duplicated, the best task is
    chosen, and a time slice is bounded. The fairness gaps of the code are stated as lemmas.

  \<^bold>\<open>Not modelled.\<close> Signals, processes, the program loader, file systems, the network stack, cryptography,
  drivers, the graphical interface and the architecture code. The boot-time
  self-tests and the log output of the modelled files are left out; so are the register-level
  context switches of the scheduler, the loading of \<open>CR3\<close> and the reading of hardware clocks.
\<close>

end
